theory Spec2Isabelle
  imports Main "HOL-Library.AList" "HOL-Library.Signed_Division" "HOL-Library.Char_ord"
    "HOL-Library.List_Lexorder"
begin

section \<open>Common parts\<close>

text \<open>
  Every way the converter stops: a failed \<open>assert\<close> or \<open>Q_ASSERT\<close> (with the
  asserted expression), a dereferenced null pointer, a thrown \<open>std::runtime_error\<close>,
  \<open>qFatal\<close>, and the integer division by zero of \<open>%\<close>.
\<close>

datatype failure =
    AssertionFailed string
  | NullPointer
  | RuntimeError string
  | Fatal string
  | DivideByZero

text \<open>The two log levels that record a problem; debug and trace output is left out.\<close>

datatype severity = LogWarn | LogError

definition digit_char :: "nat \<Rightarrow> char" where
  "digit_char d = ''0123456789'' ! d"

text \<open>Decimal output of an unsigned number, as \<open>operator<<\<close> and \<open>to_string\<close> print it.\<close>

fun nat_to_string :: "nat \<Rightarrow> string" where
  "nat_to_string n =
     (if n < 10 then [digit_char n]
      else nat_to_string (n div 10) @ [digit_char (n mod 10)])"

declare nat_to_string.simps [simp del]

definition to_string :: "int \<Rightarrow> string" where
  "to_string i = (if i < 0 then CHR ''-'' # nat_to_string (nat (- i)) else nat_to_string (nat i))"

definition starts_with :: "string \<Rightarrow> string \<Rightarrow> bool" where
  "starts_with s p = (take (length p) s = p)"

definition ends_with :: "string \<Rightarrow> string \<Rightarrow> bool" where
  "ends_with s p = (length p \<le> length s \<and> drop (length s - length p) s = p)"

text \<open>\<open>std::string::substr(pos, count)\<close> for \<open>pos \<le> size()\<close>: the count is cut at the end.\<close>

definition substr :: "string \<Rightarrow> nat \<Rightarrow> nat \<Rightarrow> string" where
  "substr s pos n = take n (drop pos s)"

definition LF :: string where
  "LF = [CHR 0x0A]"

definition TAB :: char where
  "TAB = CHR 0x09"

text \<open>Reading a decimal numeral back: the digits, and the number they denote.\<close>

definition is_digit :: "char \<Rightarrow> bool" where
  "is_digit c = (c \<in> set ''0123456789'')"

definition decimal_value :: "string \<Rightarrow> nat" where
  "decimal_value s = foldl (\<lambda>a c. 10 * a + (of_char c - 48)) 0 s"

section \<open>git_repository.cpp\<close>

subsection \<open>Ordered maps\<close>

text \<open>
  A \<open>std::map\<close> is the list of its entries in ascending key order. \<open>omap_assign\<close> is \<open>m[k] = v\<close>, \<open>omap_index\<close> is the read
  \<open>m[k]\<close>, which inserts a zero under a missing key, \<open>omap_upper_bound\<close> is the
  position of the first entry whose key is greater.
\<close>

fun omap_assign :: "'k::linorder \<Rightarrow> 'v \<Rightarrow> ('k \<times> 'v) list \<Rightarrow> ('k \<times> 'v) list" where
  "omap_assign k v [] = [(k, v)]"
| "omap_assign k v ((k', v') # m) =
     (if k < k' then (k, v) # (k', v') # m
      else if k = k' then (k, v) # m
      else (k', v') # omap_assign k v m)"

definition omap_index :: "(nat \<times> nat) list \<Rightarrow> nat \<Rightarrow> nat \<times> (nat \<times> nat) list" where
  "omap_index m k = (case map_of m k of Some v \<Rightarrow> (v, m) | None \<Rightarrow> (0, omap_assign k 0 m))"

definition omap_upper_bound :: "(nat \<times> nat) list \<Rightarrow> nat \<Rightarrow> nat" where
  "omap_upper_bound m k = length (takeWhile (\<lambda>e. fst e \<le> k) m)"

definition omap_ok :: "(nat \<times> nat) list \<Rightarrow> bool" where
  "omap_ok m = (sorted (map fst m) \<and> distinct (map fst m))"

text \<open>The value a map holds for a key, zero when it has none: what \<open>m[k]\<close> reads.\<close>

definition omap_value :: "(nat \<times> nat) list \<Rightarrow> nat \<Rightarrow> nat" where
  "omap_value m k = (case map_of m k of Some v \<Rightarrow> v | None \<Rightarrow> 0)"

subsection \<open>Refs and repositories\<close>

type_synonym ref_ptr = nat

record ref =
  name :: string
  marks :: "(nat \<times> nat) list"
  head_tree_sha :: string
  merged_revisions :: "(ref_ptr \<times> nat) list"
  pending_merges :: "(ref_ptr \<times> nat) list"
  pending_deletions :: "string list"
  rewrite_dot_gitmodules :: bool

text \<open>What the repository sends to its fast-import process, one entry per call.\<close>

datatype fast_import_cmd =
    FI_write string
  | FI_commit string nat string nat string
  | FI_reset string nat
  | FI_filedelete string
  | FI_send_ls string

record svn_revision =
  revnum :: nat
  author :: string
  epoch :: nat
  log_message :: string

type_synonym repo_ptr = nat

text \<open>
  A repository with the ref objects it owns (\<open>refs\<close>, by address), the table from ref
  names to those objects (\<open>ref_index\<close>), the commands written to fast-import so far and
  the warnings and errors logged so far. \<open>modified_refs\<close> is a \<open>std::set\<close> of ref
  pointers, in ascending order.
\<close>

record git_repository =
  git_dir :: string
  refs :: "ref_ptr \<Rightarrow> ref"
  ref_index :: "(string \<times> ref_ptr) list"
  super_module :: "repo_ptr option"
  has_submodules :: bool
  modified_submodule_refs :: int
  last_mark :: nat
  current_ref :: "ref_ptr option"
  modified_refs :: "ref_ptr list"
  fast_import :: "fast_import_cmd list"
  git_log :: "(severity \<times> string) list"

definition new_ref :: "string \<Rightarrow> ref" where
  "new_ref nm = \<lparr>ref.name = nm, marks = [], head_tree_sha = [], merged_revisions = [],
     pending_merges = [], pending_deletions = [], rewrite_dot_gitmodules = False\<rparr>"

text \<open>
  Modelled from the spec: \<open>demand_ref\<close> is declared in git_repository.hpp, which is not
  among the sources. Refs are created lazily: the ref of that name, or a new one with
  empty state at the address \<open>fresh\<close> the allocator hands out.
\<close>

definition demand_ref :: "git_repository \<Rightarrow> string \<Rightarrow> ref_ptr \<Rightarrow> ref_ptr \<times> git_repository" where
  "demand_ref g nm fresh =
     (case map_of (ref_index g) nm of
        Some p \<Rightarrow> (p, g)
      | None \<Rightarrow> (fresh, g\<lparr>ref_index := ref_index g @ [(nm, fresh)],
                             refs := (refs g)(fresh := new_ref nm)\<rparr>))"

definition update_ref :: "ref_ptr \<Rightarrow> (ref \<Rightarrow> ref) \<Rightarrow> git_repository \<Rightarrow> git_repository" where
  "update_ref p f g = g\<lparr>refs := (refs g)(p := f (refs g p))\<rparr>"

definition record_ancestor ::
  "git_repository \<Rightarrow> ref_ptr \<Rightarrow> string \<Rightarrow> nat \<Rightarrow> ref_ptr \<Rightarrow> git_repository" where
  "record_ancestor g descendant src_ref_name src_rev fresh =
     (let (src_ref, g1) = demand_ref g src_ref_name fresh;
          (merged_rev, pm) = omap_index (pending_merges (refs g1 descendant)) src_ref
      in update_ref descendant
           (\<lambda>d. d\<lparr>pending_merges := (if merged_rev < src_rev then omap_assign src_ref src_rev pm else pm)\<rparr>)
           g1)"

definition merge_warning :: "git_repository \<Rightarrow> ref_ptr \<Rightarrow> nat \<Rightarrow> severity \<times> string" where
  "merge_warning g src_ref src_rev =
     (LogWarn, ''No commit found at or preceding the source of merge r'' @ nat_to_string src_rev
        @ '' in Git repo '' @ git_dir g @ '' ref '' @ ref.name (refs g src_ref))"

definition merge_line :: "nat \<Rightarrow> fast_import_cmd" where
  "merge_line m = FI_write (''merge :'' @ nat_to_string m @ LF)"

text \<open>The loop of \<open>write_merges\<close> over the pending merges of the current ref \<open>c\<close>.\<close>

fun write_merges_loop :: "ref_ptr \<Rightarrow> (ref_ptr \<times> nat) list \<Rightarrow> git_repository \<Rightarrow> git_repository" where
  "write_merges_loop c [] g = g"
| "write_merges_loop c ((src_ref, src_rev) # kvs) g =
     (let (merged, mr) = omap_index (merged_revisions (refs g c)) src_ref;
          g1 = update_ref c (\<lambda>r. r\<lparr>merged_revisions := mr\<rparr>) g
      in if src_rev > merged then
           (let sm = ref.marks (refs g1 src_ref);
                p = omap_upper_bound sm src_rev
            in if p = 0 then
                 write_merges_loop c kvs (g1\<lparr>git_log := git_log g1 @ [merge_warning g1 src_ref src_rev]\<rparr>)
               else
                 write_merges_loop c kvs
                   (update_ref c (\<lambda>r. r\<lparr>merged_revisions := omap_assign src_ref src_rev mr\<rparr>)
                      (g1\<lparr>fast_import := fast_import g1 @ [merge_line (snd (sm ! (p - 1)))]\<rparr>)))
         else write_merges_loop c kvs g1)"

definition write_merges :: "git_repository \<Rightarrow> failure + git_repository" where
  "write_merges g =
     (case current_ref g of
        None \<Rightarrow> Inl NullPointer
      | Some c \<Rightarrow>
          Inr (update_ref c (\<lambda>r. r\<lparr>pending_merges := []\<rparr>)
                 (write_merges_loop c (pending_merges (refs g c)) g)))"

text \<open>The loop of \<open>open_commit\<close> over the pending deletions of the current ref \<open>c\<close>.\<close>

fun delete_loop :: "ref_ptr \<Rightarrow> string list \<Rightarrow> git_repository \<Rightarrow> git_repository" where
  "delete_loop c [] g = g"
| "delete_loop c (p # ps) g =
     (let g1 = g\<lparr>fast_import := fast_import g @ [FI_filedelete p]\<rparr>
      in delete_loop c ps
           (if has_submodules g1 \<and> p = [] then update_ref c (\<lambda>r. r\<lparr>rewrite_dot_gitmodules := True\<rparr>) g1
            else g1))"

definition open_commit :: "git_repository \<Rightarrow> svn_revision \<Rightarrow> failure + (ref_ptr \<times> git_repository)" where
  "open_commit g rv =
     (case current_ref g of
        Some c \<Rightarrow> Inr (c, g)
      | None \<Rightarrow>
          if modified_refs g = [] then Inl (AssertionFailed ''!modified_refs.empty()'')
          else
            (let c = last (modified_refs g);
                 mark = last_mark g + 1;
                 g1 = update_ref c (\<lambda>r. r\<lparr>ref.marks := omap_assign (svn_revision.revnum rv) mark (ref.marks r)\<rparr>)
                        (g\<lparr>current_ref := Some c, last_mark := mark\<rparr>);
                 g2 = g1\<lparr>fast_import := fast_import g1 @
                        [FI_write (''# SVN revision '' @ nat_to_string (svn_revision.revnum rv) @ LF),
                         FI_commit (ref.name (refs g1 c)) mark (svn_revision.author rv) (epoch rv) (log_message rv)]\<rparr>
             in case write_merges g2 of
                  Inl e \<Rightarrow> Inl e
                | Inr g3 \<Rightarrow>
                    Inr (c, update_ref c (\<lambda>r. r\<lparr>pending_deletions := []\<rparr>)
                              (delete_loop c (pending_deletions (refs g3 c)) g3))))"

definition defer_close :: "git_repository \<Rightarrow> bool \<Rightarrow> bool" where
  "defer_close g discover_changes =
     (if \<not> has_submodules g then False
      else discover_changes \<or> modified_submodule_refs g \<noteq> 0)"

definition prepare_to_close_commit :: "git_repository \<Rightarrow> bool \<Rightarrow> git_repository" where
  "prepare_to_close_commit g discover_changes =
     (if defer_close g discover_changes then g
      else g\<lparr>fast_import := fast_import g @ [FI_send_ls [CHR 0x22, CHR 0x22]]\<rparr>)"

text \<open>
  \<open>close_commit\<close> on the repository at \<open>this\<close> of the store \<open>H\<close>; \<open>response\<close> is the
  line \<open>readline()\<close> returns. The result is the returned flag and the new store: the
  super-module, another object of the store, has its counter decremented.
\<close>

definition close_commit ::
  "(repo_ptr \<Rightarrow> git_repository) \<Rightarrow> repo_ptr \<Rightarrow> bool \<Rightarrow> string
     \<Rightarrow> failure + (bool \<times> (repo_ptr \<Rightarrow> git_repository))" where
  "close_commit H this discover_changes response =
     (let g = H this in
      if defer_close g discover_changes then Inr (False, H)
      else case current_ref g of
        None \<Rightarrow> Inl NullPointer
      | Some c \<Rightarrow>
         (let r = refs g c;
              closing =
                (if length response < 41 then
                   Inr (update_ref c (\<lambda>r. r\<lparr>head_tree_sha := []\<rparr>)
                          (g\<lparr>git_log := git_log g @
                             [(LogError, ''Unrecognized response '' @ [CHR 0x22] @ response @ [CHR 0x22]
                                 @ '' from ls in ref '' @ ref.name r)]\<rparr>))
                 else if last response \<noteq> TAB then Inl (AssertionFailed ''response.back() == TAB'')
                 else
                   (let new_sha = substr response (length response - 41) (length response - 1) in
                    if new_sha = head_tree_sha r then
                      (if \<not> length (ref.marks r) \<ge> 2
                       then Inl (AssertionFailed ''current_ref->marks.size() >= 2'')
                       else
                         (let ms = butlast (ref.marks r) in
                          Inr (update_ref c (\<lambda>r. r\<lparr>ref.marks := ms, head_tree_sha := new_sha\<rparr>)
                                 (g\<lparr>fast_import := fast_import g @ [FI_reset (ref.name r) (snd (last ms))]\<rparr>))))
                    else Inr (update_ref c (\<lambda>r. r\<lparr>head_tree_sha := new_sha\<rparr>) g)))
          in case closing of
               Inl e \<Rightarrow> Inl e
             | Inr g1 \<Rightarrow>
                (let g2 = g1\<lparr>modified_refs := removeAll c (modified_refs g1), current_ref := None\<rparr>;
                     H1 = H(this := g2);
                     H2 = (case super_module g2 of
                             None \<Rightarrow> H1
                           | Some s \<Rightarrow> H1(s := (H1 s)\<lparr>modified_submodule_refs := modified_submodule_refs (H1 s) - 1\<rparr>))
                 in Inr (modified_refs g2 = [], H2))))"

subsection \<open>What the merge loop amounts to\<close>

text \<open>
  The entry of a marks map with the highest revision that is at most \<open>r\<close>, found by
  looking at every entry.
\<close>

fun highest_upto :: "(nat \<times> nat) list \<Rightarrow> nat \<Rightarrow> (nat \<times> nat) option" where
  "highest_upto [] r = None"
| "highest_upto (e # m) r =
     (case highest_upto m r of
        None \<Rightarrow> (if fst e \<le> r then Some e else None)
      | Some e' \<Rightarrow> (if fst e \<le> r \<and> fst e' < fst e then Some e else Some e'))"

text \<open>
  The loop of \<open>write_merges\<close> as a function of what it reads: the marks of every ref
  (\<open>ms\<close>), the pending merges and the merged revisions of the current ref. It returns
  the new merged revisions, the lines written and the warnings logged.
\<close>

fun merges_result ::
  "(ref_ptr \<Rightarrow> (nat \<times> nat) list) \<Rightarrow> (ref_ptr \<Rightarrow> nat \<Rightarrow> severity \<times> string)
     \<Rightarrow> (ref_ptr \<times> nat) list \<Rightarrow> (nat \<times> nat) list
     \<Rightarrow> (nat \<times> nat) list \<times> fast_import_cmd list \<times> (severity \<times> string) list" where
  "merges_result ms warn [] mr = (mr, [], [])"
| "merges_result ms warn ((s, r) # kvs) mr =
     (let (merged, mr1) = omap_index mr s in
      if r > merged then
        (let p = omap_upper_bound (ms s) r in
         if p = 0 then
           (let (M, F, L) = merges_result ms warn kvs mr1 in (M, F, warn s r # L))
         else
           (let (M, F, L) = merges_result ms warn kvs (omap_assign s r mr1)
            in (M, merge_line (snd (ms s ! (p - 1))) # F, L)))
      else merges_result ms warn kvs mr1)"

text \<open>
  A pending merge \<open>(src_ref, src_rev)\<close> is due when \<open>src_rev\<close> is greater than the
  revision already merged from \<open>src_ref\<close>; it is found when the source ref has a commit
  at or before \<open>src_rev\<close>, and missing otherwise.
\<close>

definition merge_found ::
  "(nat \<times> nat) list \<Rightarrow> (ref_ptr \<Rightarrow> (nat \<times> nat) list) \<Rightarrow> ref_ptr \<times> nat \<Rightarrow> bool" where
  "merge_found mr ms kv =
     (snd kv > omap_value mr (fst kv) \<and> highest_upto (ms (fst kv)) (snd kv) \<noteq> None)"

definition merge_missing ::
  "(nat \<times> nat) list \<Rightarrow> (ref_ptr \<Rightarrow> (nat \<times> nat) list) \<Rightarrow> ref_ptr \<times> nat \<Rightarrow> bool" where
  "merge_missing mr ms kv =
     (snd kv > omap_value mr (fst kv) \<and> highest_upto (ms (fst kv)) (snd kv) = None)"

definition merged_after ::
  "(nat \<times> nat) list \<Rightarrow> (ref_ptr \<Rightarrow> (nat \<times> nat) list) \<Rightarrow> (ref_ptr \<times> nat) list \<Rightarrow> ref_ptr \<Rightarrow> nat" where
  "merged_after mr ms kvs k =
     (case map_of kvs k of
        None \<Rightarrow> omap_value mr k
      | Some r \<Rightarrow> if merge_found mr ms (k, r) then r else omap_value mr k)"

text \<open>
  The marks of every ref while \<open>open_commit\<close> writes the merges of \<open>dst\<close>: the new
  commit of \<open>dst\<close> is already recorded.
\<close>

definition marks_when_open ::
  "git_repository \<Rightarrow> svn_revision \<Rightarrow> ref_ptr \<Rightarrow> ref_ptr \<Rightarrow> (nat \<times> nat) list" where
  "marks_when_open g rv dst s =
     (if s = dst then omap_assign (svn_revision.revnum rv) (last_mark g + 1) (ref.marks (refs g dst))
      else ref.marks (refs g s))"

section \<open>repository.cpp\<close>

subsection \<open>Helpers\<close>

definition and_then :: "failure + 'a \<Rightarrow> ('a \<Rightarrow> failure + 'b) \<Rightarrow> failure + 'b" where
  "and_then m f = (case m of Inl e \<Rightarrow> Inl e | Inr x \<Rightarrow> f x)"

text \<open>
  The marks are C++ \<open>int\<close>s, here integers. Where a sum can leave the range of an
  \<open>int\<close> of 32 bits the compiled code wraps around: \<open>int32\<close> gives the value it holds.
\<close>

definition int32 :: "int \<Rightarrow> int" where
  "int32 x = (x + 2 ^ 31) mod 2 ^ 32 - 2 ^ 31"

definition maxMark :: int where
  "maxMark = 2 ^ 20 - 2"

fun nat_to_oct :: "nat \<Rightarrow> string" where
  "nat_to_oct n =
     (if n < 8 then [digit_char n]
      else nat_to_oct (n div 8) @ [digit_char (n mod 8)])"

declare nat_to_oct.simps [simp del]

text \<open>\<open>s.find(p) != npos\<close>.\<close>

fun contains_str :: "string \<Rightarrow> string \<Rightarrow> bool" where
  "contains_str [] p = (p = [])"
| "contains_str (c # cs) p = (starts_with (c # cs) p \<or> contains_str cs p)"

text \<open>
  \<open>qUpperBound\<close> of QtAlgorithms, on a vector of \<open>int\<close>: a binary search between
  \<open>start\<close> (the iterator \<open>begin\<close>) and \<open>start + n\<close>, which halves \<open>n\<close> and looks at the element in the middle.
  The positions it reads are below \<open>start + n\<close>, so within the vector.
\<close>

function qUpperBound_loop :: "int list \<Rightarrow> int \<Rightarrow> nat \<Rightarrow> nat \<Rightarrow> nat" where
  "qUpperBound_loop xs v start n =
     (if n = 0 then start
      else
        (let half = n div 2;
             middle = start + half
         in if v < xs ! middle then qUpperBound_loop xs v start half
            else qUpperBound_loop xs v (middle + 1) (n - (half + 1))))"
  by pat_completeness auto
termination
  by (relation "measure (\<lambda>(xs, v, start, n). n)") auto

declare qUpperBound_loop.simps [simp del]

definition qUpperBound :: "int list \<Rightarrow> int \<Rightarrow> nat" where
  "qUpperBound xs v = qUpperBound_loop xs v 0 (length xs)"

text \<open>
  A \<open>QHash\<close> is the list of its entries without duplicate keys, a new key going to the
  end (the order a \<open>QHash\<close> iterates in is not specified). \<open>AList.update\<close> assigns,
  \<open>AList.delete\<close> removes. \<open>str_value\<close> is \<open>value(k)\<close> of a table of strings.
\<close>

definition str_value :: "(string \<times> string) list \<Rightarrow> string \<Rightarrow> string" where
  "str_value m k = (case map_of m k of Some v \<Rightarrow> v | None \<Rightarrow> [])"

definition qh_contains :: "(string \<times> 'v) list \<Rightarrow> string \<Rightarrow> bool" where
  "qh_contains m k = (map_of m k \<noteq> None)"

subsection \<open>Data\<close>

record BranchRule =
  min_rev :: nat
  max_rev :: nat
  svn_path :: string
  git_branch_or_tag_name :: string
  line :: int
  git_ref_qualifier :: string

definition git_ref_name :: "BranchRule \<Rightarrow> string" where
  "git_ref_name b = git_ref_qualifier b @ git_branch_or_tag_name b"

record Branch =
  lastChangeRev :: int
  commits :: "int list"
  marks :: "int list"
  branch_note :: string
  submodules :: "(string \<times> repo_ptr) list"
  lastSubmoduleListChangeRev :: int

text \<open>
  repository.h, which declares \<open>Branch\<close>, is not among the sources. What it fixes and
  the code here uses is taken as a parameter: the constant \<open>Branch::neverChanged\<close>, the
  member function \<open>exists()\<close>, and the two revision fields of a default-constructed
  \<open>Branch\<close> (its vectors, strings and maps are empty).
\<close>

record Branch_h =
  neverChanged :: int
  exists :: "Branch \<Rightarrow> bool"
  initialChangeRev :: int
  initialSubmoduleListChangeRev :: int

definition new_Branch :: "Branch_h \<Rightarrow> Branch" where
  "new_Branch h = \<lparr>lastChangeRev = initialChangeRev h, commits = [], marks = [], branch_note = [],
     submodules = [], lastSubmoduleListChangeRev = initialSubmoduleListChangeRev h\<rparr>"

text \<open>\<open>branches.value(k)\<close>, and the table after the access \<open>branches[k]\<close>.\<close>

definition branch_value :: "Branch_h \<Rightarrow> (string \<times> Branch) list \<Rightarrow> string \<Rightarrow> Branch" where
  "branch_value h bs k = (case map_of bs k of Some b \<Rightarrow> b | None \<Rightarrow> new_Branch h)"

definition branch_access :: "Branch_h \<Rightarrow> string \<Rightarrow> (string \<times> Branch) list \<Rightarrow> (string \<times> Branch) list" where
  "branch_access h k bs = AList.update k (branch_value h bs k) bs"

record Transaction =
  branch :: string
  svnprefix :: string
  author :: string
  log :: string
  datetime :: nat
  revnum :: int
  merges :: "int list"
  deletedFiles :: "string list"
  modifiedFiles :: string

definition new_Transaction :: Transaction where
  "new_Transaction = \<lparr>branch = [], svnprefix = [], author = [], log = [], datetime = 0, revnum = 0,
     merges = [], deletedFiles = [], modifiedFiles = []\<rparr>"

record Options =
  dry_run :: bool
  add_metadata :: bool
  add_metadata_notes :: bool
  commit_interval :: int

text \<open>
  A repository: \<open>transactions\<close> is a \<open>std::map\<close>, \<open>fastImport\<close> lists what was written
  to the fast-import process, one string per call, \<open>fastImport_running\<close> says whether
  the process runs, \<open>warnings\<close> lists what \<open>Log::warn\<close> received. The process cache,
  which closes the processes of other repositories, the files and the waiting for the
  process are left out.
\<close>

record Repository =
  name :: string
  prefix :: string
  submodule_in_repo :: "repo_ptr option"
  submodule_path :: string
  branches :: "(string \<times> Branch) list"
  transactions :: "(string \<times> Transaction) list"
  deletedBranches :: "(string \<times> string) list"
  resetBranches :: "(string \<times> string) list"
  commitCount :: int
  last_commit_mark :: int
  next_file_mark :: int
  processHasStarted :: bool
  incremental :: bool
  fastImport_running :: bool
  fastImport :: "string list"
  warnings :: "string list"

definition branchExists :: "Repository \<Rightarrow> string \<Rightarrow> bool" where
  "branchExists r b = qh_contains (branches r) b"

definition fi_write :: "string \<Rightarrow> Repository \<Rightarrow> Repository" where
  "fi_write s r = r\<lparr>fastImport := fastImport r @ [s]\<rparr>"

definition log_warn :: "string \<Rightarrow> Repository \<Rightarrow> Repository" where
  "log_warn s r = r\<lparr>warnings := warnings r @ [s]\<rparr>"

text \<open>
  The constructor, from the fields of the rule it reads: the name, the ref names of the
  rule's branches, the super-module and the path in it.
\<close>

definition Repository_init ::
  "Branch_h \<Rightarrow> string \<Rightarrow> string list \<Rightarrow> repo_ptr option \<Rightarrow> string \<Rightarrow> bool \<Rightarrow> Repository" where
  "Repository_init h rule_name rule_branches super path incr =
     \<lparr>name = rule_name, prefix = [], submodule_in_repo = super, submodule_path = path,
      branches =
        (let bs = fold (\<lambda>b bs. AList.update b ((branch_value h bs b)\<lparr>lastChangeRev := neverChanged h\<rparr>) bs)
                    rule_branches []
         in AList.update ''refs/heads/master'' ((branch_value h bs ''refs/heads/master'')\<lparr>lastChangeRev := 1\<rparr>) bs),
      transactions = [], deletedBranches = [], resetBranches = [], commitCount = 0,
      last_commit_mark = 0, next_file_mark = maxMark, processHasStarted = False,
      incremental = incr, fastImport_running = False, fastImport = [], warnings = []\<rparr>"

subsection \<open>The fast-import process\<close>

text \<open>The loop of \<open>reloadBranches\<close>: what is written, and whether a branch was reloaded.\<close>

fun reloadBranches_loop :: "Branch_h \<Rightarrow> (string \<times> Branch) list \<Rightarrow> string list \<Rightarrow> failure + (string list \<times> bool)" where
  "reloadBranches_loop h bs [] = Inr ([], False)"
| "reloadBranches_loop h bs (b_name # ks) =
     (if \<not> starts_with b_name ''refs/'' then Inl (AssertionFailed ''boost::starts_with(branch, refs/)'')
      else
        (let br = branch_value h bs b_name in
         if marks br = [] \<or> last (marks br) = 0 then reloadBranches_loop h bs ks
         else and_then (reloadBranches_loop h bs ks)
           (\<lambda>(ws, _). Inr ((''reset '' @ b_name @ LF @ ''from :'' @ to_string (last (marks br)) @ LF @ LF
                              @ ''progress Branch '' @ b_name @ '' reloaded'' @ LF) # ws, True))))"

definition reloadBranches :: "Branch_h \<Rightarrow> Options \<Rightarrow> Repository \<Rightarrow> failure + Repository" where
  "reloadBranches h opts r =
     and_then (reloadBranches_loop h (branches r) (map fst (branches r)))
       (\<lambda>(ws, reset_notes).
          let r1 = r\<lparr>fastImport := fastImport r @ ws\<rparr> in
          Inr (if reset_notes \<and> add_metadata_notes opts
               then fi_write (''reset refs/notes/commits'' @ LF @ ''from :'' @ to_string (maxMark + 1) @ LF) r1
               else r1))"

definition startFastImport :: "Branch_h \<Rightarrow> Options \<Rightarrow> Repository \<Rightarrow> failure + Repository" where
  "startFastImport h opts r =
     (if fastImport_running r then Inr r
      else if processHasStarted r then Inl (Fatal ''git-fast-import has been started once and crashed?'')
      else reloadBranches h opts (r\<lparr>processHasStarted := True, fastImport_running := True\<rparr>))"

definition closeFastImport :: "Repository \<Rightarrow> Repository" where
  "closeFastImport r =
     (if fastImport_running r then fi_write (''checkpoint'' @ LF) r else r)
       \<lparr>fastImport_running := False, processHasStarted := False\<rparr>"

subsection \<open>Transactions\<close>

definition demandTransaction ::
  "Branch_h \<Rightarrow> Options \<Rightarrow> Repository \<Rightarrow> string \<Rightarrow> string \<Rightarrow> int \<Rightarrow> failure + Repository" where
  "demandTransaction h opts r br svnpfx rn =
     (if map_of (transactions r) br \<noteq> None then Inr r
      else if \<not> starts_with br ''refs/'' then Inl (AssertionFailed ''boost::starts_with(branch, refs/)'')
      else
        (let txn = new_Transaction\<lparr>branch := br, svnprefix := svnpfx, datetime := 0, revnum := rn\<rparr>;
             r1 = r\<lparr>transactions := omap_assign br txn (transactions r), commitCount := commitCount r + 1\<rparr>
         in if commit_interval opts = 0 then Inl DivideByZero
            else if commitCount r1 smod commit_interval opts = 0
            then and_then (startFastImport h opts r1) (\<lambda>r2. Inr (fi_write (''checkpoint'' @ LF) r2))
            else Inr r1))"

text \<open>
  A condition under which \<open>demandTransaction\<close> returns: the ref has a transaction, or
  its name starts with \<open>refs/\<close>, the commit interval is not zero, and no checkpoint
  is due or the process runs.
\<close>

definition can_demand :: "Options \<Rightarrow> Repository \<Rightarrow> string \<Rightarrow> bool" where
  "can_demand opts r br =
     (map_of (transactions r) br \<noteq> None
      \<or> (starts_with br ''refs/'' \<and> commit_interval opts \<noteq> 0
         \<and> ((commitCount r + 1) smod commit_interval opts \<noteq> 0 \<or> fastImport_running r)))"

text \<open>
  A \<open>Transaction*\<close> is the key of the transaction in the repository's map; a key the
  map does not hold is a dangling pointer.
\<close>

definition with_txn ::
  "Repository \<Rightarrow> string \<Rightarrow> (Transaction \<Rightarrow> failure + 'a) \<Rightarrow> failure + 'a" where
  "with_txn r key f = (case map_of (transactions r) key of None \<Rightarrow> Inl NullPointer | Some t \<Rightarrow> f t)"

definition set_txn :: "string \<Rightarrow> Transaction \<Rightarrow> Repository \<Rightarrow> Repository" where
  "set_txn key t r = r\<lparr>transactions := omap_assign key t (transactions r)\<rparr>"

definition Transaction_deleteFile :: "Repository \<Rightarrow> string \<Rightarrow> string \<Rightarrow> failure + Repository" where
  "Transaction_deleteFile r key path =
     with_txn r key (\<lambda>t.
       let p = prefix r @ path;
           pathNoSlash = (if ends_with p ''/'' then butlast p else p)
       in Inr (set_txn key (t\<lparr>deletedFiles := deletedFiles t @ [pathNoSlash]\<rparr>) r))"

text \<open>
  \<open>addFile\<close> returns the device to write the blob to; the model returns the mark it
  allocated, the value of its local \<open>mark\<close>, with the new state. The sum in its
  assertion wraps around at the largest \<open>int\<close>.
\<close>

definition Transaction_addFile ::
  "Branch_h \<Rightarrow> Options \<Rightarrow> Repository \<Rightarrow> string \<Rightarrow> string \<Rightarrow> nat \<Rightarrow> int \<Rightarrow> failure + (int \<times> Repository)" where
  "Transaction_addFile h opts r key path mode len =
     with_txn r key (\<lambda>t.
       let mark = next_file_mark r;
           r1 = r\<lparr>next_file_mark := next_file_mark r - 1\<rparr>
       in if \<not> mark > int32 (last_commit_mark r1 + 1)
          then Inl (AssertionFailed ''mark > repository->last_commit_mark + 1'')
          else if prefix r1 @ path = []
          then Inl (AssertionFailed ''!(repository->prefix + path).empty()'')
          else
            (let t1 = t\<lparr>modifiedFiles := modifiedFiles t @ ''M '' @ nat_to_oct mode @ '' :''
                          @ to_string mark @ '' '' @ prefix r1 @ path @ LF\<rparr>;
                 r2 = set_txn key t1 r1
             in if \<not> dry_run opts then
                  and_then (startFastImport h opts r2)
                    (\<lambda>r3. Inr (mark, r3\<lparr>fastImport := fastImport r3 @
                        [''blob'' @ LF @ ''mark :'', to_string mark, LF @ ''data '', to_string len, LF]\<rparr>))
                else Inr (mark, r2)))"

definition Transaction_updateSubmodule :: "Repository \<Rightarrow> string \<Rightarrow> string \<Rightarrow> int \<Rightarrow> failure + Repository" where
  "Transaction_updateSubmodule r key sub_path submoduleMark =
     with_txn r key (\<lambda>t.
       let digits = to_string submoduleMark;
           fake_sha = replicate (40 - length digits) CHR ''0'' @ digits
       in Inr (set_txn key
                 (t\<lparr>modifiedFiles := modifiedFiles t @ ''M 160000 '' @ fake_sha @ '' '' @ sub_path @ LF\<rparr>) r))"

subsection \<open>Marks of earlier commits\<close>

definition markFrom ::
  "Branch_h \<Rightarrow> Repository \<Rightarrow> string \<Rightarrow> int \<Rightarrow> string \<Rightarrow> failure + (int \<times> string \<times> Repository)" where
  "markFrom h r branchFrom branchRevNum branchFromDesc =
     (if \<not> starts_with branchFrom ''refs/'' then Inl (AssertionFailed ''boost::starts_with(branchFrom, refs/)'')
      else
        (let r1 = r\<lparr>branches := branch_access h branchFrom (branches r)\<rparr>;
             brFrom = branch_value h (branches r1) branchFrom
         in if lastChangeRev brFrom = neverChanged h then Inr (- 1, branchFromDesc, r1)
            else if commits brFrom = [] then Inr (- 1, branchFromDesc, r1)
            else if branchRevNum = last (commits brFrom) then
              (if marks brFrom = [] then Inl (AssertionFailed ''!isEmpty()'')
               else Inr (last (marks brFrom), branchFromDesc, r1))
            else
              (let it = qUpperBound (commits brFrom) branchRevNum in
               if it = 0 then
                 Inr (0, branchFromDesc,
                      log_warn (''No mark found for r'' @ to_string branchRevNum @ '' of branch '' @ branchFrom
                                  @ '' in repository '' @ name r1) r1)
               else
                 (let closestCommit = commits brFrom ! (it - 1);
                      desc = (if branchFromDesc \<noteq> [] then
                                branchFromDesc @ '' at r'' @ to_string branchRevNum @
                                  (if closestCommit \<noteq> branchRevNum then '' => r'' @ to_string closestCommit else [])
                              else branchFromDesc)
                  in if \<not> it - 1 < length (marks brFrom) then Inl (AssertionFailed ''index out of range'')
                     else Inr (marks brFrom ! (it - 1), desc, r1)))))"

definition Transaction_noteCopyFromBranch ::
  "Branch_h \<Rightarrow> Repository \<Rightarrow> string \<Rightarrow> string \<Rightarrow> int \<Rightarrow> failure + Repository" where
  "Transaction_noteCopyFromBranch h r key branchFrom branchRevNum =
     with_txn r key (\<lambda>t.
       if \<not> starts_with branchFrom ''refs/'' then Inl (AssertionFailed ''boost::starts_with(branchFrom, refs/)'')
       else if branch t = branchFrom then
         Inr (log_warn (''Cannot merge inside a branch in repository '' @ name r) r)
       else
         and_then (markFrom h r branchFrom branchRevNum [])
           (\<lambda>(mark, dummy, r1).
              if dummy \<noteq> [] then Inl (AssertionFailed ''dummy.empty()'')
              else if mark = - 1 then
                Inr (log_warn (branch t @ '' is copying from branch '' @ branchFrom
                       @ '' but the latter doesn't exist. Continuing, assuming the files exist''
                       @ '' in repository '' @ name r1) r1)
              else if mark = 0 then
                Inr (log_warn (''Unknown revision r'' @ to_string branchRevNum
                       @ ''. Continuing, assuming the files exist'' @ '' in repository '' @ name r1) r1)
              else if mark \<notin> set (merges t) then Inr (set_txn key (t\<lparr>merges := merges t @ [mark]\<rparr>) r1)
              else Inr r1))"

subsection \<open>Committing a transaction\<close>

definition formatMetadataMessage :: "string \<Rightarrow> int \<Rightarrow> string \<Rightarrow> string" where
  "formatMetadataMessage svnpfx rn tag =
     ''svn path='' @ svnpfx @ ''; revision='' @ to_string rn
       @ (if tag \<noteq> [] then ''; tag='' @ tag else []) @ LF"

text \<open>\<open>s.c_str()\<close> read back as a string: it ends at the first zero byte.\<close>

definition c_str :: "string \<Rightarrow> string" where
  "c_str s = takeWhile (\<lambda>c. c \<noteq> CHR 0x00) s"

definition note_commit :: "Transaction \<Rightarrow> string \<Rightarrow> string \<Rightarrow> string \<Rightarrow> string" where
  "note_commit t message commitRef note_text =
     ''commit refs/notes/commits'' @ LF
     @ ''mark :'' @ to_string (maxMark + 1) @ LF
     @ ''committer '' @ author t @ '' '' @ nat_to_string (datetime t) @ '' +0000'' @ LF
     @ ''data '' @ nat_to_string (length message) @ LF
     @ message @ LF
     @ ''N inline '' @ commitRef @ LF
     @ ''data '' @ nat_to_string (length note_text) @ LF
     @ note_text @ LF"

definition Transaction_commitNote ::
  "Branch_h \<Rightarrow> Repository \<Rightarrow> string \<Rightarrow> string \<Rightarrow> bool \<Rightarrow> string \<Rightarrow> failure + Repository" where
  "Transaction_commitNote h r key noteText appnd commit_arg =
     with_txn r key (\<lambda>t.
       if \<not> starts_with (branch t) ''refs/'' then Inl (AssertionFailed ''boost::starts_with(branch, refs/)'')
       else
         (let commitRef = (if commit_arg = [] then branch t else commit_arg);
              appending = (appnd \<and> commit_arg = [] \<and> qh_contains (branches r) (branch t)
                             \<and> branch_note (branch_value h (branches r) (branch t)) \<noteq> []);
              note_text = (if appending then branch_note (branch_value h (branches r) (branch t)) @ noteText
                           else noteText);
              message = (if appending then ''Appending Git note for current '' @ commitRef @ LF
                         else ''Adding Git note for current '' @ commitRef @ LF);
              r1 = fi_write (note_commit t message commitRef note_text) r
          in Inr (if commit_arg = [] \<and> qh_contains (branches r1) (branch t)
                  then r1\<lparr>branches := AList.update (branch t)
                              ((branch_value h (branches r1) (branch t))\<lparr>branch_note := note_text\<rparr>) (branches r1)\<rparr>
                  else r1)))"

text \<open>
  The loop over the recorded merge marks: the lines written, the description for the
  progress line and the warnings. \<open>i\<close> counts the parents so far.
\<close>

fun merge_loop :: "int \<Rightarrow> string \<Rightarrow> int list \<Rightarrow> nat \<Rightarrow> string list \<times> string \<times> string list" where
  "merge_loop parentmark nm [] i = ([], [], [])"
| "merge_loop parentmark nm (mg # ms) i =
     (if mg = parentmark then merge_loop parentmark nm ms i
      else if i + 1 > 16 then ([], [], [''too many merge parents in repository '' @ nm])
      else
        (let m = '' :'' @ to_string mg;
             (ls, desc, ws) = merge_loop parentmark nm ms (i + 1)
         in ((''merge'' @ m @ LF) # ls, m @ desc, ws)))"

definition cvs2svn_marker :: string where
  "cvs2svn_marker = ''This commit was manufactured by cvs2svn''"

text \<open>
  What \<open>Transaction::commit\<close> does with the recorded merges of \<open>t\<close>: the merges left
  in the transaction, the lines written, the description and the warnings.
\<close>

definition write_merge_parents ::
  "string \<Rightarrow> int \<Rightarrow> Transaction \<Rightarrow> int list \<times> string list \<times> string \<times> string list" where
  "write_merge_parents nm parentmark t =
     (let i = (if parentmark \<noteq> 0 then 1 else 0) in
      if contains_str (log t) cvs2svn_marker \<and> length (merges t) > 1 then
        (let sorted_merges = sort (merges t)
         in (butlast sorted_merges, [''merge :'' @ to_string (last sorted_merges) @ LF], [], []))
      else
        (let (ls, desc, ws) = merge_loop parentmark nm (merges t) i in (merges t, ls, desc, ws)))"

text \<open>The pieces \<open>Transaction::commit\<close> writes, and the parent it counts.\<close>

definition parent_mark :: "Branch_h \<Rightarrow> Branch \<Rightarrow> int" where
  "parent_mark h br = (if exists h br then last (marks br) else 0)"

definition commit_message :: "Options \<Rightarrow> Transaction \<Rightarrow> string" where
  "commit_message opts t =
     (let message = (if ends_with (log t) LF then log t else log t @ LF)
      in if add_metadata opts
         then message @ LF @ formatMetadataMessage (svnprefix t) (revnum t) []
         else message)"

definition commit_header :: "Transaction \<Rightarrow> int \<Rightarrow> string \<Rightarrow> string" where
  "commit_header t mark message =
     ''commit '' @ branch t @ LF
     @ ''mark :'' @ to_string mark @ LF
     @ ''committer '' @ author t @ '' '' @ nat_to_string (datetime t) @ '' +0000'' @ LF
     @ ''data '' @ nat_to_string (length message) @ LF
     @ c_str message @ LF"

definition deletion_lines :: "Transaction \<Rightarrow> string list" where
  "deletion_lines t =
     (if [] \<in> set (deletedFiles t) then [''deleteall'' @ LF]
      else map (\<lambda>df. ''D '' @ df @ LF) (deletedFiles t))"

definition progress_line :: "Transaction \<Rightarrow> int \<Rightarrow> string \<Rightarrow> string" where
  "progress_line t mark desc =
     LF @ ''progress SVN r'' @ to_string (revnum t)
     @ '' branch '' @ branch t @ '' = :'' @ to_string mark
     @ (if desc = [] then [] else '' # merge from'') @ desc @ LF @ LF"

definition resume_warning :: "Repository \<Rightarrow> Transaction \<Rightarrow> string" where
  "resume_warning r t =
     ''Branch '' @ branch t @ '' in repository '' @ name r
     @ '' doesn't exist at revision '' @ to_string (revnum t)
     @ '' -- did you resume from the wrong revision?''"

text \<open>
  \<open>Transaction::commit\<close>. The model returns the commit mark it allocated, the value of
  its local \<open>mark\<close>, with the new state.
\<close>

definition Transaction_commit ::
  "Branch_h \<Rightarrow> Options \<Rightarrow> Repository \<Rightarrow> string \<Rightarrow> failure + (int \<times> Repository)" where
  "Transaction_commit h opts r key =
     with_txn r key (\<lambda>t.
       and_then (startFastImport h opts r) (\<lambda>r1.
         let mark = last_commit_mark r1 + 1;
             r2 = r1\<lparr>last_commit_mark := mark\<rparr>
         in if \<not> mark < next_file_mark r2 - 1
            then Inl (AssertionFailed ''mark < repository->next_file_mark - 1'')
            else
              (let message = commit_message opts t;
                   bs = branch_access h (branch t) (branches r2);
                   br = branch_value h bs (branch t)
               in if exists h br \<and> marks br = [] then Inl (AssertionFailed ''!isEmpty()'')
                  else
                    (let parentmark = parent_mark h br;
                         r3 = (if \<not> exists h br \<and> incremental r2 then log_warn (resume_warning r2 t) r2 else r2);
                         br' = br\<lparr>lastChangeRev := revnum t, commits := commits br @ [revnum t],
                                  marks := marks br @ [mark]\<rparr>;
                         r4 = r3\<lparr>branches := AList.update (branch t) br' bs\<rparr>
                     in if \<not> starts_with (branch t) ''refs/''
                        then Inl (AssertionFailed ''boost::starts_with(branch, refs/)'')
                        else
                          (let (merges_left, merge_lines, desc, ws) = write_merge_parents (name r4) parentmark t;
                               r5 = set_txn key (t\<lparr>merges := merges_left\<rparr>)
                                      (r4\<lparr>fastImport := fastImport r4 @ [commit_header t mark message]
                                              @ merge_lines @ deletion_lines t
                                              @ [modifiedFiles t, progress_line t mark desc],
                                           warnings := warnings r4 @ ws\<rparr>)
                           in if add_metadata_notes opts
                              then and_then (Transaction_commitNote h r5 key
                                     (formatMetadataMessage (svnprefix t) (revnum t) []) False [])
                                     (\<lambda>r6. Inr (mark, r6))
                              else Inr (mark, r5))))))"

text \<open>The loop of \<open>Repository::commit\<close> over the transactions; it collects the marks.\<close>

fun commit_loop ::
  "Branch_h \<Rightarrow> Options \<Rightarrow> string \<Rightarrow> nat \<Rightarrow> string \<Rightarrow> string list \<Rightarrow> Repository
     \<Rightarrow> failure + (int list \<times> Repository)" where
  "commit_loop h opts a e l [] r = Inr ([], r)"
| "commit_loop h opts a e l (key # ks) r =
     and_then (with_txn r key (\<lambda>t. Inr (set_txn key (t\<lparr>author := a, datetime := e, log := l\<rparr>) r)))
       (\<lambda>r1. and_then (Transaction_commit h opts r1 key)
          (\<lambda>(mark, r2). and_then (commit_loop h opts a e l ks r2)
             (\<lambda>(ms, r3). Inr (mark # ms, r3))))"

definition Repository_commit ::
  "Branch_h \<Rightarrow> Options \<Rightarrow> Repository \<Rightarrow> string \<Rightarrow> nat \<Rightarrow> string \<Rightarrow> failure + (int list \<times> Repository)" where
  "Repository_commit h opts r a e l =
     and_then (commit_loop h opts a e l (map fst (transactions r)) r)
       (\<lambda>(ms, r1). Inr (ms, r1\<lparr>transactions := [], next_file_mark := maxMark\<rparr>))"

subsection \<open>Submodules, branches and the end of a revision\<close>

text \<open>
  The repositories are objects of a store \<open>H\<close>, addressed by pointers. A function that
  reaches another repository takes the store and the address \<open>this\<close>.
\<close>

type_synonym store = "repo_ptr \<Rightarrow> Repository"

definition submoduleChanged ::
  "Branch_h \<Rightarrow> Options \<Rightarrow> store \<Rightarrow> repo_ptr \<Rightarrow> repo_ptr \<Rightarrow> BranchRule \<Rightarrow> int \<Rightarrow> int
     \<Rightarrow> failure + store" where
  "submoduleChanged h opts H this submodule branchRule submoduleMark rn =
     (let deletion = (submoduleMark = 0);
          sub_path = submodule_path (H submodule);
          ref_name = git_ref_name branchRule;
          r = (H this)\<lparr>branches := branch_access h ref_name (branches (H this))\<rparr>;
          b = branch_value h (branches r) ref_name
      in if deletion \<and> map_of (submodules b) sub_path = None then Inr (H(this := r))
         else
           (let subs = (if deletion then AList.delete sub_path (submodules b)
                        else omap_assign sub_path submodule (submodules b));
                r1 = r\<lparr>branches := AList.update ref_name (b\<lparr>submodules := subs\<rparr>) (branches r)\<rparr>
            in and_then (demandTransaction h opts r1 ref_name [] rn)
                 (\<lambda>r2. and_then
                    (if deletion then Transaction_deleteFile r2 ref_name sub_path
                     else Transaction_updateSubmodule r2 ref_name sub_path submoduleMark)
                    (\<lambda>r3. Inr (H(this := r3\<lparr>branches := AList.update ref_name
                                   ((branch_value h (branches r3) ref_name)\<lparr>lastSubmoduleListChangeRev := rn\<rparr>)
                                   (branches r3)\<rparr>))))))"

definition backup_cmd :: "string \<Rightarrow> int \<Rightarrow> bool \<Rightarrow> string" where
  "backup_cmd gitRefName rn deleting =
     (let backupBranch =
            (if deleting \<and> starts_with gitRefName ''refs/heads/''
             then ''refs/tags/backups/'' @ drop 11 gitRefName @ ''@'' @ to_string rn
             else ''refs/backups/r'' @ to_string rn @ drop 4 gitRefName)
      in ''reset '' @ backupBranch @ LF @ ''from '' @ gitRefName @ LF @ LF)"

definition reset_cmd :: "string \<Rightarrow> string \<Rightarrow> int \<Rightarrow> int \<Rightarrow> string \<Rightarrow> string" where
  "reset_cmd gitRefName resetTo rn mark comment =
     ''reset '' @ gitRefName @ LF @ ''from '' @ resetTo @ LF @ LF
     @ ''progress SVN r'' @ to_string rn
     @ '' branch '' @ gitRefName @ '' = :'' @ to_string mark
     @ '' # '' @ comment @ LF @ LF"

definition resetBranch ::
  "Branch_h \<Rightarrow> Options \<Rightarrow> store \<Rightarrow> repo_ptr \<Rightarrow> BranchRule \<Rightarrow> string \<Rightarrow> int \<Rightarrow> int \<Rightarrow> string \<Rightarrow> string
     \<Rightarrow> failure + store" where
  "resetBranch h opts H this branch_rule gitRefName rn mark resetTo comment =
     and_then
       (case submodule_in_repo (H this) of
          None \<Rightarrow> Inr H
        | Some super \<Rightarrow> submoduleChanged h opts H super this branch_rule mark rn)
       (\<lambda>H1.
          if \<not> starts_with gitRefName ''refs/'' then Inl (AssertionFailed ''boost::starts_with(gitRefName, refs/)'')
          else
            (let r = H1 this;
                 deleting = (mark = 0);
                 bs = branch_access h gitRefName (branches r);
                 br = branch_value h bs gitRefName;
                 backupCmd = (if exists h br \<and> lastChangeRev br \<noteq> rn
                              then backup_cmd gitRefName rn deleting else []);
                 br' = br\<lparr>lastChangeRev := rn, commits := commits br @ [rn], marks := marks br @ [mark]\<rparr>;
                 cmd = reset_cmd gitRefName resetTo rn mark comment;
                 r1 = r\<lparr>branches := AList.update gitRefName br' bs\<rparr>
             in Inr (H1(this :=
                  (if deleting then
                     (if qh_contains (resetBranches r1) gitRefName
                      then r1\<lparr>resetBranches := AList.delete gitRefName (resetBranches r1)\<rparr>
                      else r1\<lparr>deletedBranches := AList.update gitRefName
                                 (str_value (deletedBranches r1) gitRefName @ backupCmd @ cmd)
                                 (deletedBranches r1)\<rparr>)
                   else r1\<lparr>resetBranches := AList.update gitRefName
                                 (str_value (resetBranches r1) gitRefName @ backupCmd @ cmd)
                                 (resetBranches r1)\<rparr>)))))"

definition createBranch ::
  "Branch_h \<Rightarrow> Options \<Rightarrow> store \<Rightarrow> repo_ptr \<Rightarrow> BranchRule \<Rightarrow> int \<Rightarrow> string \<Rightarrow> int \<Rightarrow> failure + store" where
  "createBranch h opts H this branch_rule rn branchFrom branchRevNum =
     (let br_name = git_ref_name branch_rule in
      if \<not> starts_with br_name ''refs/'' then Inl (AssertionFailed ''boost::starts_with(branch, refs/)'')
      else if \<not> starts_with branchFrom ''refs/'' then Inl (AssertionFailed ''boost::starts_with(branchFrom, refs/)'')
      else
        and_then (markFrom h (H this) branchFrom branchRevNum (''from branch '' @ branchFrom))
          (\<lambda>(mark, branchFromDesc, r1).
             if mark = - 1 then
               Inl (RuntimeError (br_name @ '' in repository '' @ name r1
                      @ '' is branching from branch '' @ branchFrom
                      @ '' but the latter doesn't exist. Can't continue.''))
             else
               (let r2 = (if mark = 0
                          then log_warn (br_name @ '' in repository '' @ name r1
                                 @ '' is branching but no exported commits exist in repository.''
                                 @ '' creating an empty branch.'') r1
                          else r1);
                    branchFromRef = (if mark = 0 then branchFrom else '':'' @ to_string mark);
                    desc = (if mark = 0 then branchFromDesc @ '', deleted/unknown'' else branchFromDesc);
                    bs = branch_access h br_name (branches r2);
                    r3 = r2\<lparr>branches := AList.update br_name
                            ((branch_value h bs br_name)\<lparr>branch_note := branch_note (branch_value h bs branchFrom)\<rparr>) bs\<rparr>
                in resetBranch h opts (H(this := r3)) this branch_rule br_name rn mark branchFromRef desc)))"

definition deleteBranch ::
  "Branch_h \<Rightarrow> Options \<Rightarrow> store \<Rightarrow> repo_ptr \<Rightarrow> BranchRule \<Rightarrow> int \<Rightarrow> failure + store" where
  "deleteBranch h opts H this branch_rule rn =
     (let br_name = git_ref_name branch_rule in
      if \<not> starts_with br_name ''refs/'' then Inl (AssertionFailed ''boost::starts_with(branch, refs/)'')
      else if br_name = ''refs/heads/master'' then Inr H
      else resetBranch h opts H this branch_rule br_name rn 0 (replicate 40 CHR ''0'') ''delete'')"

definition gitmodules_content :: "(repo_ptr \<Rightarrow> string) \<Rightarrow> (string \<times> repo_ptr) list \<Rightarrow> string" where
  "gitmodules_content names subs =
     concat (map (\<lambda>(p, child).
        ''[submodule '' @ [CHR 0x22] @ p @ [CHR 0x22] @ '']'' @ LF
        @ [TAB] @ ''path = '' @ p @ LF
        @ [TAB] @ ''url = http://github.com/boostorg/'' @ names child @ LF) subs)"

text \<open>The file mode \<open>0100644\<close>, an octal literal.\<close>

definition gitmodules_mode :: nat where
  "gitmodules_mode = 1 * 8 ^ 5 + 6 * 8 ^ 2 + 4 * 8 + 4"

definition update_dot_gitmodules ::
  "Branch_h \<Rightarrow> Options \<Rightarrow> (repo_ptr \<Rightarrow> string) \<Rightarrow> Repository \<Rightarrow> string \<Rightarrow> Branch \<Rightarrow> int
     \<Rightarrow> failure + Repository" where
  "update_dot_gitmodules h opts names r branch_name b rn =
     and_then (demandTransaction h opts r branch_name [] rn)
       (\<lambda>r1. let content = gitmodules_content names (submodules b) in
          and_then (Transaction_addFile h opts r1 branch_name ''.gitmodules'' gitmodules_mode (int (length content)))
            (\<lambda>(mark, r2).
               Inr (if \<not> dry_run opts then r2\<lparr>fastImport := fastImport r2 @ [content, LF]\<rparr> else r2)))"

text \<open>The first loop of \<open>prepare_commit\<close>, over the names of the branches.\<close>

fun gitmodules_loop ::
  "Branch_h \<Rightarrow> Options \<Rightarrow> (repo_ptr \<Rightarrow> string) \<Rightarrow> int \<Rightarrow> string list \<Rightarrow> Repository \<Rightarrow> failure + Repository" where
  "gitmodules_loop h opts names rn [] r = Inr r"
| "gitmodules_loop h opts names rn (branch_name # ks) r =
     (let b = branch_value h (branches r) branch_name in
      if lastSubmoduleListChangeRev b = rn
      then and_then (update_dot_gitmodules h opts names r branch_name b rn) (gitmodules_loop h opts names rn ks)
      else gitmodules_loop h opts names rn ks r)"

text \<open>
  \<open>deletedBranches.values()\<close> and \<open>resetBranches.values()\<close> list the values of a
  \<open>QHash\<close> in the order of the hash, which the source does not fix: \<open>vals\<close> is that
  listing, a parameter.
\<close>

definition prepare_commit ::
  "Branch_h \<Rightarrow> Options \<Rightarrow> ((string \<times> string) list \<Rightarrow> string list) \<Rightarrow> store \<Rightarrow> repo_ptr \<Rightarrow> int
     \<Rightarrow> failure + store" where
  "prepare_commit h opts vals H this rn =
     (let r = H this in
      if deletedBranches r = [] \<and> resetBranches r = [] then Inr H
      else
        and_then (gitmodules_loop h opts (\<lambda>p. name (H p)) rn (map fst (branches r)) r)
          (\<lambda>r1. and_then (startFastImport h opts r1)
             (\<lambda>r2. Inr (H(this := r2\<lparr>fastImport := fastImport r2 @ vals (deletedBranches r2)
                                         @ vals (resetBranches r2),
                                       deletedBranches := [], resetBranches := []\<rparr>)))))"

subsection \<open>Resuming\<close>

text \<open>
  The loop of \<open>setupIncremental\<close> over the lines of the log file that match the
  \<open>progress\<close> pattern, each given by its revision, branch and mark. The result says
  whether the loop left for \<open>beyond_cutoff\<close>, and gives the cutoff and the last
  revision read.
\<close>

fun setupIncremental_loop ::
  "Branch_h \<Rightarrow> int \<Rightarrow> int \<Rightarrow> (int \<times> string \<times> int) list \<Rightarrow> int \<Rightarrow> Repository \<Rightarrow> bool \<times> int \<times> int \<times> Repository" where
  "setupIncremental_loop h cutoff last_valid_mark [] last_revnum r = (False, cutoff, last_revnum, r)"
| "setupIncremental_loop h cutoff last_valid_mark ((rn, qbranch, mark) # rest) last_revnum r =
     (if rn \<ge> cutoff then (True, cutoff, last_revnum, r)
      else
        (let r1 = (if rn < last_revnum
                   then log_warn (name r @ '' revision numbers are not monotonic: '' @ '' got ''
                          @ to_string last_revnum @ '' and then '' @ to_string rn) r
                   else r)
         in if mark > last_valid_mark then
              (True, rn, last_revnum,
               log_warn (name r1 @ '' unknown commit mark found:'' @ '' rewinding -- did you hit Ctrl-C?'') r1)
            else
              (let bs = branch_access h qbranch (branches r1);
                   br = branch_value h bs qbranch;
                   br1 = (if \<not> exists h br \<or> mark = 0 then br\<lparr>lastChangeRev := rn\<rparr> else br);
                   br2 = br1\<lparr>commits := commits br1 @ [rn], marks := marks br1 @ [mark]\<rparr>
               in setupIncremental_loop h cutoff last_valid_mark rest rn
                    (r1\<lparr>last_commit_mark := (if last_commit_mark r1 < mark then mark else last_commit_mark r1),
                        branches := AList.update qbranch br2 bs\<rparr>))))"

text \<open>
  \<open>setupIncremental\<close>: \<open>logfile\<close> is \<open>None\<close> when the log file does not exist,
  \<open>last_valid_mark\<close> is what \<open>lastValidMark\<close> reads from the marks file. The result is
  the returned revision, the new value of \<open>cutoff\<close> and the new state.
\<close>

definition setupIncremental ::
  "Branch_h \<Rightarrow> Repository \<Rightarrow> int \<Rightarrow> int \<Rightarrow> (int \<times> string \<times> int) list option \<Rightarrow> int \<times> int \<times> Repository" where
  "setupIncremental h r cutoff last_valid_mark logfile =
     (case logfile of
        None \<Rightarrow> (1, cutoff, r)
      | Some entries \<Rightarrow>
          (let (beyond, cutoff', last_revnum, r') = setupIncremental_loop h cutoff last_valid_mark entries 0 r
           in if beyond then (cutoff', cutoff', r') else (last_revnum + 1, cutoff', r')))"

subsection \<open>Runs\<close>

text \<open>
  The calls a run makes on the repositories of a store, each with the repository it is
  made on. \<open>exec\<close> makes one call and \<open>run\<close> a list of them, one after the other,
  until one fails; they give the commit marks that \<open>Transaction::commit\<close> allocated,
  each with its repository, in the order of allocation.
\<close>

datatype call =
    Call_startFastImport repo_ptr
  | Call_closeFastImport repo_ptr
  | Call_demandTransaction repo_ptr string string int
  | Call_deleteFile repo_ptr string string
  | Call_addFile repo_ptr string string nat int
  | Call_updateSubmodule repo_ptr string string int
  | Call_noteCopyFromBranch repo_ptr string string int
  | Call_commitNote repo_ptr string string bool string
  | Call_transaction_commit repo_ptr string
  | Call_commit repo_ptr string nat string
  | Call_submoduleChanged repo_ptr repo_ptr BranchRule int int
  | Call_resetBranch repo_ptr BranchRule string int int string string
  | Call_createBranch repo_ptr BranchRule int string int
  | Call_deleteBranch repo_ptr BranchRule int
  | Call_prepare_commit repo_ptr int
  | Call_setupIncremental repo_ptr int int "(int \<times> string \<times> int) list option"

fun exec ::
  "Branch_h \<Rightarrow> Options \<Rightarrow> ((string \<times> string) list \<Rightarrow> string list) \<Rightarrow> call \<Rightarrow> store
     \<Rightarrow> failure + ((repo_ptr \<times> int) list \<times> store)" where
  "exec h opts vals (Call_startFastImport p) H =
     and_then (startFastImport h opts (H p)) (\<lambda>r. Inr ([], H(p := r)))"
| "exec h opts vals (Call_closeFastImport p) H = Inr ([], H(p := closeFastImport (H p)))"
| "exec h opts vals (Call_demandTransaction p br svnpfx rn) H =
     and_then (demandTransaction h opts (H p) br svnpfx rn) (\<lambda>r. Inr ([], H(p := r)))"
| "exec h opts vals (Call_deleteFile p key path) H =
     and_then (Transaction_deleteFile (H p) key path) (\<lambda>r. Inr ([], H(p := r)))"
| "exec h opts vals (Call_addFile p key path mode len) H =
     and_then (Transaction_addFile h opts (H p) key path mode len) (\<lambda>(m, r). Inr ([], H(p := r)))"
| "exec h opts vals (Call_updateSubmodule p key sub_path m) H =
     and_then (Transaction_updateSubmodule (H p) key sub_path m) (\<lambda>r. Inr ([], H(p := r)))"
| "exec h opts vals (Call_noteCopyFromBranch p key branchFrom n) H =
     and_then (Transaction_noteCopyFromBranch h (H p) key branchFrom n) (\<lambda>r. Inr ([], H(p := r)))"
| "exec h opts vals (Call_commitNote p key noteText appnd commit_arg) H =
     and_then (Transaction_commitNote h (H p) key noteText appnd commit_arg) (\<lambda>r. Inr ([], H(p := r)))"
| "exec h opts vals (Call_transaction_commit p key) H =
     and_then (Transaction_commit h opts (H p) key) (\<lambda>(m, r). Inr ([(p, m)], H(p := r)))"
| "exec h opts vals (Call_commit p a e l) H =
     and_then (Repository_commit h opts (H p) a e l) (\<lambda>(ms, r). Inr (map (Pair p) ms, H(p := r)))"
| "exec h opts vals (Call_submoduleChanged p submodule branchRule m rn) H =
     and_then (submoduleChanged h opts H p submodule branchRule m rn) (\<lambda>H'. Inr ([], H'))"
| "exec h opts vals (Call_resetBranch p branch_rule gitRefName rn m resetTo comment) H =
     and_then (resetBranch h opts H p branch_rule gitRefName rn m resetTo comment) (\<lambda>H'. Inr ([], H'))"
| "exec h opts vals (Call_createBranch p branch_rule rn branchFrom n) H =
     and_then (createBranch h opts H p branch_rule rn branchFrom n) (\<lambda>H'. Inr ([], H'))"
| "exec h opts vals (Call_deleteBranch p branch_rule rn) H =
     and_then (deleteBranch h opts H p branch_rule rn) (\<lambda>H'. Inr ([], H'))"
| "exec h opts vals (Call_prepare_commit p rn) H =
     and_then (prepare_commit h opts vals H p rn) (\<lambda>H'. Inr ([], H'))"
| "exec h opts vals (Call_setupIncremental p cutoff last_valid_mark logfile) H =
     (let (rv, cutoff', r) = setupIncremental h (H p) cutoff last_valid_mark logfile
      in Inr ([], H(p := r)))"

fun run ::
  "Branch_h \<Rightarrow> Options \<Rightarrow> ((string \<times> string) list \<Rightarrow> string list) \<Rightarrow> call list \<Rightarrow> store
     \<Rightarrow> failure + ((repo_ptr \<times> int) list \<times> store)" where
  "run h opts vals [] H = Inr ([], H)"
| "run h opts vals (c # cs) H =
     and_then (exec h opts vals c H)
       (\<lambda>(ms, H1). and_then (run h opts vals cs H1) (\<lambda>(ms', H2). Inr (ms @ ms', H2)))"



text \<open>
  The two counters have not met: the commit marks grow from zero, the file marks fall
  from \<open>maxMark\<close>.
\<close>

definition marks_apart :: "Repository \<Rightarrow> bool" where
  "marks_apart r = (0 \<le> last_commit_mark r \<and> last_commit_mark r < next_file_mark r
                     \<and> next_file_mark r \<le> maxMark)"

text \<open>Every branch of the table has as many commits as marks.\<close>

definition lockstep :: "Branch_h \<Rightarrow> Repository \<Rightarrow> bool" where
  "lockstep h r = (\<forall>k\<in>set (map fst (branches r)).
       length (commits (branch_value h (branches r) k)) = length (marks (branch_value h (branches r) k)))"

text \<open>
  \<open>r'\<close> has the branches of \<open>r\<close> with, on each, as many commits appended as marks
  (none, for most calls); \<open>r'\<close> has the counters of \<open>r\<close>.
\<close>

definition appends :: "Branch_h \<Rightarrow> Repository \<Rightarrow> Repository \<Rightarrow> bool" where
  "appends h r r' = (\<forall>k. \<exists>cs ms.
       commits (branch_value h (branches r') k) = commits (branch_value h (branches r) k) @ cs
     \<and> marks (branch_value h (branches r') k) = marks (branch_value h (branches r) k) @ ms
     \<and> length cs = length ms)"

definition same_counters :: "Repository \<Rightarrow> Repository \<Rightarrow> bool" where
  "same_counters r r' = (last_commit_mark r' = last_commit_mark r \<and> next_file_mark r' = next_file_mark r)"

section \<open>Example states\<close>

subsection \<open>A repository with two commits on master\<close>

definition example_sha :: string where
  "example_sha = ''4b825dc642cb6eb9a060e54bf8d69288fbee4904''"

definition example_master :: ref where
  "example_master = (new_ref ''refs/heads/master'')
     \<lparr>ref.marks := [(1, 1), (3, 2)], head_tree_sha := example_sha @ [TAB]\<rparr>"

definition example_git :: git_repository where
  "example_git = \<lparr>git_dir = ''child.git'', refs = (\<lambda>_. new_ref [])(0 := example_master),
     ref_index = [(''refs/heads/master'', 0)], super_module = None, has_submodules = False,
     modified_submodule_refs = 0, last_mark = 2, current_ref = Some 0, modified_refs = [0],
     fast_import = [], git_log = []\<rparr>"

definition example_response :: string where
  "example_response = ''040000 tree '' @ example_sha @ [TAB]"

subsection \<open>Repositories with a pending merge\<close>

definition example_rev :: svn_revision where
  "example_rev = \<lparr>svn_revision.revnum = 4, svn_revision.author = ''dave'', epoch = 1370000000, log_message = ''merge''\<rparr>"

definition example_merge_git :: git_repository where
  "example_merge_git = \<lparr>git_dir = ''child.git'',
     refs = (\<lambda>_. new_ref [])(0 := example_master,
              8 := (new_ref ''refs/heads/b'')\<lparr>pending_merges := [(0, 2)]\<rparr>),
     ref_index = [(''refs/heads/master'', 0), (''refs/heads/b'', 8)], super_module = None,
     has_submodules = False, modified_submodule_refs = 0, last_mark = 2, current_ref = None,
     modified_refs = [8], fast_import = [], git_log = []\<rparr>"

definition example_missing_git :: git_repository where
  "example_missing_git = example_merge_git
     \<lparr>refs := (refs example_merge_git)(0 := example_master\<lparr>ref.marks := [(3, 2)]\<rparr>)\<rparr>"

subsection \<open>Repositories with an open transaction\<close>

definition example_h :: Branch_h where
  "example_h = \<lparr>neverChanged = 0,
     exists = (\<lambda>b. lastChangeRev b \<noteq> 0 \<and> marks b \<noteq> [] \<and> last (marks b) \<noteq> 0),
     initialChangeRev = 0, initialSubmoduleListChangeRev = 0\<rparr>"

definition example_opts :: Options where
  "example_opts = \<lparr>dry_run = False, add_metadata = False, add_metadata_notes = False,
     commit_interval = 10000\<rparr>"

definition example_master_branch :: Branch where
  "example_master_branch = \<lparr>lastChangeRev = 6, commits = [1, 2, 4, 5, 6], marks = [1, 2, 3, 4, 5],
     branch_note = [], submodules = [], lastSubmoduleListChangeRev = 0\<rparr>"

definition example_branch_b :: Branch where
  "example_branch_b = \<lparr>lastChangeRev = 7, commits = [7], marks = [5],
     branch_note = [], submodules = [], lastSubmoduleListChangeRev = 0\<rparr>"

definition example_cvs_txn :: Transaction where
  "example_cvs_txn = \<lparr>branch = ''refs/heads/b'', svnprefix = ''branches/b'',
     author = ''cvs2svn'', log = ''This commit was manufactured by cvs2svn to create branch b.'',
     datetime = 1000000000, revnum = 7, merges = [5, 3], deletedFiles = [], modifiedFiles = []\<rparr>"

definition example_cvs_repo :: Repository where
  "example_cvs_repo = \<lparr>name = ''boost'', prefix = [], submodule_in_repo = None, submodule_path = [],
     branches = [(''refs/heads/master'', example_master_branch), (''refs/heads/b'', example_branch_b)],
     transactions = [(''refs/heads/b'', example_cvs_txn)],
     deletedBranches = [], resetBranches = [], commitCount = 6, last_commit_mark = 5,
     next_file_mark = maxMark, processHasStarted = True, incremental = False,
     fastImport_running = True, fastImport = [], warnings = []\<rparr>"

definition example_plain_txn :: Transaction where
  "example_plain_txn = example_cvs_txn\<lparr>log := ''Copy files to branch b.'', merges := [5, 3, 4]\<rparr>"

definition example_plain_repo :: Repository where
  "example_plain_repo = example_cvs_repo\<lparr>transactions := [(''refs/heads/b'', example_plain_txn)]\<rparr>"

subsection \<open>A parent repository and its submodule\<close>

definition example_rule :: BranchRule where
  "example_rule = \<lparr>min_rev = 0, max_rev = 100, svn_path = ''branches/b'',
     git_branch_or_tag_name = ''b'', line = 12, git_ref_qualifier = ''refs/heads/''\<rparr>"

definition example_super :: Repository where
  "example_super = \<lparr>name = ''boost'', prefix = [], submodule_in_repo = None, submodule_path = [],
     branches = [(''refs/heads/master'', example_master_branch), (''refs/heads/b'', example_branch_b)],
     transactions = [], deletedBranches = [], resetBranches = [], commitCount = 6,
     last_commit_mark = 5, next_file_mark = maxMark, processHasStarted = True, incremental = False,
     fastImport_running = True, fastImport = [], warnings = []\<rparr>"

definition example_child :: Repository where
  "example_child = \<lparr>name = ''child'', prefix = [], submodule_in_repo = Some 0,
     submodule_path = ''libs/child'',
     branches = [(''refs/heads/master'', example_master_branch)],
     transactions = [], deletedBranches = [], resetBranches = [], commitCount = 7,
     last_commit_mark = 7, next_file_mark = maxMark, processHasStarted = True, incremental = False,
     fastImport_running = True, fastImport = [], warnings = []\<rparr>"

definition example_store :: store where
  "example_store = (\<lambda>_. example_child)(0 := example_super)"

definition example_linked_store :: store where
  "example_linked_store = example_store(0 := example_super
     \<lparr>branches := [(''refs/heads/master'', example_master_branch),
                    (''refs/heads/b'', example_branch_b\<lparr>submodules := [(''libs/child'', 8)]\<rparr>)]\<rparr>)"

definition example_bare_store :: store where
  "example_bare_store = example_store(0 := example_super
     \<lparr>branches := [(''refs/heads/master'', example_master_branch)]\<rparr>)"

subsection \<open>A branch deleted and created again in one revision\<close>

definition example_deleted_store :: store where
  "example_deleted_store = example_store(0 := example_super
     \<lparr>branches := [(''refs/heads/master'', example_master_branch),
                    (''refs/heads/b'', example_branch_b\<lparr>lastChangeRev := 9, commits := [7, 9], marks := [5, 0]\<rparr>)],
      deletedBranches := [(''refs/heads/b'',
         backup_cmd ''refs/heads/b'' 9 True
         @ reset_cmd ''refs/heads/b'' (replicate 40 CHR ''0'') 9 0 ''delete'')]\<rparr>)"

definition example_recreated_store :: store where
  "example_recreated_store = example_deleted_store(0 := (example_deleted_store 0)
     \<lparr>branches := [(''refs/heads/master'', example_master_branch),
                    (''refs/heads/b'', example_branch_b\<lparr>lastChangeRev := 9, commits := [7, 9, 9], marks := [5, 0, 5]\<rparr>)],
      resetBranches := [(''refs/heads/b'',
         reset_cmd ''refs/heads/b'' '':5'' 9 5 ''from branch refs/heads/master'')]\<rparr>)"

definition example_prepared_store :: store where
  "example_prepared_store = example_recreated_store(0 := (example_recreated_store 0)
     \<lparr>fastImport := [backup_cmd ''refs/heads/b'' 9 True
                       @ reset_cmd ''refs/heads/b'' (replicate 40 CHR ''0'') 9 0 ''delete'',
                     reset_cmd ''refs/heads/b'' '':5'' 9 5 ''from branch refs/heads/master''],
      deletedBranches := [], resetBranches := []\<rparr>)"

subsection \<open>A branch created twice in one revision\<close>

definition example_old_branch :: Branch where
  "example_old_branch = \<lparr>lastChangeRev = 4, commits = [3, 4], marks = [2, 0],
     branch_note = [], submodules = [], lastSubmoduleListChangeRev = 0\<rparr>"

definition example_old_store :: store where
  "example_old_store = example_store(0 := example_super
     \<lparr>branches := [(''refs/heads/master'', example_master_branch),
                    (''refs/heads/b'', example_branch_b),
                    (''refs/heads/old'', example_old_branch)]\<rparr>)"

definition example_queued_store :: store where
  "example_queued_store = example_old_store(0 := (example_old_store 0)
     \<lparr>branches := [(''refs/heads/master'', example_master_branch),
                    (''refs/heads/b'', example_branch_b\<lparr>lastChangeRev := 9, commits := [7, 9], marks := [5, 5]\<rparr>),
                    (''refs/heads/old'', example_old_branch)],
      resetBranches := [(''refs/heads/b'',
         backup_cmd ''refs/heads/b'' 9 False
         @ reset_cmd ''refs/heads/b'' '':5'' 9 5 ''from branch refs/heads/master'')]\<rparr>)"

definition example_dropped_store :: store where
  "example_dropped_store = example_queued_store(0 := (example_queued_store 0)
     \<lparr>branches := [(''refs/heads/master'', example_master_branch),
                    (''refs/heads/b'', example_branch_b\<lparr>lastChangeRev := 9, commits := [7, 9, 9], marks := [5, 5, 0]\<rparr>),
                    (''refs/heads/old'', example_old_branch)],
      resetBranches := [],
      warnings := [''refs/heads/b in repository boost is branching but no exported commits exist in repository. creating an empty branch.'']\<rparr>)"

section \<open>Properties of git_repository.cpp\<close>

subsection \<open>Ordered maps\<close>

lemma map_of_omap_assign: "map_of (omap_assign k v m) = (map_of m)(k \<mapsto> v)"
  by (induction m) (auto simp: fun_eq_iff)

lemma omap_value_assign:
  "omap_value (omap_assign k v m) k' = (if k' = k then v else omap_value m k')"
  by (simp add: omap_value_def map_of_omap_assign)

lemma fst_omap_index: "fst (omap_index m k) = omap_value m k"
  by (simp add: omap_index_def omap_value_def split: option.splits)

lemma omap_value_index: "omap_value (snd (omap_index m k)) k' = omap_value m k'"
  by (auto simp: omap_index_def omap_value_def map_of_omap_assign split: option.splits)

lemma set_omap_assign: "fst ` set (omap_assign k v m) = insert k (fst ` set m)"
  by (simp add: map_of_omap_assign flip: dom_map_of_conv_image_fst)

lemma omap_assign_ok: "omap_ok m \<Longrightarrow> omap_ok (omap_assign k v m)"
proof (induction m)
  case Nil
  then show ?case by (simp add: omap_ok_def)
next
  case (Cons e m)
  obtain k' v' where e: "e = (k', v')" by (cases e)
  from Cons.prems have tl: "omap_ok m" and lt: "\<forall>x\<in>fst ` set m. k' < x"
    by (auto simp: omap_ok_def e intro: le_neq_trans)
  have ih: "omap_ok (omap_assign k v m)" using Cons.IH tl .
  show ?case
  proof (cases "k < k'")
    case True
    then show ?thesis using Cons.prems lt by (auto simp: omap_ok_def e)
  next
    case False
    show ?thesis
    proof (cases "k = k'")
      case True
      then show ?thesis using Cons.prems by (auto simp: omap_ok_def e)
    next
      case neq: False
      with False have gt: "k' < k" by simp
      have "\<forall>x\<in>fst ` set (omap_assign k v m). k' < x"
        using lt gt by (simp add: set_omap_assign)
      then show ?thesis using ih False neq
        by (auto simp: omap_ok_def e simp flip: set_map dest: less_imp_le)
    qed
  qed
qed

lemma highest_upto_None: "(highest_upto m r = None) = (\<forall>e\<in>set m. \<not> fst e \<le> r)"
  by (induction m) (auto split: option.splits)

lemma highest_upto_mem: "highest_upto m r = Some e \<Longrightarrow> e \<in> set m \<and> fst e \<le> r"
  by (induction m arbitrary: e) (auto split: option.splits if_splits)

lemma highest_upto_max:
  "highest_upto m r = Some e \<Longrightarrow> e' \<in> set m \<Longrightarrow> fst e' \<le> r \<Longrightarrow> fst e' \<le> fst e"
  by (induction m arbitrary: e) (auto split: option.splits if_splits simp: highest_upto_None)

lemma upper_bound_Nil: "omap_upper_bound [] r = 0"
  by (simp add: omap_upper_bound_def)

lemma upper_bound_Cons:
  "omap_upper_bound (e # m) r = (if fst e \<le> r then Suc (omap_upper_bound m r) else 0)"
  by (simp add: omap_upper_bound_def)

lemma upper_bound_le: "omap_upper_bound m r \<le> length m"
  by (simp add: omap_upper_bound_def length_takeWhile_le)

lemma upper_bound_zero:
  "sorted (map fst m) \<Longrightarrow> (omap_upper_bound m r = 0) = (highest_upto m r = None)"
proof (cases m)
  case Nil
  then show ?thesis by (simp add: upper_bound_Nil)
next
  case (Cons e m')
  assume "sorted (map fst m)"
  then have "\<forall>x\<in>set m'. fst e \<le> fst x" using Cons by simp
  then have "(\<forall>x\<in>set m. \<not> fst x \<le> r) = (\<not> fst e \<le> r)"
    using Cons by (auto dest: order_trans)
  then show ?thesis using Cons by (simp add: upper_bound_Cons highest_upto_None del: highest_upto.simps)
qed

lemma upper_bound_step_back:
  assumes "omap_ok m" and "0 < omap_upper_bound m r"
  shows "highest_upto m r = Some (m ! (omap_upper_bound m r - 1))"
  using assms
proof (induction m)
  case Nil
  then show ?case by (simp add: upper_bound_Nil)
next
  case (Cons e m)
  from Cons.prems have ok: "omap_ok m" and lt: "\<forall>x\<in>set m. fst e < fst x"
    by (auto simp: omap_ok_def intro: le_neq_trans)
  from Cons.prems(2) have le: "fst e \<le> r"
    by (simp add: upper_bound_Cons split: if_splits)
  show ?case
  proof (cases "omap_upper_bound m r = 0")
    case True
    then have "highest_upto m r = None"
      using ok by (simp add: upper_bound_zero omap_ok_def)
    then show ?thesis using le True by (simp add: upper_bound_Cons)
  next
    case False
    then have h: "highest_upto m r = Some (m ! (omap_upper_bound m r - 1))"
      using Cons.IH ok by simp
    have "omap_upper_bound m r - 1 < length m"
      using False upper_bound_le [of m r] by simp
    then have "m ! (omap_upper_bound m r - 1) \<in> set m" by simp
    then have "fst e < fst (m ! (omap_upper_bound m r - 1))" using lt by blast
    then show ?thesis using h le False by (simp add: upper_bound_Cons)
  qed
qed

lemma write_merges_loop_result:
  "merges_result (\<lambda>s. ref.marks (refs g s)) (merge_warning g) kvs (merged_revisions (refs g c))
     = (M, F, L) \<Longrightarrow>
   write_merges_loop c kvs g =
     g\<lparr>refs := (refs g)(c := (refs g c)\<lparr>merged_revisions := M\<rparr>),
       fast_import := fast_import g @ F, git_log := git_log g @ L\<rparr>"
proof (induction kvs arbitrary: g M F L)
  case Nil
  then have "M = merged_revisions (refs g c)" "F = []" "L = []" by auto
  moreover have "(refs g)(c := (refs g c)\<lparr>merged_revisions := merged_revisions (refs g c)\<rparr>) = refs g"
    by (simp add: fun_eq_iff)
  ultimately show ?case by simp
next
  case (Cons kv kvs)
  obtain s r where kv: "kv = (s, r)" by (cases kv)
  obtain merged mr1 where ix: "omap_index (merged_revisions (refs g c)) s = (merged, mr1)"
    by (cases "omap_index (merged_revisions (refs g c)) s")
  define g1 where "g1 = update_ref c (\<lambda>r. r\<lparr>merged_revisions := mr1\<rparr>) g"
  have g1_marks: "(\<lambda>s. ref.marks (refs g1 s)) = (\<lambda>s. ref.marks (refs g s))"
    by (auto simp: g1_def update_ref_def fun_eq_iff)
  have g1_warn: "merge_warning g1 = merge_warning g"
    by (auto simp: g1_def update_ref_def fun_eq_iff merge_warning_def)
  have g1_mr: "merged_revisions (refs g1 c) = mr1"
    by (simp add: g1_def update_ref_def)
  show ?case
  proof (cases "r > merged")
    case False
    then have res: "merges_result (\<lambda>s. ref.marks (refs g1 s)) (merge_warning g1) kvs
                      (merged_revisions (refs g1 c)) = (M, F, L)"
      using Cons.prems by (simp add: kv ix g1_marks g1_warn g1_mr)
    have "write_merges_loop c (kv # kvs) g = write_merges_loop c kvs g1"
      using False by (simp add: kv ix g1_def)
    also have "\<dots> = g1\<lparr>refs := (refs g1)(c := (refs g1 c)\<lparr>merged_revisions := M\<rparr>),
       fast_import := fast_import g1 @ F, git_log := git_log g1 @ L\<rparr>"
      by (rule Cons.IH [OF res])
    also have "\<dots> = g\<lparr>refs := (refs g)(c := (refs g c)\<lparr>merged_revisions := M\<rparr>),
       fast_import := fast_import g @ F, git_log := git_log g @ L\<rparr>"
      by (simp add: g1_def update_ref_def)
    finally show ?thesis .
  next
    case True
    define p where "p = omap_upper_bound (ref.marks (refs g s)) r"
    show ?thesis
    proof (cases "p = 0")
      case p0: True
      define g2 where "g2 = g1\<lparr>git_log := git_log g1 @ [merge_warning g1 s r]\<rparr>"
      obtain M' F' L' where sub: "merges_result (\<lambda>s. ref.marks (refs g s)) (merge_warning g) kvs mr1
                     = (M', F', L')"
        by (cases "merges_result (\<lambda>s. ref.marks (refs g s)) (merge_warning g) kvs mr1")
      have MFL: "M = M'" "F = F'" "L = merge_warning g s r # L'"
        using Cons.prems True p0 sub by (simp_all add: kv ix p_def)
      have g2_eq: "(\<lambda>s. ref.marks (refs g2 s)) = (\<lambda>s. ref.marks (refs g s))"
        "merge_warning g2 = merge_warning g" "merged_revisions (refs g2 c) = mr1"
        using g1_marks g1_warn g1_mr
        by (auto simp: g2_def fun_eq_iff merge_warning_def)
      have res: "merges_result (\<lambda>s. ref.marks (refs g2 s)) (merge_warning g2) kvs
                      (merged_revisions (refs g2 c)) = (M', F', L')"
        using sub by (simp add: g2_eq)
      have "write_merges_loop c (kv # kvs) g = write_merges_loop c kvs g2"
        using True p0 g1_marks
        by (simp add: kv ix g1_def [symmetric] g2_def p_def Let_def fun_eq_iff)
      also have "\<dots> = g2\<lparr>refs := (refs g2)(c := (refs g2 c)\<lparr>merged_revisions := M'\<rparr>),
         fast_import := fast_import g2 @ F', git_log := git_log g2 @ L'\<rparr>"
        by (rule Cons.IH [OF res])
      also have "\<dots> = g\<lparr>refs := (refs g)(c := (refs g c)\<lparr>merged_revisions := M\<rparr>),
         fast_import := fast_import g @ F, git_log := git_log g @ L\<rparr>"
        by (simp add: g2_def g1_def update_ref_def MFL g1_warn [unfolded g1_def update_ref_def])
      finally show ?thesis .
    next
      case pn: False
      define ln where "ln = merge_line (snd (ref.marks (refs g s) ! (p - 1)))"
      define g2 where "g2 = update_ref c (\<lambda>r'. r'\<lparr>merged_revisions := omap_assign s r mr1\<rparr>)
                      (g1\<lparr>fast_import := fast_import g1 @ [ln]\<rparr>)"
      obtain M' F' L' where sub: "merges_result (\<lambda>s. ref.marks (refs g s)) (merge_warning g) kvs
                     (omap_assign s r mr1) = (M', F', L')"
        by (cases "merges_result (\<lambda>s. ref.marks (refs g s)) (merge_warning g) kvs (omap_assign s r mr1)")
      have MFL: "M = M'" "F = ln # F'" "L = L'"
        using Cons.prems True pn sub by (simp_all add: kv ix p_def ln_def)
      have g2_eq: "(\<lambda>s. ref.marks (refs g2 s)) = (\<lambda>s. ref.marks (refs g s))"
        "merge_warning g2 = merge_warning g" "merged_revisions (refs g2 c) = omap_assign s r mr1"
        by (auto simp: g2_def g1_def update_ref_def fun_eq_iff merge_warning_def)
      have res: "merges_result (\<lambda>s. ref.marks (refs g2 s)) (merge_warning g2) kvs
                      (merged_revisions (refs g2 c)) = (M', F', L')"
        using sub by (simp add: g2_eq)
      have "write_merges_loop c (kv # kvs) g = write_merges_loop c kvs g2"
        using True pn g1_marks
        by (simp add: kv ix g1_def [symmetric] g2_def p_def ln_def Let_def fun_eq_iff)
      also have "\<dots> = g2\<lparr>refs := (refs g2)(c := (refs g2 c)\<lparr>merged_revisions := M'\<rparr>),
         fast_import := fast_import g2 @ F', git_log := git_log g2 @ L'\<rparr>"
        by (rule Cons.IH [OF res])
      also have "\<dots> = g\<lparr>refs := (refs g)(c := (refs g c)\<lparr>merged_revisions := M\<rparr>),
         fast_import := fast_import g @ F, git_log := git_log g @ L\<rparr>"
        by (simp add: g2_def g1_def update_ref_def MFL)
      finally show ?thesis .
    qed
  qed
qed

lemma merge_found_cong:
  "omap_value mr' (fst kv) = omap_value mr (fst kv) \<Longrightarrow> merge_found mr' ms kv = merge_found mr ms kv"
  by (simp add: merge_found_def)

lemma merge_missing_cong:
  "omap_value mr' (fst kv) = omap_value mr (fst kv) \<Longrightarrow> merge_missing mr' ms kv = merge_missing mr ms kv"
  by (simp add: merge_missing_def)

lemma merged_after_cong:
  "omap_value mr' k = omap_value mr k \<Longrightarrow> merged_after mr' ms kvs k = merged_after mr ms kvs k"
  by (auto simp: merged_after_def merge_found_def split: option.splits)

lemma filter_found_cong:
  assumes "\<forall>kv\<in>set kvs. omap_value mr' (fst kv) = omap_value mr (fst kv)"
  shows "filter (merge_found mr' ms) kvs = filter (merge_found mr ms) kvs"
    and "filter (merge_missing mr' ms) kvs = filter (merge_missing mr ms) kvs"
proof -
  show "filter (merge_found mr' ms) kvs = filter (merge_found mr ms) kvs"
    by (rule filter_cong [OF refl]) (use assms in \<open>simp add: merge_found_def\<close>)
  show "filter (merge_missing mr' ms) kvs = filter (merge_missing mr ms) kvs"
    by (rule filter_cong [OF refl]) (use assms in \<open>simp add: merge_missing_def\<close>)
qed

lemma merged_after_head:
  "merged_after mr ms ((s, r) # kvs) k =
     (if k = s then (if merge_found mr ms (s, r) then r else omap_value mr s)
      else merged_after mr ms kvs k)"
  by (simp add: merged_after_def)

lemma merged_after_absent: "map_of kvs k = None \<Longrightarrow> merged_after mr ms kvs k = omap_value mr k"
  by (simp add: merged_after_def)

lemma merges_result_step:
  assumes ok: "omap_ok (ms s)"
    and res: "merges_result ms warn ((s, r) # kvs) mr = (M, F, L)"
  shows "\<exists>mr' F' L'. merges_result ms warn kvs mr' = (M, F', L')
          \<and> F = map (\<lambda>kv. merge_line (snd (the (highest_upto (ms (fst kv)) (snd kv)))))
                 (filter (merge_found mr ms) [(s, r)]) @ F'
          \<and> L = map (\<lambda>kv. warn (fst kv) (snd kv)) (filter (merge_missing mr ms) [(s, r)]) @ L'
          \<and> (\<forall>k. omap_value mr' k = (if k = s \<and> merge_found mr ms (s, r) then r else omap_value mr k))"
proof -
  obtain merged mr1 where ix: "omap_index mr s = (merged, mr1)" by (cases "omap_index mr s")
  have merged: "merged = omap_value mr s" using ix fst_omap_index [of mr s] by simp
  have mr1: "omap_value mr1 k = omap_value mr k" for k using ix omap_value_index [of mr s] by simp
  show ?thesis
  proof (cases "r > merged")
    case False
    have nf: "\<not> merge_found mr ms (s, r)" "\<not> merge_missing mr ms (s, r)"
      using False merged by (simp_all add: merge_found_def merge_missing_def)
    have "merges_result ms warn kvs mr1 = (M, F, L)"
      using res False by (simp add: ix)
    then show ?thesis
      apply (rule_tac x = mr1 in exI)
      apply (rule_tac x = F in exI)
      apply (rule_tac x = L in exI)
      apply (simp add: nf mr1)
      done
  next
    case True
    show ?thesis
    proof (cases "omap_upper_bound (ms s) r = 0")
      case p0: True
      then have none: "highest_upto (ms s) r = None"
        using ok by (simp add: upper_bound_zero omap_ok_def)
      have nf: "\<not> merge_found mr ms (s, r)" "merge_missing mr ms (s, r)"
        using True merged none by (simp_all add: merge_found_def merge_missing_def)
      obtain M' F' L' where sub: "merges_result ms warn kvs mr1 = (M', F', L')"
        by (cases "merges_result ms warn kvs mr1")
      have MFL: "M = M'" "F = F'" "L = warn s r # L'"
        using res True p0 sub by (simp_all add: ix)
      show ?thesis
        apply (rule_tac x = mr1 in exI)
        apply (rule_tac x = F' in exI)
        apply (rule_tac x = L' in exI)
        apply (simp add: nf mr1 MFL sub)
        done
    next
      case pn: False
      then have some: "highest_upto (ms s) r = Some (ms s ! (omap_upper_bound (ms s) r - 1))"
        using ok by (simp add: upper_bound_step_back)
      have nf: "merge_found mr ms (s, r)" "\<not> merge_missing mr ms (s, r)"
        using True merged some by (simp_all add: merge_found_def merge_missing_def)
      obtain M' F' L' where sub: "merges_result ms warn kvs (omap_assign s r mr1) = (M', F', L')"
        by (cases "merges_result ms warn kvs (omap_assign s r mr1)")
      have MFL: "M = M'" "F = merge_line (snd (ms s ! (omap_upper_bound (ms s) r - 1))) # F'" "L = L'"
        using res True pn sub by (simp_all add: ix)
      show ?thesis
        apply (rule_tac x = "omap_assign s r mr1" in exI)
        apply (rule_tac x = F' in exI)
        apply (rule_tac x = L' in exI)
        apply (simp add: nf mr1 MFL sub some omap_value_assign)
        done
    qed
  qed
qed

lemma merges_result_char:
  assumes "distinct (map fst kvs)" and "\<forall>s. omap_ok (ms s)"
    and "merges_result ms warn kvs mr = (M, F, L)"
  shows "F = map (\<lambda>kv. merge_line (snd (the (highest_upto (ms (fst kv)) (snd kv)))))
               (filter (merge_found mr ms) kvs)
       \<and> L = map (\<lambda>kv. warn (fst kv) (snd kv)) (filter (merge_missing mr ms) kvs)
       \<and> (\<forall>k. omap_value M k = merged_after mr ms kvs k)"
  using assms
proof (induction kvs arbitrary: mr M F L)
  case Nil
  then show ?case by (simp add: merged_after_def)
next
  case (Cons kv kvs)
  let ?f = "\<lambda>kv. merge_line (snd (the (highest_upto (ms (fst kv)) (snd kv))))"
  let ?w = "\<lambda>kv. warn (fst kv) (snd kv)"
  obtain s r where kv: "kv = (s, r)" by (cases kv)
  from Cons.prems(1) have dist: "distinct (map fst kvs)" and fresh: "s \<notin> fst ` set kvs"
    by (auto simp: kv)
  have noentry: "map_of kvs s = None" using fresh by (simp add: map_of_eq_None_iff)
  have ok: "omap_ok (ms s)" using Cons.prems(2) by simp
  from merges_result_step [OF ok Cons.prems(3) [unfolded kv]]
  obtain mr' F' L' where
    rest: "merges_result ms warn kvs mr' = (M, F', L')"
    and F: "F = map ?f (filter (merge_found mr ms) [(s, r)]) @ F'"
    and L: "L = map ?w (filter (merge_missing mr ms) [(s, r)]) @ L'"
    and vals: "\<And>k. omap_value mr' k = (if k = s \<and> merge_found mr ms (s, r) then r else omap_value mr k)"
    by blast
  note ih = Cons.IH [OF dist Cons.prems(2) rest]
  have same: "\<forall>kv\<in>set kvs. omap_value mr' (fst kv) = omap_value mr (fst kv)"
  proof
    fix kv' assume "kv' \<in> set kvs"
    then have "fst kv' \<noteq> s" using fresh by force
    then show "omap_value mr' (fst kv') = omap_value mr (fst kv')" using vals [of "fst kv'"] by simp
  qed
  have ihF: "F' = map ?f (filter (merge_found mr ms) kvs)"
    using ih filter_found_cong(1) [OF same] by simp
  have ihL: "L' = map ?w (filter (merge_missing mr ms) kvs)"
    using ih filter_found_cong(2) [OF same] by simp
  have ihM: "omap_value M k = merged_after mr' ms kvs k" for k
    using ih by simp
  have "F = map ?f (filter (merge_found mr ms) (kv # kvs))"
    unfolding F ihF kv by simp
  moreover have "L = map ?w (filter (merge_missing mr ms) (kv # kvs))"
    unfolding L ihL kv by simp
  moreover have "omap_value M k = merged_after mr ms (kv # kvs) k" for k
  proof (cases "k = s")
    case True
    have "omap_value M k = omap_value mr' s"
      using ihM [of s] noentry True by (simp add: merged_after_absent)
    then show ?thesis using True vals [of s] by (simp add: kv merged_after_head)
  next
    case False
    have "omap_value mr' k = omap_value mr k" using False vals [of k] by simp
    then have "merged_after mr' ms kvs k = merged_after mr ms kvs k"
      by (rule merged_after_cong)
    then show ?thesis using False ihM [of k] by (simp add: kv merged_after_head)
  qed
  ultimately show ?case by blast
qed

lemma delete_loop_result:
  "\<exists>b. delete_loop c ps g =
     g\<lparr>fast_import := fast_import g @ map FI_filedelete ps,
       refs := (refs g)(c := (refs g c)\<lparr>rewrite_dot_gitmodules := b\<rparr>)\<rparr>"
proof (induction ps arbitrary: g)
  case Nil
  have "g = g\<lparr>fast_import := fast_import g @ map FI_filedelete [],
       refs := (refs g)(c := (refs g c)\<lparr>rewrite_dot_gitmodules := rewrite_dot_gitmodules (refs g c)\<rparr>)\<rparr>"
    by (simp add: fun_eq_iff)
  then show ?case by (metis delete_loop.simps(1))
next
  case (Cons p ps)
  define g1 where "g1 = g\<lparr>fast_import := fast_import g @ [FI_filedelete p]\<rparr>"
  define g2 where "g2 = (if has_submodules g1 \<and> p = []
      then update_ref c (\<lambda>r. r\<lparr>rewrite_dot_gitmodules := True\<rparr>) g1 else g1)"
  have step: "delete_loop c (p # ps) g = delete_loop c ps g2"
    by (simp add: g1_def g2_def Let_def)
  obtain b where b: "delete_loop c ps g2 =
     g2\<lparr>fast_import := fast_import g2 @ map FI_filedelete ps,
       refs := (refs g2)(c := (refs g2 c)\<lparr>rewrite_dot_gitmodules := b\<rparr>)\<rparr>"
    using Cons.IH [of g2] by blast
  have "g2\<lparr>fast_import := fast_import g2 @ map FI_filedelete ps,
       refs := (refs g2)(c := (refs g2 c)\<lparr>rewrite_dot_gitmodules := b\<rparr>)\<rparr>
     = g\<lparr>fast_import := fast_import g @ map FI_filedelete (p # ps),
       refs := (refs g)(c := (refs g c)\<lparr>rewrite_dot_gitmodules := b\<rparr>)\<rparr>"
    by (simp add: g2_def g1_def update_ref_def)
  then show ?case using step b by metis
qed

lemma record_ancestor_pending:
  assumes "dst \<noteq> fresh"
  shows "omap_value (pending_merges (refs (record_ancestor g dst nm r fresh) dst)) (fst (demand_ref g nm fresh))
           = max r (omap_value (pending_merges (refs g dst)) (fst (demand_ref g nm fresh)))"
proof -
  obtain src g1 where d: "demand_ref g nm fresh = (src, g1)" by (cases "demand_ref g nm fresh")
  have same: "refs g1 dst = refs g dst"
    using d assms by (auto simp: demand_ref_def split: option.splits)
  obtain v pm where ix: "omap_index (pending_merges (refs g dst)) src = (v, pm)"
    by (cases "omap_index (pending_merges (refs g dst)) src")
  have v: "v = omap_value (pending_merges (refs g dst)) src"
    using ix fst_omap_index [of "pending_merges (refs g dst)" src] by simp
  have pm: "omap_value pm src = v"
    using ix omap_value_index [of "pending_merges (refs g dst)" src src] v by simp
  show ?thesis
    by (simp add: record_ancestor_def d same ix update_ref_def omap_value_assign pm v [symmetric] max_def)
qed

lemma open_commit_merges:
  assumes cur: "current_ref g = None" and ne: "modified_refs g \<noteq> []"
    and dst: "last (modified_refs g) = dst"
    and dist: "distinct (map fst (pending_merges (refs g dst)))"
    and ok: "\<forall>s. omap_ok (ref.marks (refs g s))"
  shows "\<exists>g'. open_commit g rv = Inr (dst, g')
     \<and> fast_import g' = fast_import g @
          [FI_write (''# SVN revision '' @ nat_to_string (svn_revision.revnum rv) @ LF),
           FI_commit (ref.name (refs g dst)) (last_mark g + 1) (svn_revision.author rv) (epoch rv) (log_message rv)]
          @ map (\<lambda>kv. merge_line (snd (the (highest_upto (marks_when_open g rv dst (fst kv)) (snd kv)))))
              (filter (merge_found (merged_revisions (refs g dst)) (marks_when_open g rv dst))
                 (pending_merges (refs g dst)))
          @ map FI_filedelete (pending_deletions (refs g dst))
     \<and> git_log g' = git_log g @ map (\<lambda>kv. merge_warning g (fst kv) (snd kv))
              (filter (merge_missing (merged_revisions (refs g dst)) (marks_when_open g rv dst))
                 (pending_merges (refs g dst)))
     \<and> (\<forall>k. omap_value (merged_revisions (refs g' dst)) k
              = merged_after (merged_revisions (refs g dst)) (marks_when_open g rv dst)
                  (pending_merges (refs g dst)) k)
     \<and> pending_merges (refs g' dst) = []"
proof -
  let ?mark = "last_mark g + 1"
  let ?ms = "marks_when_open g rv dst"
  let ?pend = "pending_merges (refs g dst)"
  let ?mr = "merged_revisions (refs g dst)"
  define g1 where "g1 = update_ref dst (\<lambda>r. r\<lparr>ref.marks := omap_assign (svn_revision.revnum rv) ?mark (ref.marks r)\<rparr>)
                        (g\<lparr>current_ref := Some dst, last_mark := ?mark\<rparr>)"
  define hdr where "hdr = [FI_write (''# SVN revision '' @ nat_to_string (svn_revision.revnum rv) @ LF),
           FI_commit (ref.name (refs g dst)) ?mark (svn_revision.author rv) (epoch rv) (log_message rv)]"
  define g2 where "g2 = g1\<lparr>fast_import := fast_import g1 @ hdr\<rparr>"
  have g2_marks: "(\<lambda>s. ref.marks (refs g2 s)) = ?ms"
    by (auto simp: g2_def g1_def update_ref_def marks_when_open_def fun_eq_iff)
  have g2_warn: "merge_warning g2 = merge_warning g"
    by (auto simp: g2_def g1_def update_ref_def merge_warning_def fun_eq_iff)
  have g2_fields: "merged_revisions (refs g2 dst) = ?mr" "pending_merges (refs g2 dst) = ?pend"
    "pending_deletions (refs g2 dst) = pending_deletions (refs g dst)"
    "current_ref g2 = Some dst" "fast_import g2 = fast_import g @ hdr" "git_log g2 = git_log g"
    by (simp_all add: g2_def g1_def update_ref_def)
  have ok2: "\<forall>s. omap_ok (?ms s)"
    using ok by (simp add: marks_when_open_def omap_assign_ok)
  obtain M F L where res: "merges_result ?ms (merge_warning g) ?pend ?mr = (M, F, L)"
    by (cases "merges_result ?ms (merge_warning g) ?pend ?mr")
  note char = merges_result_char [OF dist ok2 res]
  have loop: "write_merges_loop dst ?pend g2 =
     g2\<lparr>refs := (refs g2)(dst := (refs g2 dst)\<lparr>merged_revisions := M\<rparr>),
       fast_import := fast_import g2 @ F, git_log := git_log g2 @ L\<rparr>"
    by (rule write_merges_loop_result) (simp add: g2_marks g2_warn g2_fields res)
  define g3 where "g3 = update_ref dst (\<lambda>r. r\<lparr>pending_merges := []\<rparr>) (write_merges_loop dst ?pend g2)"
  have wm: "write_merges g2 = Inr g3"
    by (simp add: write_merges_def g2_fields g3_def)
  have g3_fields: "pending_deletions (refs g3 dst) = pending_deletions (refs g dst)"
    "fast_import g3 = fast_import g @ hdr @ F" "git_log g3 = git_log g @ L"
    "merged_revisions (refs g3 dst) = M" "pending_merges (refs g3 dst) = []"
    by (simp_all add: g3_def loop update_ref_def g2_fields)
  obtain b where del: "delete_loop dst (pending_deletions (refs g dst)) g3 =
     g3\<lparr>fast_import := fast_import g3 @ map FI_filedelete (pending_deletions (refs g dst)),
       refs := (refs g3)(dst := (refs g3 dst)\<lparr>rewrite_dot_gitmodules := b\<rparr>)\<rparr>"
    using delete_loop_result [of dst "pending_deletions (refs g dst)" g3] by blast
  define g' where "g' = update_ref dst (\<lambda>r. r\<lparr>pending_deletions := []\<rparr>)
                              (delete_loop dst (pending_deletions (refs g3 dst)) g3)"
  have "open_commit g rv =
      (case write_merges g2 of Inl e \<Rightarrow> Inl e
       | Inr g3 \<Rightarrow> Inr (dst, update_ref dst (\<lambda>r. r\<lparr>pending_deletions := []\<rparr>)
                              (delete_loop dst (pending_deletions (refs g3 dst)) g3)))"
    using cur ne dst
    by (simp add: open_commit_def Let_def g1_def hdr_def g2_def update_ref_def)
  then have oc: "open_commit g rv = Inr (dst, g')"
    by (simp add: wm g'_def)
  have g'_fields: "fast_import g' = fast_import g @ hdr @ F @ map FI_filedelete (pending_deletions (refs g dst))"
    "git_log g' = git_log g @ L" "merged_revisions (refs g' dst) = M" "pending_merges (refs g' dst) = []"
    by (simp_all add: g'_def g3_fields del update_ref_def)
  show ?thesis
    using oc g'_fields char by (simp add: hdr_def)
qed

subsection \<open>Closing a commit\<close>

text \<open>
  C3. When \<open>close_commit\<close> is not deferred and the line read back ends in the tree
  SHA that the current ref holds as \<open>head_tree_sha\<close> (the code compares the last 41
  characters, the SHA and the tab after it), the commit is elided if the ref has at
  least two marks: the last entry of \<open>marks\<close> is erased, a reset of the ref to the mark
  of the entry that is now last is sent, \<open>last_mark\<close> keeps its value and
  \<open>head_tree_sha\<close> is the same SHA. With fewer than two marks the assertion
  \<open>marks.size() >= 2\<close> stops the run: the first commit of a ref is never elided.
\<close>

theorem close_commit_elides_unchanged_tree:
  assumes nd: "\<not> defer_close (H this) discover_changes"
    and cur: "current_ref (H this) = Some c"
    and len: "41 \<le> length response"
    and tab: "last response = TAB"
    and same: "substr response (length response - 41) (length response - 1)
                 = head_tree_sha (refs (H this) c)"
  shows "(2 \<le> length (ref.marks (refs (H this) c)) \<longrightarrow>
           (\<exists>b H'. close_commit H this discover_changes response = Inr (b, H')
              \<and> ref.marks (refs (H' this) c) = butlast (ref.marks (refs (H this) c))
              \<and> fast_import (H' this) = fast_import (H this) @
                    [FI_reset (ref.name (refs (H this) c))
                       (snd (last (butlast (ref.marks (refs (H this) c)))))]
              \<and> last_mark (H' this) = last_mark (H this)
              \<and> head_tree_sha (refs (H' this) c) = head_tree_sha (refs (H this) c)))
       \<and> (length (ref.marks (refs (H this) c)) < 2 \<longrightarrow>
            close_commit H this discover_changes response
              = Inl (AssertionFailed ''current_ref->marks.size() >= 2''))"
  using nd cur len tab same
  by (cases "super_module (H this)") (auto simp: close_commit_def Let_def update_ref_def)

theorem close_commit_elides_unchanged_tree_witness:
  "\<exists>b H'. close_commit (\<lambda>_. example_git) 0 False example_response = Inr (b, H')
      \<and> ref.marks (refs (H' 0) 0) = [(1, 1)]
      \<and> fast_import (H' 0) = [FI_reset ''refs/heads/master'' 1]
      \<and> last_mark (H' 0) = 2"
proof -
  have nd: "\<not> defer_close example_git False"
    by (simp add: defer_close_def example_git_def)
  have cur: "current_ref example_git = Some 0"
    by (simp add: example_git_def)
  have len: "41 \<le> length example_response"
    by (simp add: example_response_def example_sha_def)
  have tab: "last example_response = TAB"
    by (simp add: example_response_def)
  have same: "substr example_response (length example_response - 41) (length example_response - 1)
                = head_tree_sha (refs example_git 0)"
    by (simp add: example_response_def example_sha_def substr_def example_git_def example_master_def)
  have marks: "ref.marks (refs example_git 0) = [(1, 1), (3, 2)]"
    and nm: "ref.name (refs example_git 0) = ''refs/heads/master''"
    and out: "fast_import example_git = []" and lm: "last_mark example_git = 2"
    by (simp_all add: example_git_def example_master_def new_ref_def)
  show ?thesis
    using close_commit_elides_unchanged_tree [of "\<lambda>_. example_git" 0 False 0 example_response]
      nd cur len tab same
    by (simp add: marks nm out lm) blast
qed

subsection \<open>Pending merges\<close>

text \<open>
  C2, amended. \<open>record_ancestor\<close> leaves, as the pending revision of the source ref,
  the greater of the given revision and the one pending before (zero when there was
  none). When \<open>open_commit\<close> then opens the commit of \<open>dst\<close>, it writes, after the
  commit header and in the order of the pending merges, one \<open>merge :<m>\<close> line for
  every pending pair whose revision is greater than the merged revision of its source
  and whose source has a commit at or before that revision, \<open>m\<close> being the mark of the
  highest such commit; a pair without such a commit gets a warning and no line; the
  merged revision of a source becomes the pending revision exactly when its line was
  written, and stays as it was otherwise; the pending merges are empty afterwards.
\<close>

theorem pending_merges_written_when_commit_opens:
  "(dst \<noteq> fresh \<longrightarrow>
      omap_value (pending_merges (refs (record_ancestor g dst nm r fresh) dst)) (fst (demand_ref g nm fresh))
        = max r (omap_value (pending_merges (refs g dst)) (fst (demand_ref g nm fresh))))
   \<and> (current_ref g = None \<and> modified_refs g \<noteq> [] \<and> last (modified_refs g) = dst
        \<and> distinct (map fst (pending_merges (refs g dst)))
        \<and> (\<forall>s. omap_ok (ref.marks (refs g s)))
      \<longrightarrow> (\<exists>g'. open_commit g rv = Inr (dst, g')
     \<and> fast_import g' = fast_import g @
          [FI_write (''# SVN revision '' @ nat_to_string (svn_revision.revnum rv) @ LF),
           FI_commit (ref.name (refs g dst)) (last_mark g + 1) (svn_revision.author rv) (epoch rv) (log_message rv)]
          @ map (\<lambda>kv. merge_line (snd (the (highest_upto (marks_when_open g rv dst (fst kv)) (snd kv)))))
              (filter (merge_found (merged_revisions (refs g dst)) (marks_when_open g rv dst))
                 (pending_merges (refs g dst)))
          @ map FI_filedelete (pending_deletions (refs g dst))
     \<and> git_log g' = git_log g @ map (\<lambda>kv. merge_warning g (fst kv) (snd kv))
              (filter (merge_missing (merged_revisions (refs g dst)) (marks_when_open g rv dst))
                 (pending_merges (refs g dst)))
     \<and> (\<forall>k. omap_value (merged_revisions (refs g' dst)) k
              = merged_after (merged_revisions (refs g dst)) (marks_when_open g rv dst)
                  (pending_merges (refs g dst)) k)
     \<and> pending_merges (refs g' dst) = []))"
  using record_ancestor_pending [of dst fresh g nm r] open_commit_merges [of g dst rv]
  by blast

lemma example_merge_facts:
  "current_ref example_merge_git = None" "modified_refs example_merge_git = [8]"
  "pending_merges (refs example_merge_git 8) = [(0, 2)]"
  "merged_revisions (refs example_merge_git 8) = []"
  "pending_deletions (refs example_merge_git 8) = []"
  "ref.name (refs example_merge_git 8) = ''refs/heads/b''"
  "ref.marks (refs example_merge_git s) = (if s = 0 then [(1, 1), (3, 2)] else [])"
  "fast_import example_merge_git = []" "git_log example_merge_git = []"
  "last_mark example_merge_git = 2"
  by (simp_all add: example_merge_git_def example_master_def new_ref_def)

theorem pending_merges_written_when_commit_opens_witness:
  "omap_value (pending_merges (refs (record_ancestor example_merge_git 8 ''refs/heads/master'' 5 7) 8)) 0 = 5
   \<and> (\<exists>g'. open_commit example_merge_git example_rev = Inr (8, g')
         \<and> fast_import g' =
              [FI_write (''# SVN revision 4'' @ LF),
               FI_commit ''refs/heads/b'' 3 ''dave'' 1370000000 ''merge'',
               FI_write (''merge :1'' @ LF)]
         \<and> git_log g' = []
         \<and> omap_value (merged_revisions (refs g' 8)) 0 = 2
         \<and> pending_merges (refs g' 8) = [])"
proof -
  have src: "demand_ref example_merge_git ''refs/heads/master'' 7 = (0, example_merge_git)"
    by (simp add: demand_ref_def example_merge_git_def)
  have ok: "\<forall>s. omap_ok (ref.marks (refs example_merge_git s))"
    by (simp add: example_merge_facts omap_ok_def)
  have ms: "marks_when_open example_merge_git example_rev 8 0 = [(1, 1), (3, 2)]"
    by (simp add: marks_when_open_def example_merge_facts)
  have found: "merge_found [] (marks_when_open example_merge_git example_rev 8) (0, 2)"
    by (simp add: merge_found_def ms omap_value_def)
  have missing: "\<not> merge_missing [] (marks_when_open example_merge_git example_rev 8) (0, 2)"
    by (simp add: merge_missing_def ms omap_value_def)
  have after: "merged_after [] (marks_when_open example_merge_git example_rev 8) [(0, 2)] 0 = 2"
    by (simp add: merged_after_def found)
  have line: "merge_line (Suc 0) = FI_write (''merge :1'' @ LF)"
    by (simp add: merge_line_def nat_to_string.simps digit_char_def)
  have rv: "nat_to_string (svn_revision.revnum example_rev) = ''4''"
    "svn_revision.author example_rev = ''dave''" "epoch example_rev = 1370000000"
    "log_message example_rev = ''merge''"
    by (simp_all add: example_rev_def nat_to_string.simps digit_char_def)
  have pend: "omap_value (pending_merges (refs example_merge_git 8)) 0 = 2"
    by (simp add: example_merge_facts omap_value_def)
  have hyps: "current_ref example_merge_git = None \<and> modified_refs example_merge_git \<noteq> []
      \<and> last (modified_refs example_merge_git) = 8
      \<and> distinct (map fst (pending_merges (refs example_merge_git 8)))
      \<and> (\<forall>s. omap_ok (ref.marks (refs example_merge_git s)))"
    using ok by (simp add: example_merge_facts)
  note inst = pending_merges_written_when_commit_opens
            [of 8 7 example_merge_git "''refs/heads/master''" 5 example_rev]
  from inst have part1: "omap_value (pending_merges (refs (record_ancestor example_merge_git 8
        ''refs/heads/master'' 5 7) 8)) 0 = 5"
    by (simp add: src pend)
  from inst hyps obtain g' where
    oc: "open_commit example_merge_git example_rev = Inr (8, g')"
    and fi: "fast_import g' = fast_import example_merge_git @
          [FI_write (''# SVN revision '' @ nat_to_string (svn_revision.revnum example_rev) @ LF),
           FI_commit (ref.name (refs example_merge_git 8)) (last_mark example_merge_git + 1)
             (svn_revision.author example_rev) (epoch example_rev) (log_message example_rev)]
          @ map (\<lambda>kv. merge_line (snd (the (highest_upto (marks_when_open example_merge_git example_rev 8 (fst kv)) (snd kv)))))
              (filter (merge_found (merged_revisions (refs example_merge_git 8)) (marks_when_open example_merge_git example_rev 8))
                 (pending_merges (refs example_merge_git 8)))
          @ map FI_filedelete (pending_deletions (refs example_merge_git 8))"
    and lg: "git_log g' = git_log example_merge_git @ map (\<lambda>kv. merge_warning example_merge_git (fst kv) (snd kv))
              (filter (merge_missing (merged_revisions (refs example_merge_git 8)) (marks_when_open example_merge_git example_rev 8))
                 (pending_merges (refs example_merge_git 8)))"
    and mr: "\<And>k. omap_value (merged_revisions (refs g' 8)) k
              = merged_after (merged_revisions (refs example_merge_git 8)) (marks_when_open example_merge_git example_rev 8)
                  (pending_merges (refs example_merge_git 8)) k"
    and pm: "pending_merges (refs g' 8) = []"
    by blast
  have "fast_import g' = [FI_write (''# SVN revision 4'' @ LF),
               FI_commit ''refs/heads/b'' 3 ''dave'' 1370000000 ''merge'',
               FI_write (''merge :1'' @ LF)]"
    unfolding fi by (simp add: example_merge_facts found rv ms line)
  moreover have "git_log g' = []"
    unfolding lg by (simp add: example_merge_facts missing)
  moreover have "omap_value (merged_revisions (refs g' 8)) 0 = 2"
    using mr [of 0] by (simp add: example_merge_facts after)
  ultimately show ?thesis using part1 oc pm by blast
qed

text \<open>
  C2 as stated fails where the source has no commit at or before the pending revision:
  the warning is logged, and the merged revision of the source stays zero instead of
  becoming the pending revision 2.
\<close>

theorem merged_revision_not_updated_counterexample:
  "\<exists>g'. open_commit example_missing_git example_rev = Inr (8, g')
      \<and> pending_merges (refs example_missing_git 8) = [(0, 2)]
      \<and> omap_value (merged_revisions (refs example_missing_git 8)) 0 = 0
      \<and> git_log g' = [merge_warning example_missing_git 0 2]
      \<and> omap_value (merged_revisions (refs g' 8)) 0 = 0"
proof -
  have facts: "current_ref example_missing_git = None" "modified_refs example_missing_git = [8]"
    "pending_merges (refs example_missing_git 8) = [(0, 2)]"
    "merged_revisions (refs example_missing_git 8) = []"
    "ref.marks (refs example_missing_git s) = (if s = 0 then [(3, 2)] else [])"
    "git_log example_missing_git = []" for s
    by (simp_all add: example_missing_git_def example_merge_facts example_master_def)
  have ok: "\<forall>s. omap_ok (ref.marks (refs example_missing_git s))"
    by (simp add: facts omap_ok_def)
  have ms: "marks_when_open example_missing_git example_rev 8 0 = [(3, 2)]"
    by (simp add: marks_when_open_def facts)
  have missing: "merge_missing [] (marks_when_open example_missing_git example_rev 8) (0, 2)"
    by (simp add: merge_missing_def ms omap_value_def)
  have found: "\<not> merge_found [] (marks_when_open example_missing_git example_rev 8) (0, 2)"
    by (simp add: merge_found_def ms omap_value_def)
  have after: "merged_after [] (marks_when_open example_missing_git example_rev 8) [(0, 2)] 0 = 0"
    by (simp add: merged_after_def found omap_value_def)
  from open_commit_merges [of example_missing_git 8 example_rev] ok obtain g' where
    oc: "open_commit example_missing_git example_rev = Inr (8, g')"
    and lg: "git_log g' = git_log example_missing_git @ map (\<lambda>kv. merge_warning example_missing_git (fst kv) (snd kv))
              (filter (merge_missing (merged_revisions (refs example_missing_git 8)) (marks_when_open example_missing_git example_rev 8))
                 (pending_merges (refs example_missing_git 8)))"
    and mr: "\<And>k. omap_value (merged_revisions (refs g' 8)) k
              = merged_after (merged_revisions (refs example_missing_git 8)) (marks_when_open example_missing_git example_rev 8)
                  (pending_merges (refs example_missing_git 8)) k"
    by (auto simp: facts)
  have "git_log g' = [merge_warning example_missing_git 0 2]"
    unfolding lg by (simp add: facts missing)
  moreover have "omap_value (merged_revisions (refs g' 8)) 0 = 0"
    using mr [of 0] by (simp add: facts after)
  moreover have "omap_value (merged_revisions (refs example_missing_git 8)) 0 = 0"
    by (simp add: facts omap_value_def)
  ultimately show ?thesis using oc facts(3) by blast
qed

section \<open>Properties of repository.cpp\<close>

subsection \<open>Tables\<close>

lemma branch_value_access [simp]:
  "branch_value h (branch_access h k bs) k' = branch_value h bs k'"
  by (simp add: branch_value_def branch_access_def update_conv' split: option.splits)

lemma branch_value_update [simp]:
  "branch_value h (AList.update k b bs) k' = (if k' = k then b else branch_value h bs k')"
  by (simp add: branch_value_def update_conv')

lemma and_then_Inr_iff:
  "(and_then m f = Inr y) = (\<exists>x. m = Inr x \<and> f x = Inr y)"
  by (cases m) (simp_all add: and_then_def)

lemma and_then_Inr [simp]: "and_then (Inr x) f = f x"
  by (simp add: and_then_def)

lemma and_then_Inl [simp]: "and_then (Inl e) f = Inl e"
  by (simp add: and_then_def)

subsection \<open>The fast-import process\<close>

lemma reloadBranches_result:
  "reloadBranches h opts r = Inr r1 \<Longrightarrow> \<exists>pre. r1 = r\<lparr>fastImport := fastImport r @ pre\<rparr>"
  by (auto simp: reloadBranches_def and_then_Inr_iff fi_write_def Let_def split: if_splits)

lemma startFastImport_result:
  "startFastImport h opts r = Inr r1 \<Longrightarrow>
     \<exists>pre a b. r1 = r\<lparr>processHasStarted := a, fastImport_running := b, fastImport := fastImport r @ pre\<rparr>"
proof (cases "fastImport_running r")
  case True
  assume "startFastImport h opts r = Inr r1"
  then have "r1 = r\<lparr>processHasStarted := processHasStarted r, fastImport_running := fastImport_running r,
      fastImport := fastImport r @ []\<rparr>"
    using True by (simp add: startFastImport_def)
  then show ?thesis by blast
next
  case False
  assume "startFastImport h opts r = Inr r1"
  then obtain pre where "r1 = (r\<lparr>processHasStarted := True, fastImport_running := True\<rparr>)
      \<lparr>fastImport := fastImport (r\<lparr>processHasStarted := True, fastImport_running := True\<rparr>) @ pre\<rparr>"
    using False reloadBranches_result [of h opts "r\<lparr>processHasStarted := True, fastImport_running := True\<rparr>" r1]
    by (auto simp: startFastImport_def split: if_splits)
  then have "r1 = r\<lparr>processHasStarted := True, fastImport_running := True, fastImport := fastImport r @ pre\<rparr>"
    by simp
  then show ?thesis by blast
qed

subsection \<open>The merge parents of a commit\<close>

lemma merge_loop_char:
  "i \<le> 16 \<Longrightarrow>
   merge_loop p nm ms i =
     (map (\<lambda>m. ''merge :'' @ to_string m @ LF) (take (16 - i) (filter (\<lambda>m. m \<noteq> p) ms)),
      concat (map (\<lambda>m. '' :'' @ to_string m) (take (16 - i) (filter (\<lambda>m. m \<noteq> p) ms))),
      if 16 - i < length (filter (\<lambda>m. m \<noteq> p) ms) then [''too many merge parents in repository '' @ nm] else [])"
proof (induction ms arbitrary: i)
  case Nil
  then show ?case by simp
next
  case (Cons mg ms)
  show ?case
  proof (cases "mg = p")
    case True
    then show ?thesis using Cons by simp
  next
    case False
    show ?thesis
    proof (cases "i = 16")
      case True
      then show ?thesis using False by simp
    next
      case neq: False
      with Cons.prems have lt: "i < 16" by simp
      then have suc: "16 - i = Suc (16 - (i + 1))" by simp
      have ih: "merge_loop p nm ms (i + 1) =
        (map (\<lambda>m. ''merge :'' @ to_string m @ LF) (take (16 - (i + 1)) (filter (\<lambda>m. m \<noteq> p) ms)),
         concat (map (\<lambda>m. '' :'' @ to_string m) (take (16 - (i + 1)) (filter (\<lambda>m. m \<noteq> p) ms))),
         if 16 - (i + 1) < length (filter (\<lambda>m. m \<noteq> p) ms) then [''too many merge parents in repository '' @ nm] else [])"
        using Cons.IH [of "i + 1"] lt by simp
      have "merge_loop p nm (mg # ms) i =
          (let m = '' :'' @ to_string mg; (ls, desc, ws) = merge_loop p nm ms (i + 1)
           in ((''merge'' @ m @ LF) # ls, m @ desc, ws))"
        using False lt by simp
      then show ?thesis
        unfolding ih suc using False lt by (simp add: Let_def)
    qed
  qed
qed

lemma sorted_last_Max:
  fixes xs :: "int list"
  assumes "xs \<noteq> []"
  shows "last (sort xs) = Max (set xs)"
proof -
  have s: "sorted (sort xs)" and e: "set (sort xs) = set xs" and ne: "sort xs \<noteq> []"
    using assms by (simp_all flip: set_empty)
  have "\<forall>x\<in>set ys. x \<le> last ys" if "sorted ys" for ys :: "int list"
    using that by (induction ys) (auto)
  then have "\<forall>x\<in>set xs. x \<le> last (sort xs)" using s e by blast
  moreover have "last (sort xs) \<in> set xs" using ne e last_in_set by blast
  ultimately have "Max (set xs) = last (sort xs)"
    by (intro Max_eqI) auto
  then show ?thesis by simp
qed

lemma map_of_set_txn [simp]:
  "map_of (transactions (set_txn key t r)) k = (if k = key then Some t else map_of (transactions r) k)"
  by (simp add: set_txn_def map_of_omap_assign)

lemma set_txn_fields [simp]:
  "branches (set_txn key t r) = branches r" "fastImport (set_txn key t r) = fastImport r"
  "warnings (set_txn key t r) = warnings r" "last_commit_mark (set_txn key t r) = last_commit_mark r"
  "next_file_mark (set_txn key t r) = next_file_mark r" "name (set_txn key t r) = name r"
  "prefix (set_txn key t r) = prefix r" "deletedBranches (set_txn key t r) = deletedBranches r"
  "resetBranches (set_txn key t r) = resetBranches r" "commitCount (set_txn key t r) = commitCount r"
  "incremental (set_txn key t r) = incremental r"
  "fastImport_running (set_txn key t r) = fastImport_running r"
  "processHasStarted (set_txn key t r) = processHasStarted r"
  "submodule_in_repo (set_txn key t r) = submodule_in_repo r"
  "submodule_path (set_txn key t r) = submodule_path r"
  by (simp_all add: set_txn_def)

lemma log_warn_fields [simp]:
  "branches (log_warn s r) = branches r" "fastImport (log_warn s r) = fastImport r"
  "warnings (log_warn s r) = warnings r @ [s]" "last_commit_mark (log_warn s r) = last_commit_mark r"
  "next_file_mark (log_warn s r) = next_file_mark r" "name (log_warn s r) = name r"
  "prefix (log_warn s r) = prefix r" "deletedBranches (log_warn s r) = deletedBranches r"
  "resetBranches (log_warn s r) = resetBranches r" "commitCount (log_warn s r) = commitCount r"
  "incremental (log_warn s r) = incremental r" "transactions (log_warn s r) = transactions r"
  "fastImport_running (log_warn s r) = fastImport_running r"
  "processHasStarted (log_warn s r) = processHasStarted r"
  "submodule_in_repo (log_warn s r) = submodule_in_repo r"
  "submodule_path (log_warn s r) = submodule_path r"
  by (simp_all add: log_warn_def)

lemma fi_write_fields [simp]:
  "branches (fi_write s r) = branches r" "fastImport (fi_write s r) = fastImport r @ [s]"
  "warnings (fi_write s r) = warnings r" "last_commit_mark (fi_write s r) = last_commit_mark r"
  "next_file_mark (fi_write s r) = next_file_mark r" "name (fi_write s r) = name r"
  "prefix (fi_write s r) = prefix r" "deletedBranches (fi_write s r) = deletedBranches r"
  "resetBranches (fi_write s r) = resetBranches r" "commitCount (fi_write s r) = commitCount r"
  "incremental (fi_write s r) = incremental r" "transactions (fi_write s r) = transactions r"
  "fastImport_running (fi_write s r) = fastImport_running r"
  "processHasStarted (fi_write s r) = processHasStarted r"
  "submodule_in_repo (fi_write s r) = submodule_in_repo r"
  "submodule_path (fi_write s r) = submodule_path r"
  by (simp_all add: fi_write_def)

lemma Transaction_commitNote_result:
  assumes "map_of (transactions r) key = Some t" and "starts_with (branch t) ''refs/''"
  shows "\<exists>s bs. Transaction_commitNote h r key noteText appnd commit_arg
            = Inr (r\<lparr>fastImport := fastImport r @ [s], branches := bs\<rparr>)
          \<and> (\<forall>k. commits (branch_value h bs k) = commits (branch_value h (branches r) k)
                 \<and> marks (branch_value h bs k) = marks (branch_value h (branches r) k))"
proof -
  define commitRef where "commitRef = (if commit_arg = [] then branch t else commit_arg)"
  define appending where "appending = (appnd \<and> commit_arg = [] \<and> qh_contains (branches r) (branch t)
                             \<and> branch_note (branch_value h (branches r) (branch t)) \<noteq> [])"
  define note_text where "note_text = (if appending then branch_note (branch_value h (branches r) (branch t)) @ noteText
                           else noteText)"
  define message where "message = (if appending then ''Appending Git note for current '' @ commitRef @ LF
                         else ''Adding Git note for current '' @ commitRef @ LF)"
  define s where "s = note_commit t message commitRef note_text"
  define bs where "bs = (if commit_arg = [] \<and> qh_contains (branches r) (branch t)
       then AList.update (branch t) ((branch_value h (branches r) (branch t))\<lparr>branch_note := note_text\<rparr>) (branches r)
       else branches r)"
  have "Transaction_commitNote h r key noteText appnd commit_arg
            = Inr (r\<lparr>fastImport := fastImport r @ [s], branches := bs\<rparr>)"
    using assms
    by (simp add: Transaction_commitNote_def with_txn_def Let_def fi_write_def
        commitRef_def [symmetric] appending_def [symmetric] note_text_def [symmetric]
        message_def [symmetric] s_def [symmetric] bs_def)
  moreover have "commits (branch_value h bs k) = commits (branch_value h (branches r) k)
                 \<and> marks (branch_value h bs k) = marks (branch_value h (branches r) k)" for k
    by (simp add: bs_def)
  ultimately show ?thesis by blast
qed

lemma Transaction_commit_result:
  assumes txn: "map_of (transactions r) key = Some t"
    and sfi: "startFastImport h opts r = Inr r1"
    and room: "last_commit_mark r + 1 < next_file_mark r - 1"
    and ne: "\<not> (exists h (branch_value h (branches r) (branch t))
                \<and> marks (branch_value h (branches r) (branch t)) = [])"
    and refs: "starts_with (branch t) ''refs/''"
    and wmp: "write_merge_parents (name r) (parent_mark h (branch_value h (branches r) (branch t))) t
                = (merges_left, merge_lines, desc, ws)"
  shows "\<exists>r' notes. Transaction_commit h opts r key = Inr (last_commit_mark r + 1, r')
     \<and> fastImport r' = fastImport r1
          @ [commit_header t (last_commit_mark r + 1) (commit_message opts t)]
          @ merge_lines @ deletion_lines t
          @ [modifiedFiles t, progress_line t (last_commit_mark r + 1) desc] @ notes
     \<and> (\<not> add_metadata_notes opts \<longrightarrow> notes = [])
     \<and> warnings r' = warnings r
          @ (if \<not> exists h (branch_value h (branches r) (branch t)) \<and> incremental r
             then [resume_warning r t] else []) @ ws
     \<and> map_of (transactions r') key = Some (t\<lparr>merges := merges_left\<rparr>)
     \<and> last_commit_mark r' = last_commit_mark r + 1
     \<and> next_file_mark r' = next_file_mark r
     \<and> (\<forall>k. commits (branch_value h (branches r') k)
               = (if k = branch t then commits (branch_value h (branches r) (branch t)) @ [revnum t]
                  else commits (branch_value h (branches r) k))
            \<and> marks (branch_value h (branches r') k)
               = (if k = branch t then marks (branch_value h (branches r) (branch t)) @ [last_commit_mark r + 1]
                  else marks (branch_value h (branches r) k)))"
proof -
  let ?mark = "last_commit_mark r + 1"
  let ?br = "branch_value h (branches r) (branch t)"
  obtain pre a b where r1: "r1 = r\<lparr>processHasStarted := a, fastImport_running := b,
      fastImport := fastImport r @ pre\<rparr>"
    using startFastImport_result [OF sfi] by blast
  define r2 where "r2 = r1\<lparr>last_commit_mark := ?mark\<rparr>"
  define r3 where "r3 = (if \<not> exists h ?br \<and> incremental r2 then log_warn (resume_warning r2 t) r2 else r2)"
  define br' where "br' = ?br\<lparr>lastChangeRev := revnum t, commits := commits ?br @ [revnum t],
                                  marks := marks ?br @ [?mark]\<rparr>"
  define r4 where "r4 = r3\<lparr>branches := AList.update (branch t) br' (branch_access h (branch t) (branches r2))\<rparr>"
  define r5 where "r5 = set_txn key (t\<lparr>merges := merges_left\<rparr>)
                          (r4\<lparr>fastImport := fastImport r4 @ [commit_header t ?mark (commit_message opts t)]
                                              @ merge_lines @ deletion_lines t
                                              @ [modifiedFiles t, progress_line t ?mark desc],
                               warnings := warnings r4 @ ws\<rparr>)"
  have nm: "name r4 = name r" "resume_warning r2 t = resume_warning r t" "incremental r2 = incremental r"
    "branches r2 = branches r" "last_commit_mark r1 = last_commit_mark r" "next_file_mark r2 = next_file_mark r"
    by (simp_all add: r4_def r3_def r2_def r1 resume_warning_def)
  have main: "Transaction_commit h opts r key =
      (if add_metadata_notes opts
       then and_then (Transaction_commitNote h r5 key (formatMetadataMessage (svnprefix t) (revnum t) []) False [])
              (\<lambda>r6. Inr (?mark, r6))
       else Inr (?mark, r5))"
  proof (cases "exists h ?br")
    case True
    then have "marks ?br \<noteq> []" using ne by simp
    then show ?thesis
      using txn room refs True wmp
      unfolding Transaction_commit_def with_txn_def
      by (simp add: sfi Let_def r1 r2_def r3_def br'_def r4_def r5_def resume_warning_def)
  next
    case False
    then show ?thesis
      using txn room refs wmp
      unfolding Transaction_commit_def with_txn_def
      by (simp add: sfi Let_def r1 r2_def r3_def br'_def r4_def r5_def resume_warning_def)
  qed
  have r5_fi: "fastImport r5 = fastImport r1
          @ [commit_header t ?mark (commit_message opts t)]
          @ merge_lines @ deletion_lines t
          @ [modifiedFiles t, progress_line t ?mark desc]"
    by (simp add: r5_def r4_def r3_def r2_def log_warn_def)
  have r5_warn: "warnings r5 = warnings r
          @ (if \<not> exists h ?br \<and> incremental r then [resume_warning r t] else []) @ ws"
    by (simp add: r5_def r4_def r3_def r2_def r1 log_warn_def resume_warning_def)
  have r5_rest: "map_of (transactions r5) key = Some (t\<lparr>merges := merges_left\<rparr>)"
    "last_commit_mark r5 = ?mark" "next_file_mark r5 = next_file_mark r"
    by (simp_all add: r5_def r4_def r3_def r2_def r1 log_warn_def)
  have r5_br: "commits (branch_value h (branches r5) k)
               = (if k = branch t then commits ?br @ [revnum t] else commits (branch_value h (branches r) k))
            \<and> marks (branch_value h (branches r5) k)
               = (if k = branch t then marks ?br @ [?mark] else marks (branch_value h (branches r) k))" for k
    by (simp add: r5_def r4_def r3_def r2_def r1 br'_def)
  show ?thesis
  proof (cases "add_metadata_notes opts")
    case False
    then have "Transaction_commit h opts r key = Inr (?mark, r5)" using main by simp
    moreover have "fastImport r5 = fastImport r1
          @ [commit_header t ?mark (commit_message opts t)]
          @ merge_lines @ deletion_lines t
          @ [modifiedFiles t, progress_line t ?mark desc] @ []"
      using r5_fi by simp
    ultimately show ?thesis using r5_warn r5_rest r5_br False by blast
  next
    case True
    have "starts_with (branch (t\<lparr>merges := merges_left\<rparr>)) ''refs/''" using refs by simp
    from Transaction_commitNote_result [OF r5_rest(1) this]
    obtain s bs where cn: "Transaction_commitNote h r5 key
        (formatMetadataMessage (svnprefix t) (revnum t) []) False []
          = Inr (r5\<lparr>fastImport := fastImport r5 @ [s], branches := bs\<rparr>)"
      and bs: "\<And>k. commits (branch_value h bs k) = commits (branch_value h (branches r5) k)
                 \<and> marks (branch_value h bs k) = marks (branch_value h (branches r5) k)"
      by blast
    let ?r6 = "r5\<lparr>fastImport := fastImport r5 @ [s], branches := bs\<rparr>"
    have "Transaction_commit h opts r key = Inr (?mark, ?r6)"
      using main True cn by simp
    moreover have "fastImport ?r6 = fastImport r1
          @ [commit_header t ?mark (commit_message opts t)]
          @ merge_lines @ deletion_lines t
          @ [modifiedFiles t, progress_line t ?mark desc] @ [s]"
      using r5_fi by simp
    moreover have "warnings ?r6 = warnings r5" "map_of (transactions ?r6) key = map_of (transactions r5) key"
      "last_commit_mark ?r6 = last_commit_mark r5" "next_file_mark ?r6 = next_file_mark r5"
      by simp_all
    moreover have "\<forall>k. commits (branch_value h (branches ?r6) k)
               = (if k = branch t then commits ?br @ [revnum t] else commits (branch_value h (branches r) k))
            \<and> marks (branch_value h (branches ?r6) k)
               = (if k = branch t then marks ?br @ [?mark] else marks (branch_value h (branches r) k))"
      using bs r5_br by simp
    ultimately show ?thesis using r5_warn r5_rest True
      apply (rule_tac x = ?r6 in exI)
      apply (rule_tac x = "[s]" in exI)
      apply simp
      done
  qed
qed

lemma example_cvs_facts:
  "map_of (transactions example_cvs_repo) ''refs/heads/b'' = Some example_cvs_txn"
  "startFastImport example_h example_opts example_cvs_repo = Inr example_cvs_repo"
  "last_commit_mark example_cvs_repo = 5" "next_file_mark example_cvs_repo = maxMark"
  "branch_value example_h (branches example_cvs_repo) ''refs/heads/b'' = example_branch_b"
  "fastImport example_cvs_repo = []" "warnings example_cvs_repo = []"
  "name example_cvs_repo = ''boost''" "incremental example_cvs_repo = False"
  by (simp_all add: example_cvs_repo_def startFastImport_def branch_value_def)

lemma example_txn_facts:
  "branch example_cvs_txn = ''refs/heads/b''" "merges example_cvs_txn = [5, 3]"
  "starts_with (branch example_cvs_txn) ''refs/''"
  "contains_str (log example_cvs_txn) cvs2svn_marker"
  "deletion_lines example_cvs_txn = []" "modifiedFiles example_cvs_txn = []"
  by (simp_all add: example_cvs_txn_def starts_with_def cvs2svn_marker_def deletion_lines_def)

lemma example_b_facts:
  "exists example_h example_branch_b" "marks example_branch_b = [5]"
  "parent_mark example_h example_branch_b = 5"
  by (simp_all add: example_h_def example_branch_b_def parent_mark_def)

text \<open>
  C7. When the log message of a transaction contains \<open>This commit was manufactured by
  cvs2svn\<close> and more than one merge mark is recorded, \<open>Transaction::commit\<close> (which
  returns whenever the process starts, the two mark counters have not met, the branch
  has a last mark if it exists and the ref name starts with \<open>refs/\<close>) writes, between
  the commit header and the deletions, the single line \<open>merge :<m>\<close> for the highest
  recorded mark \<open>m\<close>; the other marks are written nowhere and stay, sorted, in the
  transaction.
\<close>

theorem cvs2svn_commit_keeps_highest_merge:
  assumes "map_of (transactions r) key = Some t"
    and "startFastImport h opts r = Inr r1"
    and "last_commit_mark r + 1 < next_file_mark r - 1"
    and "\<not> (exists h (branch_value h (branches r) (branch t))
              \<and> marks (branch_value h (branches r) (branch t)) = [])"
    and "starts_with (branch t) ''refs/''"
    and cvs: "contains_str (log t) cvs2svn_marker"
    and many: "1 < length (merges t)"
  shows "\<exists>r' notes. Transaction_commit h opts r key = Inr (last_commit_mark r + 1, r')
     \<and> fastImport r' = fastImport r1
          @ [commit_header t (last_commit_mark r + 1) (commit_message opts t),
             ''merge :'' @ to_string (Max (set (merges t))) @ LF]
          @ deletion_lines t
          @ [modifiedFiles t, progress_line t (last_commit_mark r + 1) []] @ notes
     \<and> (\<not> add_metadata_notes opts \<longrightarrow> notes = [])
     \<and> map_of (transactions r') key = Some (t\<lparr>merges := butlast (sort (merges t))\<rparr>)"
proof -
  have ne: "merges t \<noteq> []" using many by auto
  have wmp: "write_merge_parents (name r) (parent_mark h (branch_value h (branches r) (branch t))) t
      = (butlast (sort (merges t)), [''merge :'' @ to_string (Max (set (merges t))) @ LF], [], [])"
    using cvs many by (simp add: write_merge_parents_def Let_def sorted_last_Max [OF ne])
  from Transaction_commit_result [OF assms(1-5) wmp]
  show ?thesis by fastforce
qed

theorem cvs2svn_commit_keeps_highest_merge_witness:
  "\<exists>r'. Transaction_commit example_h example_opts example_cvs_repo ''refs/heads/b'' = Inr (6, r')
     \<and> merges example_cvs_txn = [5, 3]
     \<and> fastImport r' =
          [commit_header example_cvs_txn 6 (commit_message example_opts example_cvs_txn),
           ''merge :5'' @ LF, [], progress_line example_cvs_txn 6 []]
     \<and> map_of (transactions r') ''refs/heads/b'' = Some (example_cvs_txn\<lparr>merges := [3]\<rparr>)"
proof -
  have room: "last_commit_mark example_cvs_repo + 1 < next_file_mark example_cvs_repo - 1"
    by (simp add: example_cvs_facts maxMark_def)
  have ne: "\<not> (exists example_h (branch_value example_h (branches example_cvs_repo) (branch example_cvs_txn))
      \<and> marks (branch_value example_h (branches example_cvs_repo) (branch example_cvs_txn)) = [])"
    by (simp add: example_txn_facts example_cvs_facts example_b_facts)
  have many: "1 < length (merges example_cvs_txn)" by (simp add: example_txn_facts)
  have mx: "to_string 5 = ''5''"
    by (simp add: to_string_def nat_to_string.simps digit_char_def)
  have no_notes: "\<not> add_metadata_notes example_opts" by (simp add: example_opts_def)
  have srt: "butlast (sort (merges example_cvs_txn)) = [3]"
    by (simp add: example_txn_facts)
  from cvs2svn_commit_keeps_highest_merge
         [OF example_cvs_facts(1) example_cvs_facts(2) room ne example_txn_facts(3)
             example_txn_facts(4) many]
  show ?thesis
    by (simp add: example_cvs_facts example_txn_facts no_notes mx srt)
qed

text \<open>
  C6, amended. A transaction commit that returns (see C7 for when it does; the
  recorded merges play no part in that) writes at most 16 parents, counting one for
  the parent mark when it is not zero (the last mark of a branch that exists) and one
  for each merge line. Outside the cvs2svn workaround of C7 the merge lines are those
  of the first recorded marks that differ from the parent mark, as many as the limit
  leaves room for; a mark equal to the parent mark is skipped, and when marks remain
  beyond the limit they are dropped and the warning \<open>too many merge parents\<close> is
  logged.
\<close>

theorem commit_writes_at_most_16_parents:
  assumes "map_of (transactions r) key = Some t"
    and "startFastImport h opts r = Inr r1"
    and "last_commit_mark r + 1 < next_file_mark r - 1"
    and "\<not> (exists h (branch_value h (branches r) (branch t))
              \<and> marks (branch_value h (branches r) (branch t)) = [])"
    and "starts_with (branch t) ''refs/''"
  shows "\<exists>r' merge_lines desc notes.
       Transaction_commit h opts r key = Inr (last_commit_mark r + 1, r')
     \<and> fastImport r' = fastImport r1
          @ [commit_header t (last_commit_mark r + 1) (commit_message opts t)]
          @ merge_lines @ deletion_lines t
          @ [modifiedFiles t, progress_line t (last_commit_mark r + 1) desc] @ notes
     \<and> (\<not> add_metadata_notes opts \<longrightarrow> notes = [])
     \<and> length merge_lines
          + (if parent_mark h (branch_value h (branches r) (branch t)) \<noteq> 0 then 1 else 0) \<le> 16
     \<and> (\<not> (contains_str (log t) cvs2svn_marker \<and> 1 < length (merges t)) \<longrightarrow>
           merge_lines = map (\<lambda>m. ''merge :'' @ to_string m @ LF)
              (take (16 - (if parent_mark h (branch_value h (branches r) (branch t)) \<noteq> 0 then 1 else 0))
                 (filter (\<lambda>m. m \<noteq> parent_mark h (branch_value h (branches r) (branch t))) (merges t)))
         \<and> warnings r' = warnings r
              @ (if \<not> exists h (branch_value h (branches r) (branch t)) \<and> incremental r
                 then [resume_warning r t] else [])
              @ (if 16 - (if parent_mark h (branch_value h (branches r) (branch t)) \<noteq> 0 then 1 else 0)
                     < length (filter (\<lambda>m. m \<noteq> parent_mark h (branch_value h (branches r) (branch t))) (merges t))
                 then [''too many merge parents in repository '' @ name r] else []))"
proof -
  let ?p = "parent_mark h (branch_value h (branches r) (branch t))"
  let ?i = "if ?p \<noteq> 0 then 1 else 0 :: nat"
  obtain ml lines desc ws where wmp: "write_merge_parents (name r) ?p t = (ml, lines, desc, ws)"
    by (cases "write_merge_parents (name r) ?p t")
  have i16: "?i \<le> 16" by simp
  have cap: "length lines + ?i \<le> 16"
  proof (cases "contains_str (log t) cvs2svn_marker \<and> 1 < length (merges t)")
    case True
    then have "lines = [''merge :'' @ to_string (last (sort (merges t))) @ LF]"
      using wmp by (simp add: write_merge_parents_def Let_def)
    then show ?thesis by simp
  next
    case False
    then have "lines = map (\<lambda>m. ''merge :'' @ to_string m @ LF) (take (16 - ?i) (filter (\<lambda>m. m \<noteq> ?p) (merges t)))"
      using wmp merge_loop_char [OF i16, of ?p "name r" "merges t"]
      by (auto simp: write_merge_parents_def Let_def split: if_splits)
    then show ?thesis by (auto split: if_splits)
  qed
  have plain: "lines = map (\<lambda>m. ''merge :'' @ to_string m @ LF) (take (16 - ?i) (filter (\<lambda>m. m \<noteq> ?p) (merges t)))
       \<and> ws = (if 16 - ?i < length (filter (\<lambda>m. m \<noteq> ?p) (merges t))
               then [''too many merge parents in repository '' @ name r] else [])"
    if "\<not> (contains_str (log t) cvs2svn_marker \<and> 1 < length (merges t))"
    using that wmp merge_loop_char [OF i16, of ?p "name r" "merges t"]
    by (auto simp: write_merge_parents_def Let_def split: if_splits)
  from Transaction_commit_result [OF assms wmp]
  obtain r' nts where res: "Transaction_commit h opts r key = Inr (last_commit_mark r + 1, r')"
     "fastImport r' = fastImport r1
          @ [commit_header t (last_commit_mark r + 1) (commit_message opts t)]
          @ lines @ deletion_lines t
          @ [modifiedFiles t, progress_line t (last_commit_mark r + 1) desc] @ nts"
     "\<not> add_metadata_notes opts \<longrightarrow> nts = []"
     "warnings r' = warnings r
          @ (if \<not> exists h (branch_value h (branches r) (branch t)) \<and> incremental r
             then [resume_warning r t] else []) @ ws"
    by blast
  show ?thesis
    apply (rule exI [of _ r'], rule exI [of _ lines], rule exI [of _ desc], rule exI [of _ nts])
    using res cap plain by simp
qed

lemma example_plain_facts:
  "map_of (transactions example_plain_repo) ''refs/heads/b'' = Some example_plain_txn"
  "startFastImport example_h example_opts example_plain_repo = Inr example_plain_repo"
  "last_commit_mark example_plain_repo = 5" "next_file_mark example_plain_repo = maxMark"
  "branch_value example_h (branches example_plain_repo) ''refs/heads/b'' = example_branch_b"
  "fastImport example_plain_repo = []" "warnings example_plain_repo = []"
  "name example_plain_repo = ''boost''" "incremental example_plain_repo = False"
  "branch example_plain_txn = ''refs/heads/b''" "merges example_plain_txn = [5, 3, 4]"
  "starts_with (branch example_plain_txn) ''refs/''"
  "\<not> contains_str (log example_plain_txn) cvs2svn_marker"
  "deletion_lines example_plain_txn = []" "modifiedFiles example_plain_txn = []"
  by (simp_all add: example_plain_repo_def example_plain_txn_def example_cvs_repo_def example_cvs_txn_def
      startFastImport_def branch_value_def starts_with_def cvs2svn_marker_def deletion_lines_def)

theorem commit_writes_at_most_16_parents_witness:
  "\<exists>r' desc. Transaction_commit example_h example_opts example_plain_repo ''refs/heads/b'' = Inr (6, r')
     \<and> merges example_plain_txn = [5, 3, 4]
     \<and> parent_mark example_h example_branch_b = 5
     \<and> fastImport r' =
          [commit_header example_plain_txn 6 (commit_message example_opts example_plain_txn),
           ''merge :3'' @ LF, ''merge :4'' @ LF, [], progress_line example_plain_txn 6 desc]
     \<and> warnings r' = []"
proof -
  have room: "last_commit_mark example_plain_repo + 1 < next_file_mark example_plain_repo - 1"
    by (simp add: example_plain_facts maxMark_def)
  have ne: "\<not> (exists example_h (branch_value example_h (branches example_plain_repo) (branch example_plain_txn))
      \<and> marks (branch_value example_h (branches example_plain_repo) (branch example_plain_txn)) = [])"
    by (simp add: example_plain_facts example_b_facts)
  have ts: "to_string 3 = ''3''" "to_string 4 = ''4''"
    by (simp_all add: to_string_def nat_to_string.simps digit_char_def)
  have no_notes: "\<not> add_metadata_notes example_opts" by (simp add: example_opts_def)
  from commit_writes_at_most_16_parents
         [OF example_plain_facts(1) example_plain_facts(2) room ne example_plain_facts(12)]
  show ?thesis
    by (simp add: example_plain_facts example_b_facts no_notes ts)
qed

text \<open>
  C6 as stated fails in the cvs2svn workaround: the highest recorded merge mark is
  written although it equals the parent mark.
\<close>

theorem merge_equal_to_parent_written_counterexample:
  "\<exists>r'. Transaction_commit example_h example_opts example_cvs_repo ''refs/heads/b'' = Inr (6, r')
     \<and> parent_mark example_h (branch_value example_h (branches example_cvs_repo) ''refs/heads/b'') = 5
     \<and> merges example_cvs_txn = [5, 3]
     \<and> fastImport r' ! 1 = ''merge :5'' @ LF"
proof -
  have room: "last_commit_mark example_cvs_repo + 1 < next_file_mark example_cvs_repo - 1"
    by (simp add: example_cvs_facts maxMark_def)
  have ne: "\<not> (exists example_h (branch_value example_h (branches example_cvs_repo) (branch example_cvs_txn))
      \<and> marks (branch_value example_h (branches example_cvs_repo) (branch example_cvs_txn)) = [])"
    by (simp add: example_txn_facts example_cvs_facts example_b_facts)
  have wmp: "write_merge_parents (name example_cvs_repo)
       (parent_mark example_h (branch_value example_h (branches example_cvs_repo) (branch example_cvs_txn)))
       example_cvs_txn = ([3], [''merge :5'' @ LF], [], [])"
    by (simp add: write_merge_parents_def example_txn_facts Let_def to_string_def
        nat_to_string.simps digit_char_def)
  from Transaction_commit_result
         [OF example_cvs_facts(1) example_cvs_facts(2) room ne example_txn_facts(3) wmp]
  show ?thesis
    by (auto simp: example_cvs_facts example_txn_facts example_b_facts)
qed

subsection \<open>Demanding a transaction\<close>

lemma demandTransaction_result:
  assumes "demandTransaction h opts r br svnpfx rn = Inr r'"
  shows "(map_of (transactions r) br \<noteq> None \<and> r' = r)
       \<or> (map_of (transactions r) br = None \<and>
           (\<exists>pre a b. r' = r\<lparr>transactions := omap_assign br
                  (new_Transaction\<lparr>branch := br, svnprefix := svnpfx, datetime := 0, revnum := rn\<rparr>)
                  (transactions r),
                commitCount := commitCount r + 1,
                processHasStarted := a, fastImport_running := b, fastImport := fastImport r @ pre\<rparr>))"
proof (cases "map_of (transactions r) br")
  case (Some t)
  then show ?thesis using assms by (simp add: demandTransaction_def)
next
  case None
  define txn where "txn = new_Transaction\<lparr>branch := br, svnprefix := svnpfx, datetime := 0, revnum := rn\<rparr>"
  define r1 where "r1 = r\<lparr>transactions := omap_assign br txn (transactions r), commitCount := commitCount r + 1\<rparr>"
  have cases: "(commitCount r1 smod commit_interval opts \<noteq> 0 \<and> r' = r1)
      \<or> (\<exists>r2. startFastImport h opts r1 = Inr r2 \<and> r' = fi_write (''checkpoint'' @ LF) r2)"
    using assms None
    by (auto simp: demandTransaction_def Let_def txn_def r1_def and_then_Inr_iff split: if_splits)
  then have "\<exists>pre a b. r' = r1\<lparr>processHasStarted := a, fastImport_running := b,
      fastImport := fastImport r1 @ pre\<rparr>"
  proof
    assume "commitCount r1 smod commit_interval opts \<noteq> 0 \<and> r' = r1"
    then have "r' = r1\<lparr>processHasStarted := processHasStarted r1, fastImport_running := fastImport_running r1,
      fastImport := fastImport r1 @ []\<rparr>" by simp
    then show ?thesis by blast
  next
    assume "\<exists>r2. startFastImport h opts r1 = Inr r2 \<and> r' = fi_write (''checkpoint'' @ LF) r2"
    then obtain r2 where s: "startFastImport h opts r1 = Inr r2" and r': "r' = fi_write (''checkpoint'' @ LF) r2"
      by blast
    from startFastImport_result [OF s] obtain pre a b where
      "r2 = r1\<lparr>processHasStarted := a, fastImport_running := b, fastImport := fastImport r1 @ pre\<rparr>"
      by blast
    then have "r' = r1\<lparr>processHasStarted := a, fastImport_running := b,
        fastImport := fastImport r1 @ (pre @ [''checkpoint'' @ LF])\<rparr>"
      using r' by (simp add: fi_write_def)
    then show ?thesis by blast
  qed
  then obtain pre a b where "r' = r1\<lparr>processHasStarted := a, fastImport_running := b,
      fastImport := fastImport r1 @ pre\<rparr>" by blast
  then have "r' = r\<lparr>transactions := omap_assign br txn (transactions r),
                commitCount := commitCount r + 1,
                processHasStarted := a, fastImport_running := b, fastImport := fastImport r @ pre\<rparr>"
    by (simp add: r1_def)
  then show ?thesis using None unfolding txn_def by blast
qed

text \<open>What a successful \<open>demandTransaction\<close> leaves untouched, and the transaction it gives.\<close>

lemma demandTransaction_frame:
  assumes "demandTransaction h opts r br svnpfx rn = Inr r'"
  shows "branches r' = branches r" "last_commit_mark r' = last_commit_mark r"
    "next_file_mark r' = next_file_mark r" "deletedBranches r' = deletedBranches r"
    "resetBranches r' = resetBranches r" "warnings r' = warnings r" "name r' = name r"
    "prefix r' = prefix r" "submodule_in_repo r' = submodule_in_repo r"
    "submodule_path r' = submodule_path r" "incremental r' = incremental r"
    "\<exists>pre. fastImport r' = fastImport r @ pre"
    "\<And>k. k \<noteq> br \<Longrightarrow> map_of (transactions r') k = map_of (transactions r) k"
    "map_of (transactions r') br = Some (case map_of (transactions r) br of Some t \<Rightarrow> t
       | None \<Rightarrow> new_Transaction\<lparr>branch := br, svnprefix := svnpfx, datetime := 0, revnum := rn\<rparr>)"
  using demandTransaction_result [OF assms]
  by (auto simp: map_of_omap_assign)

subsection \<open>Decimal numerals\<close>

lemma digit_char_props:
  assumes "d < 10"
  shows "is_digit (digit_char d)" and "of_char (digit_char d) - 48 = d"
proof -
  from assms have "d = 0 \<or> d = 1 \<or> d = 2 \<or> d = 3 \<or> d = 4 \<or> d = 5 \<or> d = 6 \<or> d = 7 \<or> d = 8 \<or> d = 9"
    by arith
  then show "is_digit (digit_char d)" and "of_char (digit_char d) - 48 = d"
    by (auto simp: digit_char_def is_digit_def)
qed

lemma decimal_value_snoc: "decimal_value (s @ [c]) = 10 * decimal_value s + (of_char c - 48)"
  by (simp add: decimal_value_def)

lemma nat_to_string_digits: "\<forall>c\<in>set (nat_to_string n). is_digit c"
proof (induction n rule: nat_to_string.induct)
  case (1 n)
  show ?case
  proof (cases "n < 10")
    case True
    then show ?thesis by (simp add: nat_to_string.simps [of n] digit_char_props)
  next
    case False
    then show ?thesis using 1 by (simp add: nat_to_string.simps [of n] digit_char_props)
  qed
qed

lemma decimal_value_nat_to_string: "decimal_value (nat_to_string n) = n"
proof (induction n rule: nat_to_string.induct)
  case (1 n)
  show ?case
  proof (cases "n < 10")
    case True
    then show ?thesis
      using decimal_value_snoc [of "[]" "digit_char n"]
      by (simp add: nat_to_string.simps [of n] digit_char_props decimal_value_def)
  next
    case False
    then have "decimal_value (nat_to_string (n div 10)) = n div 10" using 1 by simp
    then show ?thesis
      using False by (simp add: nat_to_string.simps [of n] decimal_value_snoc digit_char_props)
  qed
qed

lemma length_nat_to_string: "n < 10 ^ k \<Longrightarrow> 0 < k \<Longrightarrow> length (nat_to_string n) \<le> k"
proof (induction n arbitrary: k rule: nat_to_string.induct)
  case (1 n)
  show ?case
  proof (cases "n < 10")
    case True
    then show ?thesis using 1(3) by (simp add: nat_to_string.simps [of n])
  next
    case False
    obtain j where k: "k = Suc j" using 1(3) by (cases k) auto
    have "j \<noteq> 0" using False 1(2) k by (cases j) auto
    moreover have "n div 10 < 10 ^ j" using 1(2) k by (simp add: less_mult_imp_div_less mult.commute)
    ultimately have "length (nat_to_string (n div 10)) \<le> j" using 1(1) [OF False, of j] by simp
    then show ?thesis using False k by (simp add: nat_to_string.simps [of n])
  qed
qed

lemma decimal_value_zeros: "decimal_value (replicate k CHR ''0'' @ s) = decimal_value s"
proof -
  have "foldl (\<lambda>a c. 10 * a + (of_char c - 48)) 0 (replicate k CHR ''0'') = (0::nat)"
    by (induction k) simp_all
  then show ?thesis by (simp add: decimal_value_def)
qed

text \<open>The placeholder of \<open>updateSubmodule\<close> for a mark that an \<open>int\<close> can hold.\<close>

lemma to_string_pos: "0 \<le> m \<Longrightarrow> to_string m = nat_to_string (nat m)"
  by (simp add: to_string_def)

lemma int_range_digits:
  assumes "0 < m" and "m < (2147483648::int)"
  shows "length (nat_to_string (nat m)) \<le> 10"
proof -
  have "nat m < 10000000000" using assms by linarith
  then have "nat m < 10 ^ 10" by simp
  then show ?thesis by (rule length_nat_to_string) simp
qed

lemma fake_sha_props:
  assumes "0 < m" and "m < (2147483648::int)"
  shows "length (replicate (40 - length (to_string m)) CHR ''0'' @ to_string m) = 40"
    and "\<forall>c\<in>set (replicate (40 - length (to_string m)) CHR ''0'' @ to_string m). is_digit c"
    and "int (decimal_value (replicate (40 - length (to_string m)) CHR ''0'' @ to_string m)) = m"
proof -
  have ts: "to_string m = nat_to_string (nat m)" using assms by (simp add: to_string_pos)
  have len: "length (nat_to_string (nat m)) \<le> 10" using assms by (rule int_range_digits)
  show "length (replicate (40 - length (to_string m)) CHR ''0'' @ to_string m) = 40"
    unfolding ts using len by simp
  have z: "is_digit CHR ''0''" by (simp add: is_digit_def)
  show "\<forall>c\<in>set (replicate (40 - length (to_string m)) CHR ''0'' @ to_string m). is_digit c"
    unfolding ts using nat_to_string_digits [of "nat m"] z by auto
  have "decimal_value (replicate (40 - length (to_string m)) CHR ''0'' @ to_string m) = nat m"
    unfolding ts by (simp only: decimal_value_zeros decimal_value_nat_to_string)
  then show "int (decimal_value (replicate (40 - length (to_string m)) CHR ''0'' @ to_string m)) = m"
    using assms by simp
qed

subsection \<open>A change of a submodule\<close>

lemma submoduleChanged_absent:
  assumes "map_of (submodules (branch_value h (branches (H this)) (git_ref_name branchRule)))
             (submodule_path (H submodule)) = None"
  shows "submoduleChanged h opts H this submodule branchRule 0 rn
           = Inr (H(this := (H this)\<lparr>branches := branch_access h (git_ref_name branchRule) (branches (H this))\<rparr>))"
  using assms by (simp add: submoduleChanged_def Let_def)

lemma branch_access_present:
  "map_of bs k \<noteq> None \<Longrightarrow> branch_access h k bs = bs"
  by (auto simp: branch_access_def branch_value_def update_triv)

text \<open>
  What \<open>submoduleChanged\<close> does when it does not return early: the transaction of the
  ref before the change (\<open>t0\<close>, a new one when there was none) gets a deletion or a
  gitlink line.
\<close>

lemma submoduleChanged_result:
  assumes res: "submoduleChanged h opts H this submodule branchRule mark rn = Inr H'"
    and go: "mark \<noteq> 0 \<or> map_of (submodules (branch_value h (branches (H this)) (git_ref_name branchRule)))
               (submodule_path (H submodule)) \<noteq> None"
  shows "\<exists>r'. H' = H(this := r')
     \<and> submodules (branch_value h (branches r') (git_ref_name branchRule))
         = (if mark = 0
            then AList.delete (submodule_path (H submodule))
                   (submodules (branch_value h (branches (H this)) (git_ref_name branchRule)))
            else omap_assign (submodule_path (H submodule)) submodule
                   (submodules (branch_value h (branches (H this)) (git_ref_name branchRule))))
     \<and> lastSubmoduleListChangeRev (branch_value h (branches r') (git_ref_name branchRule)) = rn
     \<and> (\<exists>t0. t0 = (case map_of (transactions (H this)) (git_ref_name branchRule) of
                      Some t \<Rightarrow> t
                    | None \<Rightarrow> new_Transaction\<lparr>branch := git_ref_name branchRule, svnprefix := [],
                                datetime := 0, revnum := rn\<rparr>)
          \<and> map_of (transactions r') (git_ref_name branchRule)
              = Some (if mark = 0
                      then t0\<lparr>deletedFiles := deletedFiles t0 @
                             [if ends_with (prefix (H this) @ submodule_path (H submodule)) ''/''
                              then butlast (prefix (H this) @ submodule_path (H submodule))
                              else prefix (H this) @ submodule_path (H submodule)]\<rparr>
                      else t0\<lparr>modifiedFiles := modifiedFiles t0 @ ''M 160000 ''
                             @ replicate (40 - length (to_string mark)) CHR ''0'' @ to_string mark
                             @ '' '' @ submodule_path (H submodule) @ LF\<rparr>))
     \<and> (\<forall>k. k \<noteq> git_ref_name branchRule \<longrightarrow>
            map_of (transactions r') k = map_of (transactions (H this)) k
          \<and> branch_value h (branches r') k = branch_value h (branches (H this)) k)
     \<and> commits (branch_value h (branches r') (git_ref_name branchRule))
          = commits (branch_value h (branches (H this)) (git_ref_name branchRule))
     \<and> marks (branch_value h (branches r') (git_ref_name branchRule))
          = marks (branch_value h (branches (H this)) (git_ref_name branchRule))
     \<and> lastChangeRev (branch_value h (branches r') (git_ref_name branchRule))
          = lastChangeRev (branch_value h (branches (H this)) (git_ref_name branchRule))
     \<and> deletedBranches r' = deletedBranches (H this) \<and> resetBranches r' = resetBranches (H this)
     \<and> last_commit_mark r' = last_commit_mark (H this) \<and> next_file_mark r' = next_file_mark (H this)
     \<and> warnings r' = warnings (H this) \<and> name r' = name (H this)
     \<and> submodule_in_repo r' = submodule_in_repo (H this)
     \<and> submodule_path r' = submodule_path (H this)
     \<and> (\<exists>pre. fastImport r' = fastImport (H this) @ pre)"
proof -
  let ?ref = "git_ref_name branchRule"
  let ?sp = "submodule_path (H submodule)"
  let ?b = "branch_value h (branches (H this)) ?ref"
  define r where "r = (H this)\<lparr>branches := branch_access h ?ref (branches (H this))\<rparr>"
  define subs where "subs = (if mark = 0 then AList.delete ?sp (submodules ?b)
                        else omap_assign ?sp submodule (submodules ?b))"
  define r1 where "r1 = r\<lparr>branches := AList.update ?ref (?b\<lparr>submodules := subs\<rparr>) (branches r)\<rparr>"
  have early: "\<not> (mark = 0 \<and> map_of (submodules ?b) ?sp = None)" using go by auto
  from res early obtain r2 r3 where
    dt: "demandTransaction h opts r1 ?ref [] rn = Inr r2"
    and tx: "(if mark = 0 then Transaction_deleteFile r2 ?ref ?sp
              else Transaction_updateSubmodule r2 ?ref ?sp mark) = Inr r3"
    and H': "H' = H(this := r3\<lparr>branches := AList.update ?ref
               ((branch_value h (branches r3) ?ref)\<lparr>lastSubmoduleListChangeRev := rn\<rparr>) (branches r3)\<rparr>)"
  proof -
    have bacc: "branch_value h (branch_access h ?ref (branches (H this))) ?ref = ?b" by simp
    have "and_then (demandTransaction h opts r1 ?ref [] rn)
                 (\<lambda>r2. and_then
                    (if mark = 0 then Transaction_deleteFile r2 ?ref ?sp
                     else Transaction_updateSubmodule r2 ?ref ?sp mark)
                    (\<lambda>r3. Inr (H(this := r3\<lparr>branches := AList.update ?ref
                                   ((branch_value h (branches r3) ?ref)\<lparr>lastSubmoduleListChangeRev := rn\<rparr>)
                                   (branches r3)\<rparr>)))) = Inr H'"
    proof (cases "mark = 0")
      case True
      with go have "map_of (submodules ?b) ?sp \<noteq> None" by simp
      with res True show ?thesis
        unfolding submoduleChanged_def Let_def r1_def r_def subs_def by (simp add: bacc)
    next
      case False
      with res show ?thesis
        unfolding submoduleChanged_def Let_def r1_def r_def subs_def by (simp add: bacc)
    qed
    then show ?thesis
      unfolding and_then_Inr_iff using that by blast
  qed
  note fr = demandTransaction_frame [OF dt]
  define t0 where "t0 = (case map_of (transactions (H this)) ?ref of Some t \<Rightarrow> t
       | None \<Rightarrow> new_Transaction\<lparr>branch := ?ref, svnprefix := [], datetime := 0, revnum := rn\<rparr>)"
  have r1_tx: "transactions r1 = transactions (H this)" by (simp add: r1_def r_def)
  have t0: "map_of (transactions r2) ?ref = Some t0"
    using fr(14) by (simp add: r1_tx t0_def)
  define t1 where "t1 = (if mark = 0
                      then t0\<lparr>deletedFiles := deletedFiles t0 @
                             [if ends_with (prefix (H this) @ ?sp) ''/''
                              then butlast (prefix (H this) @ ?sp)
                              else prefix (H this) @ ?sp]\<rparr>
                      else t0\<lparr>modifiedFiles := modifiedFiles t0 @ ''M 160000 ''
                             @ replicate (40 - length (to_string mark)) CHR ''0'' @ to_string mark
                             @ '' '' @ ?sp @ LF\<rparr>)"
  have pfx: "prefix r2 = prefix (H this)" using fr(8) by (simp add: r1_def r_def)
  have r3: "r3 = set_txn ?ref t1 r2"
    using tx t0
    by (auto simp: Transaction_deleteFile_def Transaction_updateSubmodule_def with_txn_def Let_def
        t1_def pfx split: if_splits)
  define r' where "r' = r3\<lparr>branches := AList.update ?ref
               ((branch_value h (branches r3) ?ref)\<lparr>lastSubmoduleListChangeRev := rn\<rparr>) (branches r3)\<rparr>"
  have br3: "branches r3 = branches r1" using fr(1) by (simp add: r3)
  have bv: "branch_value h (branches r') k =
      (if k = ?ref then ?b\<lparr>submodules := subs, lastSubmoduleListChangeRev := rn\<rparr>
       else branch_value h (branches (H this)) k)" for k
    by (simp add: r'_def br3 r1_def r_def)
  have txs: "map_of (transactions r') k = (if k = ?ref then Some t1 else map_of (transactions (H this)) k)" for k
    using fr(13) [of k] by (simp add: r'_def r3 r1_tx)
  obtain pre where pre: "fastImport r2 = fastImport r1 @ pre" using fr(12) by blast
  have rest: "deletedBranches r' = deletedBranches (H this)" "resetBranches r' = resetBranches (H this)"
    "last_commit_mark r' = last_commit_mark (H this)" "next_file_mark r' = next_file_mark (H this)"
    "warnings r' = warnings (H this)" "name r' = name (H this)"
    "submodule_in_repo r' = submodule_in_repo (H this)" "submodule_path r' = submodule_path (H this)"
    "fastImport r' = fastImport (H this) @ pre"
    using fr pre by (simp_all add: r'_def r3 r1_def r_def)
  have "H' = H(this := r')" using H' by (simp add: r'_def)
  moreover have "\<exists>t0'. t0' = (case map_of (transactions (H this)) ?ref of Some t \<Rightarrow> t
                    | None \<Rightarrow> new_Transaction\<lparr>branch := ?ref, svnprefix := [], datetime := 0, revnum := rn\<rparr>)
          \<and> map_of (transactions r') ?ref
              = Some (if mark = 0
                      then t0'\<lparr>deletedFiles := deletedFiles t0' @
                             [if ends_with (prefix (H this) @ ?sp) ''/''
                              then butlast (prefix (H this) @ ?sp)
                              else prefix (H this) @ ?sp]\<rparr>
                      else t0'\<lparr>modifiedFiles := modifiedFiles t0' @ ''M 160000 ''
                             @ replicate (40 - length (to_string mark)) CHR ''0'' @ to_string mark
                             @ '' '' @ ?sp @ LF\<rparr>)"
    using txs [of ?ref] unfolding t1_def t0_def by simp
  ultimately show ?thesis
    apply (intro exI [of _ r'])
    apply (simp only: bv txs rest)
    apply (simp add: subs_def)
    done
qed

subsection \<open>When a change of a submodule returns\<close>

lemma demandTransaction_succeeds:
  assumes "map_of (transactions r) br \<noteq> None
     \<or> (starts_with br ''refs/'' \<and> commit_interval opts \<noteq> 0
        \<and> ((commitCount r + 1) smod commit_interval opts \<noteq> 0 \<or> fastImport_running r))"
  shows "\<exists>r'. demandTransaction h opts r br svnpfx rn = Inr r'"
proof (cases "map_of (transactions r) br")
  case (Some t)
  then show ?thesis by (simp add: demandTransaction_def)
next
  case None
  with assms have a: "starts_with br ''refs/''" "commit_interval opts \<noteq> 0"
    "(commitCount r + 1) smod commit_interval opts \<noteq> 0 \<or> fastImport_running r" by auto
  show ?thesis
  proof (cases "(commitCount r + 1) smod commit_interval opts = 0")
    case True
    with a(3) have "fastImport_running r" by simp
    with None a(1,2) True show ?thesis
      by (simp add: demandTransaction_def Let_def startFastImport_def)
  next
    case False
    with None a(1,2) show ?thesis by (simp add: demandTransaction_def Let_def)
  qed
qed

lemma submoduleChanged_succeeds:
  assumes "map_of (transactions (H this)) (git_ref_name branchRule) \<noteq> None
     \<or> (starts_with (git_ref_name branchRule) ''refs/'' \<and> commit_interval opts \<noteq> 0
        \<and> ((commitCount (H this) + 1) smod commit_interval opts \<noteq> 0 \<or> fastImport_running (H this)))"
  shows "\<exists>H'. submoduleChanged h opts H this submodule branchRule mark rn = Inr H'"
proof -
  let ?ref = "git_ref_name branchRule"
  have step: "\<exists>H'. and_then (demandTransaction h opts r1 ?ref [] rn)
                 (\<lambda>r2. and_then (g r2) (\<lambda>r3. Inr (f r3))) = Inr H'"
    if r1: "transactions r1 = transactions (H this)" "commitCount r1 = commitCount (H this)"
       "fastImport_running r1 = fastImport_running (H this)"
      and g: "\<And>r2 t. map_of (transactions r2) ?ref = Some t \<Longrightarrow> \<exists>r3. g r2 = Inr r3"
    for r1 and g :: "Repository \<Rightarrow> failure + Repository" and f :: "Repository \<Rightarrow> store"
  proof -
    from assms obtain r2 where dt: "demandTransaction h opts r1 ?ref [] rn = Inr r2"
      using demandTransaction_succeeds [of r1 ?ref opts h "[]" rn] by (auto simp: r1)
    from demandTransaction_frame(14) [OF dt] obtain t where t: "map_of (transactions r2) ?ref = Some t"
      by blast
    from g [OF t] obtain r3 where "g r2 = Inr r3" by blast
    then show ?thesis by (simp add: dt)
  qed
  have del: "\<exists>r3. Transaction_deleteFile r2 ?ref sp = Inr r3"
    if "map_of (transactions r2) ?ref = Some t" for r2 t sp
    using that by (simp add: Transaction_deleteFile_def with_txn_def Let_def)
  have upd: "\<exists>r3. Transaction_updateSubmodule r2 ?ref sp mark = Inr r3"
    if "map_of (transactions r2) ?ref = Some t" for r2 t sp
    using that by (simp add: Transaction_updateSubmodule_def with_txn_def Let_def)
  show ?thesis
  proof (cases "mark = 0")
    case True
    then show ?thesis
      unfolding submoduleChanged_def Let_def
      by (auto intro!: step del)
  next
    case False
    then show ?thesis
      unfolding submoduleChanged_def Let_def
      by (auto intro!: step upd)
  qed
qed

text \<open>
  C8, amended. \<open>submoduleChanged\<close> on the parent returns when the parent has a
  transaction on the ref or one can be made (the ref name starts with \<open>refs/\<close>, the
  commit interval is not zero, and no checkpoint is due or the process runs). Unless it
  returns early (mark zero and no entry at the path, see C10), it touches the parent
  only, stores the child at the path of the branch's submodule map (erases the entry
  when the mark is zero), gives the ref a transaction (the one it had, else a new one),
  and sets the branch's last submodule-list change revision. For a mark that is not
  zero it appends to the modified files of the transaction the gitlink line
  \<open>M 160000 <sha> <path>\<close>, where \<open><sha>\<close> has exactly 40 characters, all decimal
  digits, and reads as the mark. For the mark zero it appends no gitlink line: it
  queues the deletion of the path.
\<close>

theorem submoduleChanged_queues_gitlink:
  assumes "map_of (transactions (H this)) (git_ref_name branchRule) \<noteq> None
     \<or> (starts_with (git_ref_name branchRule) ''refs/'' \<and> commit_interval opts \<noteq> 0
        \<and> ((commitCount (H this) + 1) smod commit_interval opts \<noteq> 0 \<or> fastImport_running (H this)))"
    and "mark \<noteq> 0 \<or> map_of (submodules (branch_value h (branches (H this)) (git_ref_name branchRule)))
               (submodule_path (H submodule)) \<noteq> None"
    and "0 \<le> mark" and "mark < 2147483648"
  shows "\<exists>H' t0. submoduleChanged h opts H this submodule branchRule mark rn = Inr H'
     \<and> (\<forall>p. p \<noteq> this \<longrightarrow> H' p = H p)
     \<and> submodules (branch_value h (branches (H' this)) (git_ref_name branchRule))
         = (if mark = 0
            then AList.delete (submodule_path (H submodule))
                   (submodules (branch_value h (branches (H this)) (git_ref_name branchRule)))
            else omap_assign (submodule_path (H submodule)) submodule
                   (submodules (branch_value h (branches (H this)) (git_ref_name branchRule))))
     \<and> t0 = (case map_of (transactions (H this)) (git_ref_name branchRule) of
               Some t \<Rightarrow> t
             | None \<Rightarrow> new_Transaction\<lparr>branch := git_ref_name branchRule, svnprefix := [],
                         datetime := 0, revnum := rn\<rparr>)
     \<and> (mark \<noteq> 0 \<longrightarrow>
          (\<exists>sha. map_of (transactions (H' this)) (git_ref_name branchRule)
                   = Some (t0\<lparr>modifiedFiles := modifiedFiles t0 @ ''M 160000 '' @ sha @ '' ''
                                 @ submodule_path (H submodule) @ LF\<rparr>)
             \<and> length sha = 40 \<and> (\<forall>c\<in>set sha. is_digit c) \<and> int (decimal_value sha) = mark))
     \<and> (mark = 0 \<longrightarrow>
          map_of (transactions (H' this)) (git_ref_name branchRule)
            = Some (t0\<lparr>deletedFiles := deletedFiles t0 @
                        [if ends_with (prefix (H this) @ submodule_path (H submodule)) ''/''
                         then butlast (prefix (H this) @ submodule_path (H submodule))
                         else prefix (H this) @ submodule_path (H submodule)]\<rparr>))
     \<and> lastSubmoduleListChangeRev (branch_value h (branches (H' this)) (git_ref_name branchRule)) = rn"
proof -
  from assms(1) submoduleChanged_succeeds [of H this branchRule opts h submodule mark rn]
  obtain H' where res: "submoduleChanged h opts H this submodule branchRule mark rn = Inr H'"
    by blast
  from submoduleChanged_result [OF res assms(2)] obtain r' t0 where r:
    "H' = H(this := r')"
    "submodules (branch_value h (branches r') (git_ref_name branchRule))
         = (if mark = 0
            then AList.delete (submodule_path (H submodule))
                   (submodules (branch_value h (branches (H this)) (git_ref_name branchRule)))
            else omap_assign (submodule_path (H submodule)) submodule
                   (submodules (branch_value h (branches (H this)) (git_ref_name branchRule))))"
    "lastSubmoduleListChangeRev (branch_value h (branches r') (git_ref_name branchRule)) = rn"
    "t0 = (case map_of (transactions (H this)) (git_ref_name branchRule) of
                      Some t \<Rightarrow> t
                    | None \<Rightarrow> new_Transaction\<lparr>branch := git_ref_name branchRule, svnprefix := [],
                                datetime := 0, revnum := rn\<rparr>)"
    "map_of (transactions r') (git_ref_name branchRule)
              = Some (if mark = 0
                      then t0\<lparr>deletedFiles := deletedFiles t0 @
                             [if ends_with (prefix (H this) @ submodule_path (H submodule)) ''/''
                              then butlast (prefix (H this) @ submodule_path (H submodule))
                              else prefix (H this) @ submodule_path (H submodule)]\<rparr>
                      else t0\<lparr>modifiedFiles := modifiedFiles t0 @ ''M 160000 ''
                             @ replicate (40 - length (to_string mark)) CHR ''0'' @ to_string mark
                             @ '' '' @ submodule_path (H submodule) @ LF\<rparr>)"
    by blast
  have sha: "\<exists>sha. map_of (transactions r') (git_ref_name branchRule)
                   = Some (t0\<lparr>modifiedFiles := modifiedFiles t0 @ ''M 160000 '' @ sha @ '' ''
                                 @ submodule_path (H submodule) @ LF\<rparr>)
             \<and> length sha = 40 \<and> (\<forall>c\<in>set sha. is_digit c) \<and> int (decimal_value sha) = mark"
    if "mark \<noteq> 0"
  proof -
    from that assms(3) have pos: "0 < mark" by simp
    show ?thesis
      apply (rule exI [of _ "replicate (40 - length (to_string mark)) CHR ''0'' @ to_string mark"])
      using r(5) that fake_sha_props [OF pos assms(4)] by simp
  qed
  show ?thesis
    apply (rule exI [of _ H'], rule exI [of _ t0])
    using res r(2,3,4) r(5) sha by (simp add: r(1))
qed

lemma example_store_facts:
  "example_store 0 = example_super" "example_store 8 = example_child"
  "example_linked_store 8 = example_child" "example_bare_store 8 = example_child"
  "git_ref_name example_rule = ''refs/heads/b''"
  "starts_with ''refs/heads/b'' ''refs/''"
  "commit_interval example_opts = 10000"
  "submodule_path example_child = ''libs/child''"
  "transactions example_super = []" "commitCount example_super = 6"
  "fastImport_running example_super" "prefix example_super = []"
  "branch_value example_h (branches example_super) ''refs/heads/b'' = example_branch_b"
  "submodules example_branch_b = []"
  by (simp_all add: example_store_def example_linked_store_def example_bare_store_def
      example_rule_def git_ref_name_def starts_with_def example_opts_def example_child_def
      example_super_def branch_value_def example_branch_b_def)

lemma example_linked_facts:
  "transactions (example_linked_store 0) = []" "commitCount (example_linked_store 0) = 6"
  "fastImport_running (example_linked_store 0)" "prefix (example_linked_store 0) = []"
  "submodules (branch_value example_h (branches (example_linked_store 0)) ''refs/heads/b'')
     = [(''libs/child'', 8)]"
  by (simp_all add: example_linked_store_def example_super_def branch_value_def)

lemma example_bare_facts:
  "branches (example_bare_store 0) = [(''refs/heads/master'', example_master_branch)]"
  "submodules (new_Branch example_h) = []"
  by (simp_all add: example_bare_store_def new_Branch_def)

theorem submoduleChanged_queues_gitlink_witness:
  "\<exists>H' sha. submoduleChanged example_h example_opts example_store 0 8 example_rule 7 9 = Inr H'
     \<and> submodules (branch_value example_h (branches (H' 0)) ''refs/heads/b'') = [(''libs/child'', 8)]
     \<and> map_of (transactions (H' 0)) ''refs/heads/b''
          = Some (new_Transaction\<lparr>branch := ''refs/heads/b'', svnprefix := [], datetime := 0, revnum := 9,
                    modifiedFiles := ''M 160000 '' @ sha @ '' libs/child'' @ LF\<rparr>)
     \<and> length sha = 40 \<and> int (decimal_value sha) = 7
     \<and> lastSubmoduleListChangeRev (branch_value example_h (branches (H' 0)) ''refs/heads/b'') = 9"
proof -
  have nt: "modifiedFiles new_Transaction = []" by (simp add: new_Transaction_def)
  from submoduleChanged_queues_gitlink [of example_store 0 example_rule example_opts 7 example_h 8 9]
  show ?thesis
    by (simp add: example_store_facts nt) blast
qed

text \<open>
  Against C8 as stated: the branch \<open>refs/heads/b\<close> of the parent holds the child at
  \<open>libs/child\<close>, and the child's branch is deleted (mark zero). The transaction of the
  ref gets the deletion of \<open>libs/child\<close>; no gitlink line is queued.
\<close>

theorem submodule_deletion_queues_no_gitlink_counterexample:
  "\<exists>H'. submoduleChanged example_h example_opts example_linked_store 0 8 example_rule 0 9 = Inr H'
     \<and> submodules (branch_value example_h (branches (H' 0)) ''refs/heads/b'') = []
     \<and> map_of (transactions (H' 0)) ''refs/heads/b''
          = Some (new_Transaction\<lparr>branch := ''refs/heads/b'', svnprefix := [], datetime := 0, revnum := 9,
                    deletedFiles := [''libs/child'']\<rparr>)
     \<and> modifiedFiles (new_Transaction\<lparr>branch := ''refs/heads/b'', svnprefix := [], datetime := 0,
                         revnum := 9, deletedFiles := [''libs/child'']\<rparr>) = []"
proof -
  have can: "map_of (transactions (example_linked_store 0)) (git_ref_name example_rule) \<noteq> None
     \<or> (starts_with (git_ref_name example_rule) ''refs/'' \<and> commit_interval example_opts \<noteq> 0
        \<and> ((commitCount (example_linked_store 0) + 1) smod commit_interval example_opts \<noteq> 0
           \<or> fastImport_running (example_linked_store 0)))"
    by (simp add: example_store_facts example_linked_facts)
  from can submoduleChanged_succeeds [of example_linked_store 0 example_rule example_opts example_h 8 0 9]
  obtain H' where res:
    "submoduleChanged example_h example_opts example_linked_store 0 8 example_rule 0 9 = Inr H'"
    by blast
  have go: "(0::int) \<noteq> 0 \<or> map_of (submodules (branch_value example_h (branches (example_linked_store 0))
      (git_ref_name example_rule))) (submodule_path (example_linked_store 8)) \<noteq> None"
    by (simp add: example_store_facts example_linked_facts)
  have nt: "modifiedFiles new_Transaction = []" "deletedFiles new_Transaction = []"
    by (simp_all add: new_Transaction_def)
  from submoduleChanged_result [OF res go] res
  show ?thesis
    by (auto simp: example_store_facts example_linked_facts nt ends_with_def)
qed

lemma update_absent: "k \<notin> fst ` set xs \<Longrightarrow> AList.update k v xs = xs @ [(k, v)]"
  by (induction xs) auto

text \<open>
  C10, amended. \<open>submoduleChanged\<close> with mark zero, when the branch's submodule map has
  no entry at the child's path, returns early: no other repository changes, and in the
  parent nothing changes but the branch table, by the access \<open>branches[ref]\<close>. So no
  transaction is made, no deletion is queued, and every branch reads as before (its
  submodule map and last submodule-list change revision included). When the table
  holds the ref, nothing at all changes; when it does not, it holds it afterwards, with
  a default-constructed branch.
\<close>

theorem submodule_deletion_without_entry_returns_early:
  assumes "map_of (submodules (branch_value h (branches (H this)) (git_ref_name branchRule)))
             (submodule_path (H submodule)) = None"
  shows "\<exists>H'. submoduleChanged h opts H this submodule branchRule 0 rn = Inr H'
     \<and> (\<forall>p. p \<noteq> this \<longrightarrow> H' p = H p)
     \<and> H' this = (H this)\<lparr>branches := branch_access h (git_ref_name branchRule) (branches (H this))\<rparr>
     \<and> transactions (H' this) = transactions (H this)
     \<and> (\<forall>k. branch_value h (branches (H' this)) k = branch_value h (branches (H this)) k)
     \<and> (branchExists (H this) (git_ref_name branchRule) \<longrightarrow> H' = H)
     \<and> (\<not> branchExists (H this) (git_ref_name branchRule) \<longrightarrow>
          branches (H' this) = branches (H this) @ [(git_ref_name branchRule, new_Branch h)])"
proof -
  let ?ref = "git_ref_name branchRule"
  let ?H' = "H(this := (H this)\<lparr>branches := branch_access h ?ref (branches (H this))\<rparr>)"
  have res: "submoduleChanged h opts H this submodule branchRule 0 rn = Inr ?H'"
    using assms by (rule submoduleChanged_absent)
  have bv: "branch_value h (branch_access h ?ref (branches (H this))) k = branch_value h (branches (H this)) k" for k
    by (cases "k = ?ref") (simp_all add: branch_access_def)
  have same: "?H' = H" if "branchExists (H this) ?ref"
  proof -
    from that have "branch_access h ?ref (branches (H this)) = branches (H this)"
      by (simp add: branchExists_def qh_contains_def branch_access_present)
    then show ?thesis by simp
  qed
  have new: "branch_access h ?ref (branches (H this)) = branches (H this) @ [(?ref, new_Branch h)]"
    if "\<not> branchExists (H this) ?ref"
  proof -
    from that have none: "map_of (branches (H this)) ?ref = None"
      by (simp add: branchExists_def qh_contains_def)
    then have "?ref \<notin> fst ` set (branches (H this))" by (simp add: map_of_eq_None_iff)
    then show ?thesis using none
      by (simp add: branch_access_def branch_value_def update_absent)
  qed
  show ?thesis
    apply (rule exI [of _ ?H'])
    using res bv same new by simp
qed

theorem submodule_deletion_without_entry_returns_early_witness:
  "submoduleChanged example_h example_opts example_store 0 8 example_rule 0 9 = Inr example_store
     \<and> branchExists (example_store 0) ''refs/heads/b''"
proof -
  have ex: "branchExists (example_store 0) ''refs/heads/b''"
    by (simp add: branchExists_def qh_contains_def example_store_def example_super_def)
  from submodule_deletion_without_entry_returns_early
         [of example_h example_store 0 example_rule 8 example_opts 9]
  show ?thesis
    using ex by (auto simp: example_store_facts)
qed

text \<open>
  Against C10 as stated: the parent has no branch \<open>refs/heads/b\<close>. After the call it
  has one, so \<open>branchExists\<close> answers differently.
\<close>

theorem submodule_deletion_inserts_branch_counterexample:
  "\<not> branchExists (example_bare_store 0) ''refs/heads/b''
     \<and> (\<exists>H'. submoduleChanged example_h example_opts example_bare_store 0 8 example_rule 0 9 = Inr H'
           \<and> branchExists (H' 0) ''refs/heads/b''
           \<and> branches (H' 0) = [(''refs/heads/master'', example_master_branch),
                                 (''refs/heads/b'', new_Branch example_h)])"
proof -
  have absent: "map_of (submodules (branch_value example_h (branches (example_bare_store 0))
      (git_ref_name example_rule))) (submodule_path (example_bare_store 8)) = None"
    by (simp add: example_store_facts example_bare_facts branch_value_def)
  show ?thesis
    by (simp add: submoduleChanged_absent [OF absent] example_store_facts example_bare_facts
        branchExists_def qh_contains_def branch_access_def branch_value_def)
qed

subsection \<open>Resetting a branch\<close>

lemma submoduleChanged_frame:
  assumes "submoduleChanged h opts H s sub rule mark rn = Inr H1" and "p \<noteq> s"
  shows "H1 p = H p"
proof (cases "mark \<noteq> 0 \<or> map_of (submodules (branch_value h (branches (H s)) (git_ref_name rule)))
               (submodule_path (H sub)) \<noteq> None")
  case True
  from submoduleChanged_result [OF assms(1) True] obtain r' where "H1 = H(s := r')" by blast
  then show ?thesis using assms(2) by simp
next
  case False
  then have "submoduleChanged h opts H s sub rule mark rn
           = Inr (H(s := (H s)\<lparr>branches := branch_access h (git_ref_name rule) (branches (H s))\<rparr>))"
    using submoduleChanged_absent [of h H s rule sub opts rn] by simp
  then show ?thesis using assms by simp
qed

lemma can_demand_submoduleChanged:
  "can_demand opts (H s) (git_ref_name rule) \<Longrightarrow>
     \<exists>H1. submoduleChanged h opts H s sub rule mark rn = Inr H1"
  using submoduleChanged_succeeds [of H s rule opts h sub mark rn]
  by (simp add: can_demand_def)

text \<open>
  \<open>resetBranch\<close> in a repository that is not its own super-module: what it does to the
  repository. \<open>br\<close> is the branch before the call, \<open>backup\<close> the backup command.
\<close>

lemma resetBranch_result:
  assumes res: "resetBranch h opts H this rule R rn mark resetTo comment = Inr H'"
    and self: "submodule_in_repo (H this) \<noteq> Some this"
  defines "br \<equiv> branch_value h (branches (H this)) R"
  defines "backup \<equiv> (if exists h br \<and> lastChangeRev br \<noteq> rn then backup_cmd R rn (mark = 0) else [])"
  shows "branches (H' this) = AList.update R
            (br\<lparr>lastChangeRev := rn, commits := commits br @ [rn], marks := marks br @ [mark]\<rparr>)
            (branch_access h R (branches (H this)))"
    and "resetBranches (H' this) =
           (if mark = 0 then AList.delete R (resetBranches (H this))
            else AList.update R (str_value (resetBranches (H this)) R @ backup
                   @ reset_cmd R resetTo rn mark comment) (resetBranches (H this)))"
    and "deletedBranches (H' this) =
           (if mark = 0 \<and> \<not> qh_contains (resetBranches (H this)) R
            then AList.update R (str_value (deletedBranches (H this)) R @ backup
                   @ reset_cmd R resetTo rn mark comment) (deletedBranches (H this))
            else deletedBranches (H this))"
    and "transactions (H' this) = transactions (H this)"
    and "fastImport (H' this) = fastImport (H this)"
    and "warnings (H' this) = warnings (H this)"
    and "last_commit_mark (H' this) = last_commit_mark (H this)"
    and "next_file_mark (H' this) = next_file_mark (H this)"
    and "name (H' this) = name (H this)"
    and "submodule_in_repo (H' this) = submodule_in_repo (H this)"
    and "fastImport_running (H' this) = fastImport_running (H this)"
    and "starts_with R ''refs/''"
proof -
  from res obtain H1 where
    sub: "(case submodule_in_repo (H this) of None \<Rightarrow> Inr H
           | Some super \<Rightarrow> submoduleChanged h opts H super this rule mark rn) = Inr H1"
    and rest: "(if \<not> starts_with R ''refs/'' then Inl (AssertionFailed ''boost::starts_with(gitRefName, refs/)'')
          else
            (let r = H1 this;
                 deleting = (mark = 0);
                 bs = branch_access h R (branches r);
                 br = branch_value h bs R;
                 backupCmd = (if exists h br \<and> lastChangeRev br \<noteq> rn
                              then backup_cmd R rn deleting else []);
                 br' = br\<lparr>lastChangeRev := rn, commits := commits br @ [rn], marks := marks br @ [mark]\<rparr>;
                 cmd = reset_cmd R resetTo rn mark comment;
                 r1 = r\<lparr>branches := AList.update R br' bs\<rparr>
             in Inr (H1(this :=
                  (if deleting then
                     (if qh_contains (resetBranches r1) R
                      then r1\<lparr>resetBranches := AList.delete R (resetBranches r1)\<rparr>
                      else r1\<lparr>deletedBranches := AList.update R
                                 (str_value (deletedBranches r1) R @ backupCmd @ cmd)
                                 (deletedBranches r1)\<rparr>)
                   else r1\<lparr>resetBranches := AList.update R
                                 (str_value (resetBranches r1) R @ backupCmd @ cmd)
                                 (resetBranches r1)\<rparr>))))) = Inr H'"
    unfolding resetBranch_def and_then_Inr_iff by blast
  have same: "H1 this = H this"
  proof (cases "submodule_in_repo (H this)")
    case None
    with sub show ?thesis by simp
  next
    case (Some super)
    with self have "this \<noteq> super" by auto
    moreover from sub Some have "submoduleChanged h opts H super this rule mark rn = Inr H1" by simp
    ultimately show ?thesis by (rule submoduleChanged_frame [rotated])
  qed
  from rest show refs: "starts_with R ''refs/''" by (simp split: if_splits)
  have del: "AList.delete R xs = xs" if "\<not> qh_contains xs R" for xs :: "(string \<times> string) list"
    using that by (simp add: qh_contains_def map_of_eq_None_iff delete_id)
  from rest refs have H': "H' this =
     (let r1 = (H this)\<lparr>branches := AList.update R
            (br\<lparr>lastChangeRev := rn, commits := commits br @ [rn], marks := marks br @ [mark]\<rparr>)
            (branch_access h R (branches (H this)))\<rparr>
      in if mark = 0 then
           (if qh_contains (resetBranches r1) R
            then r1\<lparr>resetBranches := AList.delete R (resetBranches r1)\<rparr>
            else r1\<lparr>deletedBranches := AList.update R
                       (str_value (deletedBranches r1) R @ backup @ reset_cmd R resetTo rn mark comment)
                       (deletedBranches r1)\<rparr>)
         else r1\<lparr>resetBranches := AList.update R
                       (str_value (resetBranches r1) R @ backup @ reset_cmd R resetTo rn mark comment)
                       (resetBranches r1)\<rparr>)"
    by (auto simp: Let_def same br_def backup_def)
  show "branches (H' this) = AList.update R
            (br\<lparr>lastChangeRev := rn, commits := commits br @ [rn], marks := marks br @ [mark]\<rparr>)
            (branch_access h R (branches (H this)))"
    by (simp add: H' Let_def)
  show "resetBranches (H' this) =
           (if mark = 0 then AList.delete R (resetBranches (H this))
            else AList.update R (str_value (resetBranches (H this)) R @ backup
                   @ reset_cmd R resetTo rn mark comment) (resetBranches (H this)))"
    by (simp add: H' Let_def del)
  show "deletedBranches (H' this) =
           (if mark = 0 \<and> \<not> qh_contains (resetBranches (H this)) R
            then AList.update R (str_value (deletedBranches (H this)) R @ backup
                   @ reset_cmd R resetTo rn mark comment) (deletedBranches (H this))
            else deletedBranches (H this))"
    by (simp add: H' Let_def)
  show "transactions (H' this) = transactions (H this)" "fastImport (H' this) = fastImport (H this)"
    "warnings (H' this) = warnings (H this)" "last_commit_mark (H' this) = last_commit_mark (H this)"
    "next_file_mark (H' this) = next_file_mark (H this)" "name (H' this) = name (H this)"
    "submodule_in_repo (H' this) = submodule_in_repo (H this)"
    "fastImport_running (H' this) = fastImport_running (H this)"
    by (simp_all add: H' Let_def)
qed

lemma resetBranch_succeeds:
  assumes "starts_with R ''refs/''"
    and "\<forall>s. submodule_in_repo (H this) = Some s \<longrightarrow> can_demand opts (H s) (git_ref_name rule)"
  shows "\<exists>H'. resetBranch h opts H this rule R rn mark resetTo comment = Inr H'"
proof -
  have "\<exists>H1. (case submodule_in_repo (H this) of None \<Rightarrow> Inr H
           | Some super \<Rightarrow> submoduleChanged h opts H super this rule mark rn) = Inr H1"
  proof (cases "submodule_in_repo (H this)")
    case None
    then show ?thesis by simp
  next
    case (Some s)
    with assms(2) have "can_demand opts (H s) (git_ref_name rule)" by simp
    with can_demand_submoduleChanged [of opts H s rule h this mark rn] Some show ?thesis by simp
  qed
  then obtain H1 where "(case submodule_in_repo (H this) of None \<Rightarrow> Inr H
           | Some super \<Rightarrow> submoduleChanged h opts H super this rule mark rn) = Inr H1" by blast
  then show ?thesis
    using assms(1) by (simp add: resetBranch_def Let_def)
qed

subsection \<open>Adding a file, and the end of a revision\<close>

lemma Transaction_addFile_result:
  assumes "Transaction_addFile h opts r key path mode len = Inr (m, r')"
  shows "m = next_file_mark r" "next_file_mark r' = next_file_mark r - 1"
    "int32 (last_commit_mark r + 1) < next_file_mark r" "last_commit_mark r' = last_commit_mark r"
    "branches r' = branches r" "deletedBranches r' = deletedBranches r"
    "resetBranches r' = resetBranches r" "\<exists>pre. fastImport r' = fastImport r @ pre"
    "warnings r' = warnings r"
proof -
  from assms obtain t where t: "map_of (transactions r) key = Some t"
    by (auto simp: Transaction_addFile_def with_txn_def split: option.splits)
  define r2 where "r2 = set_txn key (t\<lparr>modifiedFiles := modifiedFiles t @ ''M '' @ nat_to_oct mode @ '' :''
                          @ to_string (next_file_mark r) @ '' '' @ prefix r @ path @ LF\<rparr>)
                    (r\<lparr>next_file_mark := next_file_mark r - 1\<rparr>)"
  from assms t have ok: "int32 (last_commit_mark r + 1) < next_file_mark r" and m: "m = next_file_mark r"
    and cases: "(dry_run opts \<and> r' = r2)
       \<or> (\<exists>r3. startFastImport h opts r2 = Inr r3 \<and> r' = r3\<lparr>fastImport := fastImport r3 @
                        [''blob'' @ LF @ ''mark :'', to_string (next_file_mark r), LF @ ''data '', to_string len, LF]\<rparr>)"
    by (auto simp: Transaction_addFile_def with_txn_def Let_def r2_def and_then_Inr_iff split: if_splits)
  from cases have "\<exists>pre a b. r' = r2\<lparr>processHasStarted := a, fastImport_running := b,
      fastImport := fastImport r2 @ pre\<rparr>"
  proof
    assume "dry_run opts \<and> r' = r2"
    then have "r' = r2\<lparr>processHasStarted := processHasStarted r2, fastImport_running := fastImport_running r2,
      fastImport := fastImport r2 @ []\<rparr>" by simp
    then show ?thesis by blast
  next
    assume "\<exists>r3. startFastImport h opts r2 = Inr r3 \<and> r' = r3\<lparr>fastImport := fastImport r3 @
                        [''blob'' @ LF @ ''mark :'', to_string (next_file_mark r), LF @ ''data '', to_string len, LF]\<rparr>"
    then obtain r3 where s: "startFastImport h opts r2 = Inr r3" and r': "r' = r3\<lparr>fastImport := fastImport r3 @
                        [''blob'' @ LF @ ''mark :'', to_string (next_file_mark r), LF @ ''data '', to_string len, LF]\<rparr>"
      by blast
    from startFastImport_result [OF s] obtain pre a b where
      "r3 = r2\<lparr>processHasStarted := a, fastImport_running := b, fastImport := fastImport r2 @ pre\<rparr>"
      by blast
    then have "r' = r2\<lparr>processHasStarted := a, fastImport_running := b,
        fastImport := fastImport r2 @ (pre @ [''blob'' @ LF @ ''mark :'', to_string (next_file_mark r), LF @ ''data '', to_string len, LF])\<rparr>"
      using r' by simp
    then show ?thesis by blast
  qed
  then obtain pre a b where r': "r' = r2\<lparr>processHasStarted := a, fastImport_running := b,
      fastImport := fastImport r2 @ pre\<rparr>" by blast
  show "m = next_file_mark r" by (rule m)
  show "int32 (last_commit_mark r + 1) < next_file_mark r" by (rule ok)
  show "next_file_mark r' = next_file_mark r - 1" "last_commit_mark r' = last_commit_mark r"
    "branches r' = branches r" "deletedBranches r' = deletedBranches r"
    "resetBranches r' = resetBranches r" "warnings r' = warnings r"
    by (simp_all add: r' r2_def)
  have "fastImport r' = fastImport r @ pre" by (simp add: r' r2_def)
  then show "\<exists>pre. fastImport r' = fastImport r @ pre" by blast
qed

lemma update_dot_gitmodules_frame:
  assumes "update_dot_gitmodules h opts names r branch_name b rn = Inr r'"
  shows "branches r' = branches r" "deletedBranches r' = deletedBranches r"
    "resetBranches r' = resetBranches r" "\<exists>pre. fastImport r' = fastImport r @ pre"
    "last_commit_mark r' = last_commit_mark r"
proof -
  from assms obtain r1 m r2 where dt: "demandTransaction h opts r branch_name [] rn = Inr r1"
    and af: "Transaction_addFile h opts r1 branch_name ''.gitmodules'' gitmodules_mode
               (int (length (gitmodules_content names (submodules b)))) = Inr (m, r2)"
    and r': "r' = (if \<not> dry_run opts
                   then r2\<lparr>fastImport := fastImport r2 @ [gitmodules_content names (submodules b), LF]\<rparr>
                   else r2)"
    by (auto simp: update_dot_gitmodules_def and_then_Inr_iff Let_def)
  note f1 = demandTransaction_frame [OF dt]
  note f2 = Transaction_addFile_result [OF af]
  show "branches r' = branches r" "deletedBranches r' = deletedBranches r"
    "resetBranches r' = resetBranches r" "last_commit_mark r' = last_commit_mark r"
    using f1 f2 by (simp_all add: r')
  from f1(12) obtain p1 where p1: "fastImport r1 = fastImport r @ p1" by blast
  from f2(8) obtain p2 where p2: "fastImport r2 = fastImport r1 @ p2" by blast
  have "fastImport r' = fastImport r @ (p1 @ p2 @ (if \<not> dry_run opts
          then [gitmodules_content names (submodules b), LF] else []))"
    by (simp add: r' p1 p2)
  then show "\<exists>pre. fastImport r' = fastImport r @ pre" by blast
qed

lemma gitmodules_loop_frame:
  "gitmodules_loop h opts names rn ks r = Inr r' \<Longrightarrow>
     branches r' = branches r \<and> deletedBranches r' = deletedBranches r
     \<and> resetBranches r' = resetBranches r \<and> (\<exists>pre. fastImport r' = fastImport r @ pre)
     \<and> last_commit_mark r' = last_commit_mark r"
proof (induction ks arbitrary: r)
  case Nil
  then show ?case by simp
next
  case (Cons k ks)
  show ?case
  proof (cases "lastSubmoduleListChangeRev (branch_value h (branches r) k) = rn")
    case True
    with Cons.prems obtain r1 where
      u: "update_dot_gitmodules h opts names r k (branch_value h (branches r) k) rn = Inr r1"
      and l: "gitmodules_loop h opts names rn ks r1 = Inr r'"
      by (auto simp: Let_def and_then_Inr_iff)
    note f = update_dot_gitmodules_frame [OF u]
    from f(4) obtain p1 where p1: "fastImport r1 = fastImport r @ p1" by blast
    from Cons.IH [OF l] obtain p2 where "fastImport r' = fastImport r1 @ p2"
      and rest: "branches r' = branches r1" "deletedBranches r' = deletedBranches r1"
        "resetBranches r' = resetBranches r1" "last_commit_mark r' = last_commit_mark r1"
      by blast
    then have "fastImport r' = fastImport r @ (p1 @ p2)" by (simp add: p1)
    then have "\<exists>pre. fastImport r' = fastImport r @ pre" by blast
    then show ?thesis using rest f by simp
  next
    case False
    with Cons.prems have "gitmodules_loop h opts names rn ks r = Inr r'" by (simp add: Let_def)
    from Cons.IH [OF this] show ?thesis .
  qed
qed

lemma gitmodules_loop_idle:
  "\<forall>k\<in>set ks. lastSubmoduleListChangeRev (branch_value h (branches r) k) \<noteq> rn \<Longrightarrow>
     gitmodules_loop h opts names rn ks r = Inr r"
  by (induction ks) (simp_all add: Let_def)

text \<open>
  \<open>prepare_commit\<close>: what it writes last are the queued deletions and then the queued
  resets, and it empties both queues.
\<close>

lemma prepare_commit_result:
  assumes "prepare_commit h opts vals H this rn = Inr H'" and "vals [] = []"
  shows "\<exists>pre. fastImport (H' this) = fastImport (H this) @ pre
            @ vals (deletedBranches (H this)) @ vals (resetBranches (H this))"
    and "deletedBranches (H' this) = []" and "resetBranches (H' this) = []"
    and "branches (H' this) = branches (H this)"
    and "last_commit_mark (H' this) = last_commit_mark (H this)"
    and "\<And>p. p \<noteq> this \<Longrightarrow> H' p = H p"
proof -
  have all: "(\<exists>pre. fastImport (H' this) = fastImport (H this) @ pre
            @ vals (deletedBranches (H this)) @ vals (resetBranches (H this)))
     \<and> deletedBranches (H' this) = [] \<and> resetBranches (H' this) = []
     \<and> branches (H' this) = branches (H this)
     \<and> last_commit_mark (H' this) = last_commit_mark (H this)
     \<and> (\<forall>p. p \<noteq> this \<longrightarrow> H' p = H p)"
  proof (cases "deletedBranches (H this) = [] \<and> resetBranches (H this) = []")
    case True
    with assms have "H' = H" by (simp add: prepare_commit_def)
    with True assms(2) show ?thesis by simp
  next
    case False
    with assms obtain r1 r2 where
      l: "gitmodules_loop h opts (\<lambda>p. name (H p)) rn (map fst (branches (H this))) (H this) = Inr r1"
      and s: "startFastImport h opts r1 = Inr r2"
      and H': "H' = H(this := r2\<lparr>fastImport := fastImport r2 @ vals (deletedBranches r2)
                                         @ vals (resetBranches r2),
                                       deletedBranches := [], resetBranches := []\<rparr>)"
      by (auto simp: prepare_commit_def Let_def and_then_Inr_iff)
    from gitmodules_loop_frame [OF l] obtain p1 where p1: "fastImport r1 = fastImport (H this) @ p1"
      and f: "branches r1 = branches (H this)" "deletedBranches r1 = deletedBranches (H this)"
        "resetBranches r1 = resetBranches (H this)" "last_commit_mark r1 = last_commit_mark (H this)"
      by blast
    from startFastImport_result [OF s] obtain p2 a b where
      r2: "r2 = r1\<lparr>processHasStarted := a, fastImport_running := b, fastImport := fastImport r1 @ p2\<rparr>"
      by blast
    have "fastImport (H' this) = fastImport (H this) @ (p1 @ p2)
            @ vals (deletedBranches (H this)) @ vals (resetBranches (H this))"
      by (simp add: H' r2 p1 f)
    then have "\<exists>pre. fastImport (H' this) = fastImport (H this) @ pre
            @ vals (deletedBranches (H this)) @ vals (resetBranches (H this))" by blast
    then show ?thesis by (simp add: H' r2 f)
  qed
  from all show "\<exists>pre. fastImport (H' this) = fastImport (H this) @ pre
            @ vals (deletedBranches (H this)) @ vals (resetBranches (H this))"
    and "deletedBranches (H' this) = []" and "resetBranches (H' this) = []"
    and "branches (H' this) = branches (H this)"
    and "last_commit_mark (H' this) = last_commit_mark (H this)"
    and "\<And>p. p \<noteq> this \<Longrightarrow> H' p = H p"
    by simp_all
qed

lemma prepare_commit_idle:
  assumes "fastImport_running (H this)"
    and "\<forall>k\<in>set (map fst (branches (H this))).
           lastSubmoduleListChangeRev (branch_value h (branches (H this)) k) \<noteq> rn"
  shows "prepare_commit h opts vals H this rn
     = Inr (if deletedBranches (H this) = [] \<and> resetBranches (H this) = [] then H
            else H(this := (H this)\<lparr>fastImport := fastImport (H this) @ vals (deletedBranches (H this))
                                         @ vals (resetBranches (H this)),
                                   deletedBranches := [], resetBranches := []\<rparr>))"
  using assms(1) gitmodules_loop_idle [OF assms(2), of opts "\<lambda>p. name (H p)"]
  by (simp add: prepare_commit_def Let_def startFastImport_def)

subsection \<open>A reset and a delete in one revision\<close>

lemma can_demand_frame:
  "transactions r' = transactions r \<Longrightarrow> commitCount r' = commitCount r \<Longrightarrow>
     fastImport_running r' = fastImport_running r \<Longrightarrow> can_demand opts r' br = can_demand opts r br"
  by (simp add: can_demand_def)

lemma submoduleChanged_keeps_can_demand:
  assumes "submoduleChanged h opts H s sub rule mark rn = Inr H0"
    and "can_demand opts (H s) (git_ref_name rule)"
  shows "can_demand opts (H0 s) (git_ref_name rule)"
proof (cases "mark \<noteq> 0 \<or> map_of (submodules (branch_value h (branches (H s)) (git_ref_name rule)))
               (submodule_path (H sub)) \<noteq> None")
  case True
  from submoduleChanged_result [OF assms(1) True] obtain r' t where
    "H0 = H(s := r')" "map_of (transactions r') (git_ref_name rule) = Some t" by blast
  then show ?thesis by (simp add: can_demand_def)
next
  case False
  then have "submoduleChanged h opts H s sub rule mark rn
           = Inr (H(s := (H s)\<lparr>branches := branch_access h (git_ref_name rule) (branches (H s))\<rparr>))"
    using submoduleChanged_absent [of h H s rule sub opts rn] by simp
  with assms(1) have "H0 s = (H s)\<lparr>branches := branch_access h (git_ref_name rule) (branches (H s))\<rparr>"
    by auto
  with assms(2) show ?thesis by (simp add: can_demand_def)
qed

lemma resetBranch_keeps_can_demand:
  assumes res: "resetBranch h opts H this rule R rn mark resetTo comment = Inr H1"
    and super: "submodule_in_repo (H this) = Some s" and ne: "s \<noteq> this"
    and can: "can_demand opts (H s) (git_ref_name rule)"
  shows "can_demand opts (H1 s) (git_ref_name rule)"
proof -
  from res super obtain H0 where sub: "submoduleChanged h opts H s this rule mark rn = Inr H0"
    and "\<exists>r. H1 = H0(this := r)"
    by (auto simp: resetBranch_def and_then_Inr_iff Let_def split: if_splits)
  then have "H1 s = H0 s" using ne by auto
  with submoduleChanged_keeps_can_demand [OF sub can] show ?thesis by simp
qed

lemma deleteBranch_is_reset:
  "starts_with (git_ref_name rule) ''refs/'' \<Longrightarrow> git_ref_name rule \<noteq> ''refs/heads/master'' \<Longrightarrow>
     deleteBranch h opts H this rule rn
       = resetBranch h opts H this rule (git_ref_name rule) rn 0 (replicate 40 CHR ''0'') ''delete''"
  by (simp add: deleteBranch_def Let_def)

lemma deleteBranch_master:
  "git_ref_name rule = ''refs/heads/master'' \<Longrightarrow> deleteBranch h opts H this rule rn = Inr H"
  by (simp add: deleteBranch_def Let_def starts_with_def)

lemma qh_contains_update: "qh_contains (AList.update k v q) k"
  by (simp add: qh_contains_def update_conv')

lemma update_member: "(k, v) \<in> set (AList.update k v q)"
  by (rule map_of_SomeD) (simp add: update_conv')

lemma absent_table:
  assumes "\<not> qh_contains q k"
  shows "AList.delete k q = q" and "str_value q k = []"
proof -
  from assms have none: "map_of q k = None" by (simp add: qh_contains_def)
  then show "str_value q k = []" by (simp add: str_value_def)
  from none have "k \<notin> fst ` set q" by (simp add: map_of_eq_None_iff)
  then show "AList.delete k q = q" by simp
qed

text \<open>What \<open>prepare_commit\<close> writes, and a case in which it returns.\<close>

lemma prepare_commit_writes:
  assumes "vals [] = []"
  shows "(\<forall>H3. prepare_commit h opts vals H2 this rn = Inr H3 \<longrightarrow>
            (\<exists>pre. fastImport (H3 this) = fastImport (H2 this) @ pre
                     @ vals (deletedBranches (H2 this)) @ vals (resetBranches (H2 this)))
          \<and> deletedBranches (H3 this) = [] \<and> resetBranches (H3 this) = [])
     \<and> (fastImport_running (H2 this)
          \<and> (\<forall>k\<in>set (map fst (branches (H2 this))).
                lastSubmoduleListChangeRev (branch_value h (branches (H2 this)) k) \<noteq> rn) \<longrightarrow>
           (\<exists>H3. prepare_commit h opts vals H2 this rn = Inr H3
              \<and> fastImport (H3 this) = fastImport (H2 this)
                    @ vals (deletedBranches (H2 this)) @ vals (resetBranches (H2 this))))"
proof -
  have one: "(\<exists>pre. fastImport (H3 this) = fastImport (H2 this) @ pre
                     @ vals (deletedBranches (H2 this)) @ vals (resetBranches (H2 this)))
          \<and> deletedBranches (H3 this) = [] \<and> resetBranches (H3 this) = []"
    if p: "prepare_commit h opts vals H2 this rn = Inr H3" for H3
    using prepare_commit_result(1-3) [OF p assms] by simp
  have two: "\<exists>H3. prepare_commit h opts vals H2 this rn = Inr H3
              \<and> fastImport (H3 this) = fastImport (H2 this)
                    @ vals (deletedBranches (H2 this)) @ vals (resetBranches (H2 this))"
    if a: "fastImport_running (H2 this)
          \<and> (\<forall>k\<in>set (map fst (branches (H2 this))).
                lastSubmoduleListChangeRev (branch_value h (branches (H2 this)) k) \<noteq> rn)"
  proof -
    from a have run: "fastImport_running (H2 this)" and idle: "\<forall>k\<in>set (map fst (branches (H2 this))).
                lastSubmoduleListChangeRev (branch_value h (branches (H2 this)) k) \<noteq> rn"
      by simp_all
    from run idle have "prepare_commit h opts vals H2 this rn
     = Inr (if deletedBranches (H2 this) = [] \<and> resetBranches (H2 this) = [] then H2
            else H2(this := (H2 this)\<lparr>fastImport := fastImport (H2 this) @ vals (deletedBranches (H2 this))
                                         @ vals (resetBranches (H2 this)),
                                   deletedBranches := [], resetBranches := []\<rparr>))"
      by (rule prepare_commit_idle [of H2 this h rn opts vals])
    then show ?thesis using assms by simp
  qed
  from one two show ?thesis by blast
qed

text \<open>
  C1, amended. \<open>R\<close> is a ref other than \<open>refs/heads/master\<close>, in a repository whose
  super-module, if there is one, can be given a transaction; a reset is a \<open>resetBranch\<close>
  with a mark that is not zero, as \<open>createBranch\<close> makes, a delete is \<open>deleteBranch\<close>,
  and both are of revision \<open>rn\<close>. All the calls return.

  A reset and then a delete: after the reset the resets hold \<open>R\<close>; after the delete
  they do not, and the deletions are what they were before the two calls. Both are
  dropped.

  A delete, no reset of \<open>R\<close> being queued, and then a reset: the delete puts its
  command among the deletions, after a backup command when the branch existed and was
  last changed in another revision, and records the revision as the last change of the
  branch. The reset leaves the deletions as they are and puts its command, with no
  backup, among the resets. Both stay queued.

  A \<open>prepare_commit\<close> that follows and returns (it does when the process runs and no
  submodule list changed in the revision) writes the values of the deletions and then
  the values of the resets, as \<open>vals\<close> lists them: after a delete and a reset, the
  delete command of \<open>R\<close> with its backup, and after all deletions the reset of \<open>R\<close>.

  A delete of \<open>refs/heads/master\<close> does nothing: a reset queued for it stays.
\<close>

theorem same_revision_reset_and_delete:
  assumes "R = git_ref_name rule" and "starts_with R ''refs/''" and "R \<noteq> ''refs/heads/master''"
    and "submodule_in_repo (H this) \<noteq> Some this"
    and "\<forall>s. submodule_in_repo (H this) = Some s \<longrightarrow> can_demand opts (H s) R"
    and "mark \<noteq> 0"
    and "br = branch_value h (branches (H this)) R"
    and "backup = (if exists h br \<and> lastChangeRev br \<noteq> rn then backup_cmd R rn True else [])"
    and "delete_cmd = reset_cmd R (replicate 40 CHR ''0'') rn 0 ''delete''"
    and "\<forall>q. set (vals q) = snd ` set q"
  shows "(\<exists>H1 H2. resetBranch h opts H this rule R rn mark resetTo comment = Inr H1
            \<and> qh_contains (resetBranches (H1 this)) R
            \<and> deleteBranch h opts H1 this rule rn = Inr H2
            \<and> \<not> qh_contains (resetBranches (H2 this)) R
            \<and> resetBranches (H2 this) = AList.delete R (resetBranches (H this))
            \<and> deletedBranches (H2 this) = deletedBranches (H this)
            \<and> (\<forall>H3. prepare_commit h opts vals H2 this rn = Inr H3 \<longrightarrow>
                  (\<exists>pre. fastImport (H3 this) = fastImport (H this) @ pre
                     @ vals (deletedBranches (H this)) @ vals (AList.delete R (resetBranches (H this))))))
     \<and> (\<not> qh_contains (resetBranches (H this)) R \<longrightarrow>
          (\<exists>H1 H2. deleteBranch h opts H this rule rn = Inr H1
            \<and> deletedBranches (H1 this) = AList.update R
                 (str_value (deletedBranches (H this)) R @ backup @ delete_cmd) (deletedBranches (H this))
            \<and> resetBranches (H1 this) = resetBranches (H this)
            \<and> lastChangeRev (branch_value h (branches (H1 this)) R) = rn
            \<and> resetBranch h opts H1 this rule R rn mark resetTo comment = Inr H2
            \<and> deletedBranches (H2 this) = deletedBranches (H1 this)
            \<and> resetBranches (H2 this) = AList.update R
                 (reset_cmd R resetTo rn mark comment) (resetBranches (H this))
            \<and> (\<forall>H3. prepare_commit h opts vals H2 this rn = Inr H3 \<longrightarrow>
                  (\<exists>pre. fastImport (H3 this) = fastImport (H this) @ pre
                     @ vals (deletedBranches (H2 this)) @ vals (resetBranches (H2 this)))
                \<and> str_value (deletedBranches (H this)) R @ backup @ delete_cmd
                     \<in> set (vals (deletedBranches (H2 this)))
                \<and> reset_cmd R resetTo rn mark comment \<in> set (vals (resetBranches (H2 this))))
            \<and> (fastImport_running (H this)
                 \<and> (\<forall>k\<in>set (map fst (branches (H2 this))).
                       lastSubmoduleListChangeRev (branch_value h (branches (H2 this)) k) \<noteq> rn) \<longrightarrow>
                  (\<exists>H3. prepare_commit h opts vals H2 this rn = Inr H3
                     \<and> fastImport (H3 this) = fastImport (H this)
                          @ vals (deletedBranches (H2 this)) @ vals (resetBranches (H2 this))))))
     \<and> (git_ref_name master_rule = ''refs/heads/master'' \<longrightarrow>
          deleteBranch h opts H this master_rule rn = Inr H)"
proof -
  have sw: "starts_with (git_ref_name rule) ''refs/''" and nm: "git_ref_name rule \<noteq> ''refs/heads/master''"
    using assms(1-3) by simp_all
  have vnil: "vals [] = []" using assms(10) [rule_format, of "[]"] by simp
  have can: "\<forall>s. submodule_in_repo (H this) = Some s \<longrightarrow> can_demand opts (H s) (git_ref_name rule)"
    using assms(1,5) by simp
  text \<open>Two calls of \<open>resetBranch\<close>, one after the other, return.\<close>
  have second: "submodule_in_repo (H1 this) \<noteq> Some this
      \<and> (\<forall>s. submodule_in_repo (H1 this) = Some s \<longrightarrow> can_demand opts (H1 s) (git_ref_name rule))"
    if res: "resetBranch h opts H this rule R rn m1 to1 c1 = Inr H1" for H1 m1 to1 c1
  proof -
    note r = resetBranch_result [OF res assms(4)]
    have "can_demand opts (H1 s) (git_ref_name rule)" if s: "submodule_in_repo (H this) = Some s" for s
    proof -
      from s assms(4) have "s \<noteq> this" by auto
      moreover from s can have "can_demand opts (H s) (git_ref_name rule)" by simp
      ultimately show ?thesis using resetBranch_keeps_can_demand [OF res s] by simp
    qed
    then show ?thesis using assms(4) by (simp add: r(10))
  qed
  text \<open>A reset, then a delete.\<close>
  have a: "\<exists>H1 H2. resetBranch h opts H this rule R rn mark resetTo comment = Inr H1
            \<and> qh_contains (resetBranches (H1 this)) R
            \<and> deleteBranch h opts H1 this rule rn = Inr H2
            \<and> \<not> qh_contains (resetBranches (H2 this)) R
            \<and> resetBranches (H2 this) = AList.delete R (resetBranches (H this))
            \<and> deletedBranches (H2 this) = deletedBranches (H this)
            \<and> (\<forall>H3. prepare_commit h opts vals H2 this rn = Inr H3 \<longrightarrow>
                  (\<exists>pre. fastImport (H3 this) = fastImport (H this) @ pre
                     @ vals (deletedBranches (H this)) @ vals (AList.delete R (resetBranches (H this)))))"
  proof -
    from resetBranch_succeeds [where H = H and this = this, OF assms(2) can]
    obtain H1 where r1: "resetBranch h opts H this rule R rn mark resetTo comment = Inr H1" by blast
    note f1 = resetBranch_result [OF r1 assms(4)]
    from second [OF r1] have self1: "submodule_in_repo (H1 this) \<noteq> Some this"
      and can1: "\<forall>s. submodule_in_repo (H1 this) = Some s \<longrightarrow> can_demand opts (H1 s) (git_ref_name rule)"
      by simp_all
    from resetBranch_succeeds [where H = H1 and this = this, OF assms(2) can1]
    obtain H2 where r2: "resetBranch h opts H1 this rule R rn 0 (replicate 40 CHR ''0'') ''delete'' = Inr H2"
      by blast
    note f2 = resetBranch_result [OF r2 self1]
    have d: "deleteBranch h opts H1 this rule rn = Inr H2"
      using deleteBranch_is_reset [OF sw nm] r2 assms(1) by simp
    have q1: "qh_contains (resetBranches (H1 this)) R"
      using assms(6) by (simp add: f1(2) qh_contains_update)
    have rs: "resetBranches (H2 this) = AList.delete R (resetBranches (H this))"
      using assms(6) by (simp add: f2(2) f1(2) delete_update_same)
    have nq: "\<not> qh_contains (resetBranches (H2 this)) R"
      by (simp add: rs qh_contains_def delete_conv')
    have ds: "deletedBranches (H2 this) = deletedBranches (H this)"
      using assms(6) q1 by (simp add: f2(3) f1(3))
    have fi: "fastImport (H2 this) = fastImport (H this)" by (simp add: f2(5) f1(5))
    from prepare_commit_writes [where vals = vals and ?H2.0 = H2 and this = this and h = h and opts = opts and rn = rn, OF vnil]
    have p: "\<forall>H3. prepare_commit h opts vals H2 this rn = Inr H3 \<longrightarrow>
                  (\<exists>pre. fastImport (H3 this) = fastImport (H this) @ pre
                     @ vals (deletedBranches (H this)) @ vals (AList.delete R (resetBranches (H this))))"
      by (simp add: fi ds rs)
    show ?thesis
      apply (rule exI [of _ H1], rule exI [of _ H2])
      using r1 q1 d nq rs ds p by simp
  qed
  text \<open>A delete, then a reset.\<close>
  have b: "\<exists>H1 H2. deleteBranch h opts H this rule rn = Inr H1
            \<and> deletedBranches (H1 this) = AList.update R
                 (str_value (deletedBranches (H this)) R @ backup @ delete_cmd) (deletedBranches (H this))
            \<and> resetBranches (H1 this) = resetBranches (H this)
            \<and> lastChangeRev (branch_value h (branches (H1 this)) R) = rn
            \<and> resetBranch h opts H1 this rule R rn mark resetTo comment = Inr H2
            \<and> deletedBranches (H2 this) = deletedBranches (H1 this)
            \<and> resetBranches (H2 this) = AList.update R
                 (reset_cmd R resetTo rn mark comment) (resetBranches (H this))
            \<and> (\<forall>H3. prepare_commit h opts vals H2 this rn = Inr H3 \<longrightarrow>
                  (\<exists>pre. fastImport (H3 this) = fastImport (H this) @ pre
                     @ vals (deletedBranches (H2 this)) @ vals (resetBranches (H2 this)))
                \<and> str_value (deletedBranches (H this)) R @ backup @ delete_cmd
                     \<in> set (vals (deletedBranches (H2 this)))
                \<and> reset_cmd R resetTo rn mark comment \<in> set (vals (resetBranches (H2 this))))
            \<and> (fastImport_running (H this)
                 \<and> (\<forall>k\<in>set (map fst (branches (H2 this))).
                       lastSubmoduleListChangeRev (branch_value h (branches (H2 this)) k) \<noteq> rn) \<longrightarrow>
                  (\<exists>H3. prepare_commit h opts vals H2 this rn = Inr H3
                     \<and> fastImport (H3 this) = fastImport (H this)
                          @ vals (deletedBranches (H2 this)) @ vals (resetBranches (H2 this))))"
    if absent: "\<not> qh_contains (resetBranches (H this)) R"
  proof -
    from resetBranch_succeeds [where H = H and this = this, OF assms(2) can]
    obtain H1 where r1: "resetBranch h opts H this rule R rn 0 (replicate 40 CHR ''0'') ''delete'' = Inr H1"
      by blast
    note f1 = resetBranch_result [OF r1 assms(4)]
    have d: "deleteBranch h opts H this rule rn = Inr H1"
      using deleteBranch_is_reset [OF sw nm] r1 assms(1) by simp
    from second [OF r1] have self1: "submodule_in_repo (H1 this) \<noteq> Some this"
      and can1: "\<forall>s. submodule_in_repo (H1 this) = Some s \<longrightarrow> can_demand opts (H1 s) (git_ref_name rule)"
      by simp_all
    from resetBranch_succeeds [where H = H1 and this = this, OF assms(2) can1]
    obtain H2 where r2: "resetBranch h opts H1 this rule R rn mark resetTo comment = Inr H2" by blast
    note f2 = resetBranch_result [OF r2 self1]
    have d1: "deletedBranches (H1 this) = AList.update R
                 (str_value (deletedBranches (H this)) R @ backup @ delete_cmd) (deletedBranches (H this))"
      using absent by (simp add: f1(3) assms(7,8,9))
    have q1: "resetBranches (H1 this) = resetBranches (H this)"
      using absent_table(1) [OF absent] by (simp add: f1(2))
    have l1: "lastChangeRev (branch_value h (branches (H1 this)) R) = rn"
      by (simp add: f1(1))
    have d2: "deletedBranches (H2 this) = deletedBranches (H1 this)"
      using assms(6) by (simp add: f2(3))
    have q2: "resetBranches (H2 this) = AList.update R
                 (reset_cmd R resetTo rn mark comment) (resetBranches (H this))"
      using assms(6) absent_table(2) [OF absent] by (simp add: f2(2) l1 q1)
    have fi: "fastImport (H2 this) = fastImport (H this)" by (simp add: f2(5) f1(5))
    have run: "fastImport_running (H2 this) = fastImport_running (H this)" by (simp add: f2(11) f1(11))
    have m1: "str_value (deletedBranches (H this)) R @ backup @ delete_cmd
                     \<in> set (vals (deletedBranches (H2 this)))"
      using update_member [of R "str_value (deletedBranches (H this)) R @ backup @ delete_cmd"
          "deletedBranches (H this)"]
      by (simp add: assms(10) d2 d1) force
    have m2: "reset_cmd R resetTo rn mark comment \<in> set (vals (resetBranches (H2 this)))"
      using update_member [of R "reset_cmd R resetTo rn mark comment" "resetBranches (H this)"]
      by (simp add: assms(10) q2) force
    from prepare_commit_writes [where vals = vals and ?H2.0 = H2 and this = this and h = h and opts = opts and rn = rn, OF vnil]
    have p: "\<forall>H3. prepare_commit h opts vals H2 this rn = Inr H3 \<longrightarrow>
                  (\<exists>pre. fastImport (H3 this) = fastImport (H this) @ pre
                     @ vals (deletedBranches (H2 this)) @ vals (resetBranches (H2 this)))"
      and i: "fastImport_running (H this)
                 \<and> (\<forall>k\<in>set (map fst (branches (H2 this))).
                       lastSubmoduleListChangeRev (branch_value h (branches (H2 this)) k) \<noteq> rn) \<longrightarrow>
                  (\<exists>H3. prepare_commit h opts vals H2 this rn = Inr H3
                     \<and> fastImport (H3 this) = fastImport (H this)
                          @ vals (deletedBranches (H2 this)) @ vals (resetBranches (H2 this)))"
      by (simp_all add: fi run)
    show ?thesis
      apply (rule exI [of _ H1], rule exI [of _ H2])
      using d d1 q1 l1 r2 d2 q2 p m1 m2 i by simp
  qed
  have c: "deleteBranch h opts H this master_rule rn = Inr H"
    if "git_ref_name master_rule = ''refs/heads/master''"
    using that by (rule deleteBranch_master)
  from a b c show ?thesis by blast
qed

lemma example_deleted_facts:
  "submodule_in_repo (example_deleted_store 0) = None"
  "lastChangeRev (branch_value example_h (branches (example_deleted_store 0)) ''refs/heads/b'') = 9"
  "deletedBranches (example_deleted_store 0) = [(''refs/heads/b'',
         backup_cmd ''refs/heads/b'' 9 True
         @ reset_cmd ''refs/heads/b'' (replicate 40 CHR ''0'') 9 0 ''delete'')]"
  "resetBranches (example_deleted_store 0) = []"
  "fastImport (example_deleted_store 0) = []"
  "fastImport_running (example_deleted_store 0)"
  by (simp_all add: example_deleted_store_def example_super_def branch_value_def)

lemma example_super_facts:
  "submodule_in_repo example_super = None" "resetBranches example_super = []"
  "deletedBranches example_super = []" "exists example_h example_branch_b"
  "lastChangeRev example_branch_b = 7"
  by (simp_all add: example_super_def example_h_def example_branch_b_def)

theorem same_revision_reset_and_delete_witness:
  "\<exists>H1 H2. deleteBranch example_h example_opts example_store 0 example_rule 9 = Inr H1
     \<and> deletedBranches (H1 0) = [(''refs/heads/b'',
           backup_cmd ''refs/heads/b'' 9 True
           @ reset_cmd ''refs/heads/b'' (replicate 40 CHR ''0'') 9 0 ''delete'')]
     \<and> resetBranch example_h example_opts H1 0 example_rule ''refs/heads/b'' 9 5
            '':5'' ''from branch refs/heads/master'' = Inr H2
     \<and> deletedBranches (H2 0) = deletedBranches (H1 0)
     \<and> resetBranches (H2 0) = [(''refs/heads/b'',
           reset_cmd ''refs/heads/b'' '':5'' 9 5 ''from branch refs/heads/master'')]"
proof -
  from same_revision_reset_and_delete
         [where R = "''refs/heads/b''" and rule = example_rule and H = example_store and this = 0
            and opts = example_opts and mark = 5 and br = example_branch_b and h = example_h
            and backup = "backup_cmd ''refs/heads/b'' 9 True" and rn = 9
            and delete_cmd = "reset_cmd ''refs/heads/b'' (replicate 40 CHR ''0'') 9 0 ''delete''"
            and vals = "map snd" and resetTo = "'':5''" and comment = "''from branch refs/heads/master''"]
  show ?thesis
    by (simp add: example_store_facts example_super_facts qh_contains_def str_value_def) blast
qed

text \<open>
  Against C1 as stated: the branch \<open>refs/heads/b\<close> exists, and revision 9 deletes it
  and then creates it again from \<open>refs/heads/master\<close>. \<open>prepare_commit\<close> writes the backup
  reset and the delete command, and then the reset. Each table holds one entry, so
  every listing of its values is the same.
\<close>

theorem delete_then_create_writes_delete_counterexample:
  "deleteBranch example_h example_opts example_store 0 example_rule 9 = Inr example_deleted_store
     \<and> createBranch example_h example_opts example_deleted_store 0 example_rule 9 ''refs/heads/master'' 6
          = Inr example_recreated_store
     \<and> prepare_commit example_h example_opts (map snd) example_recreated_store 0 9 = Inr example_prepared_store
     \<and> fastImport (example_prepared_store 0)
          = [backup_cmd ''refs/heads/b'' 9 True
               @ reset_cmd ''refs/heads/b'' (replicate 40 CHR ''0'') 9 0 ''delete'',
             reset_cmd ''refs/heads/b'' '':5'' 9 5 ''from branch refs/heads/master'']
     \<and> backup_cmd ''refs/heads/b'' 9 True
          = ''reset refs/tags/backups/b@9'' @ LF @ ''from refs/heads/b'' @ LF @ LF
     \<and> reset_cmd ''refs/heads/b'' (replicate 40 CHR ''0'') 9 0 ''delete''
          = ''reset refs/heads/b'' @ LF @ ''from 0000000000000000000000000000000000000000'' @ LF @ LF
            @ ''progress SVN r9 branch refs/heads/b = :0 # delete'' @ LF @ LF"
proof -
  have ts: "to_string 9 = ''9''" "to_string 0 = ''0''" "to_string 5 = ''5''"
    by (simp_all add: to_string_def nat_to_string.simps digit_char_def)
  have sw: "starts_with ''refs/heads/b'' ''refs/''" "starts_with ''refs/heads/master'' ''refs/''"
    "starts_with ''refs/heads/b'' ''refs/heads/''"
    by (simp_all add: starts_with_def)
  have ex: "exists example_h example_branch_b" "lastChangeRev example_branch_b = 7"
    by (simp_all add: example_h_def example_branch_b_def)
  have del: "deleteBranch example_h example_opts example_store 0 example_rule 9 = Inr example_deleted_store"
    by (simp add: deleteBranch_def resetBranch_def Let_def example_store_facts sw ex
        example_store_def example_super_def example_deleted_store_def branch_access_def branch_value_def
        qh_contains_def str_value_def)
       (simp add: example_branch_b_def)
  have mf: "markFrom example_h (example_deleted_store 0) ''refs/heads/master'' 6 ''from branch refs/heads/master''
      = Inr (5, ''from branch refs/heads/master'', example_deleted_store 0)"
    by (simp add: markFrom_def Let_def sw example_deleted_store_def example_super_def branch_access_def
        branch_value_def example_master_branch_def example_h_def)
  have cre: "createBranch example_h example_opts example_deleted_store 0 example_rule 9 ''refs/heads/master'' 6
          = Inr example_recreated_store"
    by (simp add: createBranch_def Let_def example_store_facts sw mf ts resetBranch_def)
       (simp add: example_deleted_store_def example_recreated_store_def example_super_def example_store_def
          branch_access_def branch_value_def example_branch_b_def example_master_branch_def
          qh_contains_def str_value_def)
  have idle: "\<forall>k\<in>set (map fst (branches (example_recreated_store 0))).
      lastSubmoduleListChangeRev (branch_value example_h (branches (example_recreated_store 0)) k) \<noteq> 9"
    by (simp add: example_recreated_store_def branch_value_def example_master_branch_def example_branch_b_def)
  have run: "fastImport_running (example_recreated_store 0)"
    by (simp add: example_recreated_store_def example_deleted_store_def example_super_def)
  have prep: "prepare_commit example_h example_opts (map snd) example_recreated_store 0 9 = Inr example_prepared_store"
    using run idle prepare_commit_idle [of example_recreated_store 0 example_h 9 example_opts "map snd"]
    by (simp add: example_prepared_store_def example_recreated_store_def example_deleted_store_def
        example_super_def)
  have out: "fastImport (example_prepared_store 0)
          = [backup_cmd ''refs/heads/b'' 9 True
               @ reset_cmd ''refs/heads/b'' (replicate 40 CHR ''0'') 9 0 ''delete'',
             reset_cmd ''refs/heads/b'' '':5'' 9 5 ''from branch refs/heads/master'']"
    by (simp add: example_prepared_store_def)
  have bk: "backup_cmd ''refs/heads/b'' 9 True
          = ''reset refs/tags/backups/b@9'' @ LF @ ''from refs/heads/b'' @ LF @ LF"
    by (simp add: backup_cmd_def sw ts)
  have rs: "reset_cmd ''refs/heads/b'' (replicate 40 CHR ''0'') 9 0 ''delete''
          = ''reset refs/heads/b'' @ LF @ ''from 0000000000000000000000000000000000000000'' @ LF @ LF
            @ ''progress SVN r9 branch refs/heads/b = :0 # delete'' @ LF @ LF"
    by (simp add: reset_cmd_def ts eval_nat_numeral)
  from del cre prep out bk rs show ?thesis by simp
qed

subsection \<open>The mark to branch from\<close>

text \<open>On a sorted vector the binary search finds the first position of a greater element.\<close>

lemma qUpperBound_loop_sorted:
  "sorted xs \<Longrightarrow> start + n \<le> length xs \<Longrightarrow> \<forall>j<start. xs ! j \<le> v \<Longrightarrow>
     \<forall>j. start + n \<le> j \<and> j < length xs \<longrightarrow> v < xs ! j \<Longrightarrow>
     qUpperBound_loop xs v start n \<le> length xs
     \<and> (\<forall>j<qUpperBound_loop xs v start n. xs ! j \<le> v)
     \<and> (\<forall>j. qUpperBound_loop xs v start n \<le> j \<and> j < length xs \<longrightarrow> v < xs ! j)"
proof (induction xs v start n rule: qUpperBound_loop.induct)
  case (1 xs v start n)
  show ?case
  proof (cases "n = 0")
    case True
    with 1(4-6) show ?thesis by (simp add: qUpperBound_loop.simps [of xs v start 0])
  next
    case False
    let ?half = "n div 2"
    let ?middle = "start + ?half"
    from False have hn: "?half < n" by simp
    with 1(4) have mid: "?middle < length xs" by simp
    show ?thesis
    proof (cases "v < xs ! ?middle")
      case True
      have eq: "qUpperBound_loop xs v start n = qUpperBound_loop xs v start ?half"
        using False True by (simp add: qUpperBound_loop.simps [of xs v start n] Let_def)
      have b: "start + ?half \<le> length xs" using mid by simp
      have u: "\<forall>j. start + ?half \<le> j \<and> j < length xs \<longrightarrow> v < xs ! j"
      proof (intro allI impI)
        fix j assume j: "start + ?half \<le> j \<and> j < length xs"
        with 1(3) have "xs ! ?middle \<le> xs ! j" by (simp add: sorted_nth_mono)
        with True show "v < xs ! j" by simp
      qed
      from "1.IH"(1) [OF False refl refl True 1(3) b 1(5) u] show ?thesis by (simp add: eq)
    next
      case nless: False
      have eq: "qUpperBound_loop xs v start n = qUpperBound_loop xs v (?middle + 1) (n - (?half + 1))"
        using False nless by (simp add: qUpperBound_loop.simps [of xs v start n] Let_def)
      have sum: "?middle + 1 + (n - (?half + 1)) = start + n" using hn by simp
      have b: "?middle + 1 + (n - (?half + 1)) \<le> length xs" using 1(4) sum by simp
      have l: "\<forall>j<?middle + 1. xs ! j \<le> v"
      proof (intro allI impI)
        fix j assume "j < ?middle + 1"
        then have "j \<le> ?middle" by simp
        with 1(3) mid have "xs ! j \<le> xs ! ?middle" by (simp add: sorted_nth_mono)
        with nless show "xs ! j \<le> v" by simp
      qed
      have u: "\<forall>j. ?middle + 1 + (n - (?half + 1)) \<le> j \<and> j < length xs \<longrightarrow> v < xs ! j"
        using 1(6) by (simp only: sum)
      from "1.IH"(2) [OF False refl refl nless 1(3) b l u] show ?thesis by (simp add: eq)
    qed
  qed
qed

lemma qUpperBound_sorted:
  assumes "sorted xs"
  shows "qUpperBound xs v \<le> length xs"
    and "\<And>j. j < qUpperBound xs v \<Longrightarrow> xs ! j \<le> v"
    and "\<And>j. qUpperBound xs v \<le> j \<Longrightarrow> j < length xs \<Longrightarrow> v < xs ! j"
  using qUpperBound_loop_sorted [OF assms, of 0 "length xs" v]
  by (simp_all add: qUpperBound_def)

text \<open>
  On sorted commits: the bound is zero exactly when no commit is at or before the
  revision; otherwise the index before it is the greatest of a commit at or before
  the revision.
\<close>

lemma qUpperBound_zero:
  assumes "sorted xs"
  shows "qUpperBound xs v = 0 \<longleftrightarrow> (\<forall>c\<in>set xs. v < c)"
proof
  assume z: "qUpperBound xs v = 0"
  show "\<forall>c\<in>set xs. v < c"
  proof
    fix c assume "c \<in> set xs"
    then obtain j where "j < length xs" "xs ! j = c" by (auto simp: in_set_conv_nth)
    with qUpperBound_sorted(3) [OF assms, of v j] z show "v < c" by simp
  qed
next
  assume a: "\<forall>c\<in>set xs. v < c"
  show "qUpperBound xs v = 0"
  proof (rule ccontr)
    assume "qUpperBound xs v \<noteq> 0"
    then have pos: "0 < qUpperBound xs v" by simp
    from qUpperBound_sorted(2) [OF assms pos] have "xs ! 0 \<le> v" .
    moreover from pos qUpperBound_sorted(1) [OF assms, of v] have "0 < length xs" by arith
    then have "xs ! 0 \<in> set xs" by (rule nth_mem)
    ultimately show False using a by fastforce
  qed
qed

lemma qUpperBound_closest:
  assumes "sorted xs" and "0 < qUpperBound xs v"
  shows "qUpperBound xs v - 1 < length xs"
    and "xs ! (qUpperBound xs v - 1) \<le> v"
    and "\<forall>j<length xs. xs ! j \<le> v \<longrightarrow> j \<le> qUpperBound xs v - 1"
proof -
  show "qUpperBound xs v - 1 < length xs" using assms(2) qUpperBound_sorted(1) [OF assms(1), of v] by arith
  show "xs ! (qUpperBound xs v - 1) \<le> v" using assms(2) by (intro qUpperBound_sorted(2) [OF assms(1)]) simp
  show "\<forall>j<length xs. xs ! j \<le> v \<longrightarrow> j \<le> qUpperBound xs v - 1"
  proof (intro allI impI)
    fix j assume j: "j < length xs" "xs ! j \<le> v"
    show "j \<le> qUpperBound xs v - 1"
    proof (rule ccontr)
      assume "\<not> j \<le> qUpperBound xs v - 1"
      then have "qUpperBound xs v \<le> j" by arith
      from qUpperBound_sorted(3) [OF assms(1) this j(1)] j(2) show False by simp
    qed
  qed
qed

text \<open>
  \<open>markFrom\<close> on a branch whose commits are sorted and as many as its marks. \<open>r1\<close> is
  the repository after the access \<open>branches[branchFrom]\<close>.
\<close>

lemma markFrom_never:
  assumes "starts_with branchFrom ''refs/''"
    and "lastChangeRev (branch_value h (branches r) branchFrom) = neverChanged h
         \<or> commits (branch_value h (branches r) branchFrom) = []"
  shows "markFrom h r branchFrom n desc
           = Inr (- 1, desc, r\<lparr>branches := branch_access h branchFrom (branches r)\<rparr>)"
  using assms by (auto simp: markFrom_def Let_def)

lemma markFrom_none_before:
  assumes "starts_with branchFrom ''refs/''"
    and "lastChangeRev (branch_value h (branches r) branchFrom) \<noteq> neverChanged h"
    and "commits (branch_value h (branches r) branchFrom) \<noteq> []"
    and "sorted (commits (branch_value h (branches r) branchFrom))"
    and "\<forall>c\<in>set (commits (branch_value h (branches r) branchFrom)). n < c"
  shows "markFrom h r branchFrom n desc
           = Inr (0, desc, log_warn (''No mark found for r'' @ to_string n @ '' of branch '' @ branchFrom
                                  @ '' in repository '' @ name r)
                    (r\<lparr>branches := branch_access h branchFrom (branches r)\<rparr>))"
proof -
  let ?cs = "commits (branch_value h (branches r) branchFrom)"
  from assms(3,5) have "n \<noteq> last ?cs" by (metis last_in_set less_irrefl)
  moreover from assms(4,5) have "qUpperBound ?cs n = 0" by (simp add: qUpperBound_zero)
  ultimately show ?thesis using assms(1-3) by (simp add: markFrom_def Let_def)
qed

lemma markFrom_closest:
  assumes "starts_with branchFrom ''refs/''"
    and "lastChangeRev (branch_value h (branches r) branchFrom) \<noteq> neverChanged h"
    and "sorted (commits (branch_value h (branches r) branchFrom))"
    and "length (marks (branch_value h (branches r) branchFrom))
           = length (commits (branch_value h (branches r) branchFrom))"
    and "\<exists>c\<in>set (commits (branch_value h (branches r) branchFrom)). c \<le> n"
  shows "\<exists>i d. markFrom h r branchFrom n desc
           = Inr (marks (branch_value h (branches r) branchFrom) ! i, desc @ d,
                  r\<lparr>branches := branch_access h branchFrom (branches r)\<rparr>)
      \<and> i < length (commits (branch_value h (branches r) branchFrom))
      \<and> commits (branch_value h (branches r) branchFrom) ! i \<le> n
      \<and> (\<forall>j<length (commits (branch_value h (branches r) branchFrom)).
            commits (branch_value h (branches r) branchFrom) ! j \<le> n \<longrightarrow> j \<le> i)"
proof -
  let ?b = "branch_value h (branches r) branchFrom"
  let ?cs = "commits ?b"
  let ?r1 = "r\<lparr>branches := branch_access h branchFrom (branches r)\<rparr>"
  from assms(5) have ne: "?cs \<noteq> []" by auto
  then have mne: "marks ?b \<noteq> []" using assms(4) by auto
  show ?thesis
  proof (cases "n = last ?cs")
    case True
    have res: "markFrom h r branchFrom n desc = Inr (last (marks ?b), desc, ?r1)"
      using assms(1,2) ne mne True by (simp add: markFrom_def Let_def)
    have l: "last (marks ?b) = marks ?b ! (length ?cs - 1)"
      using mne assms(4) by (simp add: last_conv_nth)
    have c: "?cs ! (length ?cs - 1) \<le> n" using ne True by (simp add: last_conv_nth)
    show ?thesis
      apply (rule exI [of _ "length ?cs - 1"], rule exI [of _ "[]"])
      using res l c ne by auto
  next
    case False
    from assms(5) have "\<not> (\<forall>c\<in>set ?cs. n < c)" by fastforce
    with assms(3) have "qUpperBound ?cs n \<noteq> 0" by (simp add: qUpperBound_zero)
    then have pos: "0 < qUpperBound ?cs n" by simp
    note cl = qUpperBound_closest [OF assms(3) pos]
    let ?i = "qUpperBound ?cs n - 1"
    let ?d = "if desc \<noteq> [] then '' at r'' @ to_string n @
                (if ?cs ! ?i \<noteq> n then '' => r'' @ to_string (?cs ! ?i) else []) else []"
    have res: "markFrom h r branchFrom n desc = Inr (marks ?b ! ?i, desc @ ?d, ?r1)"
      using assms(1,2,4) ne False pos cl(1) by (simp add: markFrom_def Let_def)
    show ?thesis
      apply (rule exI [of _ ?i], rule exI [of _ ?d])
      using res cl by simp
  qed
qed

subsection \<open>Creating a branch\<close>

lemma createBranch_never:
  assumes "starts_with (git_ref_name rule) ''refs/''" and "starts_with branchFrom ''refs/''"
    and "lastChangeRev (branch_value h (branches (H this)) branchFrom) = neverChanged h
         \<or> commits (branch_value h (branches (H this)) branchFrom) = []"
  shows "createBranch h opts H this rule rn branchFrom n
     = Inl (RuntimeError (git_ref_name rule @ '' in repository '' @ name (H this)
              @ '' is branching from branch '' @ branchFrom
              @ '' but the latter doesn't exist. Can't continue.''))"
  using assms(1,2) markFrom_never [OF assms(2,3), of n "''from branch '' @ branchFrom"]
  by (simp add: createBranch_def Let_def)

text \<open>
  After \<open>markFrom\<close> gave a mark, \<open>createBranch\<close> is a \<open>resetBranch\<close>, on a repository
  \<open>r3\<close> that differs from the one \<open>markFrom\<close> left in its branch table and warnings.
\<close>

lemma createBranch_step:
  assumes "starts_with (git_ref_name rule) ''refs/''" and "starts_with branchFrom ''refs/''"
    and mf: "markFrom h (H this) branchFrom n (''from branch '' @ branchFrom) = Inr (mark, desc0, r1)"
    and "mark \<noteq> - 1"
  shows "\<exists>r3. createBranch h opts H this rule rn branchFrom n
       = resetBranch h opts (H(this := r3)) this rule (git_ref_name rule) rn mark
           (if mark = 0 then branchFrom else '':'' @ to_string mark)
           (if mark = 0 then desc0 @ '', deleted/unknown'' else desc0)
     \<and> branches r3 = AList.update (git_ref_name rule)
          ((branch_value h (branches r1) (git_ref_name rule))
             \<lparr>branch_note := branch_note (branch_value h (branches r1) branchFrom)\<rparr>)
          (branch_access h (git_ref_name rule) (branches r1))
     \<and> resetBranches r3 = resetBranches r1 \<and> deletedBranches r3 = deletedBranches r1
     \<and> submodule_in_repo r3 = submodule_in_repo r1 \<and> name r3 = name r1
     \<and> fastImport r3 = fastImport r1 \<and> transactions r3 = transactions r1
     \<and> last_commit_mark r3 = last_commit_mark r1 \<and> next_file_mark r3 = next_file_mark r1
     \<and> warnings r3 = warnings r1
          @ (if mark = 0
             then [git_ref_name rule @ '' in repository '' @ name r1
                    @ '' is branching but no exported commits exist in repository.''
                    @ '' creating an empty branch.'']
             else [])"
proof -
  let ?R = "git_ref_name rule"
  let ?r2 = "if mark = 0
             then log_warn (?R @ '' in repository '' @ name r1
                    @ '' is branching but no exported commits exist in repository.''
                    @ '' creating an empty branch.'') r1
             else r1"
  let ?bs = "branch_access h ?R (branches ?r2)"
  let ?r3 = "?r2\<lparr>branches := AList.update ?R
                ((branch_value h ?bs ?R)\<lparr>branch_note := branch_note (branch_value h ?bs branchFrom)\<rparr>) ?bs\<rparr>"
  have bv: "branch_value h (branch_access h ?R bs) k = branch_value h bs k" for bs k
    by (cases "k = ?R") (simp_all add: branch_access_def)
  have "createBranch h opts H this rule rn branchFrom n
       = resetBranch h opts (H(this := ?r3)) this rule ?R rn mark
           (if mark = 0 then branchFrom else '':'' @ to_string mark)
           (if mark = 0 then desc0 @ '', deleted/unknown'' else desc0)"
    using assms by (simp add: createBranch_def Let_def)
  moreover have "branches ?r3 = AList.update ?R
          ((branch_value h (branches r1) ?R)
             \<lparr>branch_note := branch_note (branch_value h (branches r1) branchFrom)\<rparr>)
          (branch_access h ?R (branches r1))"
    by (simp add: bv log_warn_def)
  moreover have "resetBranches ?r3 = resetBranches r1 \<and> deletedBranches ?r3 = deletedBranches r1
     \<and> submodule_in_repo ?r3 = submodule_in_repo r1 \<and> name ?r3 = name r1
     \<and> fastImport ?r3 = fastImport r1 \<and> transactions ?r3 = transactions r1
     \<and> last_commit_mark ?r3 = last_commit_mark r1 \<and> next_file_mark ?r3 = next_file_mark r1
     \<and> warnings ?r3 = warnings r1
          @ (if mark = 0
             then [git_ref_name rule @ '' in repository '' @ name r1
                    @ '' is branching but no exported commits exist in repository.''
                    @ '' creating an empty branch.'']
             else [])"
    by (simp add: log_warn_def)
  ultimately show ?thesis by blast
qed

text \<open>
  What \<open>createBranch\<close> queues once \<open>markFrom\<close> gave the mark \<open>mark\<close> and the description
  \<open>desc0\<close>, and left the queues, the name and the super-module as they were.
\<close>

lemma createBranch_queues:
  assumes sw: "starts_with (git_ref_name rule) ''refs/''" "starts_with branchFrom ''refs/''"
    and self: "submodule_in_repo (H this) \<noteq> Some this"
    and can: "\<forall>s. submodule_in_repo (H this) = Some s \<longrightarrow> can_demand opts (H s) (git_ref_name rule)"
    and mf: "markFrom h (H this) branchFrom n (''from branch '' @ branchFrom) = Inr (mark, desc0, r1)"
    and m: "mark \<noteq> - 1"
    and r1: "resetBranches r1 = resetBranches (H this)" "deletedBranches r1 = deletedBranches (H this)"
      "submodule_in_repo r1 = submodule_in_repo (H this)" "name r1 = name (H this)"
  shows "\<exists>H' backup. createBranch h opts H this rule rn branchFrom n = Inr H'
     \<and> (backup = [] \<or> backup = backup_cmd (git_ref_name rule) rn (mark = 0))
     \<and> resetBranches (H' this) =
           (if mark = 0 then AList.delete (git_ref_name rule) (resetBranches (H this))
            else AList.update (git_ref_name rule)
                   (str_value (resetBranches (H this)) (git_ref_name rule) @ backup
                    @ reset_cmd (git_ref_name rule) ('':'' @ to_string mark) rn mark desc0)
                   (resetBranches (H this)))
     \<and> deletedBranches (H' this) =
           (if mark = 0 \<and> \<not> qh_contains (resetBranches (H this)) (git_ref_name rule)
            then AList.update (git_ref_name rule)
                   (str_value (deletedBranches (H this)) (git_ref_name rule) @ backup
                    @ reset_cmd (git_ref_name rule) branchFrom rn 0 (desc0 @ '', deleted/unknown''))
                   (deletedBranches (H this))
            else deletedBranches (H this))
     \<and> warnings (H' this) = warnings r1
          @ (if mark = 0
             then [git_ref_name rule @ '' in repository '' @ name (H this)
                    @ '' is branching but no exported commits exist in repository.''
                    @ '' creating an empty branch.'']
             else [])"
proof -
  let ?R = "git_ref_name rule"
  from createBranch_step [where H = H and this = this, OF sw mf m, of opts rn] obtain r3 where
    cb: "createBranch h opts H this rule rn branchFrom n
       = resetBranch h opts (H(this := r3)) this rule ?R rn mark
           (if mark = 0 then branchFrom else '':'' @ to_string mark)
           (if mark = 0 then desc0 @ '', deleted/unknown'' else desc0)"
    and r3: "resetBranches r3 = resetBranches r1" "deletedBranches r3 = deletedBranches r1"
      "submodule_in_repo r3 = submodule_in_repo r1"
      "warnings r3 = warnings r1
          @ (if mark = 0
             then [git_ref_name rule @ '' in repository '' @ name r1
                    @ '' is branching but no exported commits exist in repository.''
                    @ '' creating an empty branch.'']
             else [])"
    by blast
  let ?H3 = "H(this := r3)"
  have self3: "submodule_in_repo (?H3 this) \<noteq> Some this" using self by (simp add: r3 r1)
  have can3: "\<forall>s. submodule_in_repo (?H3 this) = Some s \<longrightarrow> can_demand opts (?H3 s) ?R"
    using can self by (auto simp: r3 r1)
  from resetBranch_succeeds [where H = "H(this := r3)" and this = this, OF sw(1) can3] obtain H' where
    res: "resetBranch h opts ?H3 this rule ?R rn mark
           (if mark = 0 then branchFrom else '':'' @ to_string mark)
           (if mark = 0 then desc0 @ '', deleted/unknown'' else desc0) = Inr H'"
    by blast
  note rr = resetBranch_result(2,3,6) [where H = "H(this := r3)" and this = this, OF res self3]
  let ?br = "branch_value h (branches (?H3 this)) ?R"
  let ?backup = "if exists h ?br \<and> lastChangeRev ?br \<noteq> rn then backup_cmd ?R rn (mark = 0) else []"
  show ?thesis
    apply (rule exI [of _ H'], rule exI [of _ ?backup])
    using rr by (simp add: cb res r3 r1)
qed

text \<open>
  C5, amended. \<open>createBranch\<close>, on a source branch whose commits are in ascending order
  and as many as its marks, none of them negative (in a repository whose super-module,
  if there is one, can be given a transaction): when the source branch never changed
  or has no commit, it throws the \<open>runtime_error\<close>. Otherwise it returns, and the mark
  is that of the last commit at or before the revision asked for, or zero, with the
  warning \<open>No mark found\<close>, when there is none. When the mark is not zero, the command
  that resets the new branch to \<open>:<mark>\<close> is appended to what the resets hold for the
  ref (after a backup command or none), and nothing is logged. When the mark is zero,
  the warning that an empty branch is created is logged, the command resets the new
  branch to the ref name of the source, its comment ends with \<open>, deleted/unknown\<close>, and
  it is queued among the deletions; unless a reset of the new branch is queued, and
  then that reset is removed and nothing is queued.
\<close>

theorem createBranch_resets_to_closest_mark:
  assumes "R = git_ref_name rule"
    and "brFrom = branch_value h (branches (H this)) branchFrom"
    and "starts_with R ''refs/''" and "starts_with branchFrom ''refs/''"
    and "submodule_in_repo (H this) \<noteq> Some this"
    and "\<forall>s. submodule_in_repo (H this) = Some s \<longrightarrow> can_demand opts (H s) R"
    and "sorted (commits brFrom)" and "length (marks brFrom) = length (commits brFrom)"
    and "\<forall>m\<in>set (marks brFrom). 0 \<le> m"
  shows "(lastChangeRev brFrom = neverChanged h \<or> commits brFrom = [] \<longrightarrow>
            createBranch h opts H this rule rn branchFrom n
              = Inl (RuntimeError (R @ '' in repository '' @ name (H this)
                       @ '' is branching from branch '' @ branchFrom
                       @ '' but the latter doesn't exist. Can't continue.'')))
     \<and> (lastChangeRev brFrom \<noteq> neverChanged h \<and> commits brFrom \<noteq> [] \<longrightarrow>
          (\<exists>H' mark d backup. createBranch h opts H this rule rn branchFrom n = Inr H'
             \<and> ((\<exists>i<length (commits brFrom). mark = marks brFrom ! i \<and> commits brFrom ! i \<le> n
                    \<and> (\<forall>j<length (commits brFrom). commits brFrom ! j \<le> n \<longrightarrow> j \<le> i))
                \<or> (mark = 0 \<and> (\<forall>c\<in>set (commits brFrom). n < c)))
             \<and> (backup = [] \<or> backup = backup_cmd R rn (mark = 0))
             \<and> (mark \<noteq> 0 \<longrightarrow>
                   resetBranches (H' this) = AList.update R
                      (str_value (resetBranches (H this)) R @ backup
                       @ reset_cmd R ('':'' @ to_string mark) rn mark (''from branch '' @ branchFrom @ d))
                      (resetBranches (H this))
                 \<and> deletedBranches (H' this) = deletedBranches (H this))
             \<and> (mark = 0 \<and> \<not> qh_contains (resetBranches (H this)) R \<longrightarrow>
                   deletedBranches (H' this) = AList.update R
                      (str_value (deletedBranches (H this)) R @ backup
                       @ reset_cmd R branchFrom rn 0
                           (''from branch '' @ branchFrom @ d @ '', deleted/unknown''))
                      (deletedBranches (H this))
                 \<and> resetBranches (H' this) = resetBranches (H this))
             \<and> (mark = 0 \<and> qh_contains (resetBranches (H this)) R \<longrightarrow>
                   resetBranches (H' this) = AList.delete R (resetBranches (H this))
                 \<and> deletedBranches (H' this) = deletedBranches (H this))
             \<and> warnings (H' this) = warnings (H this)
                  @ (if \<forall>c\<in>set (commits brFrom). n < c
                     then [''No mark found for r'' @ to_string n @ '' of branch '' @ branchFrom
                            @ '' in repository '' @ name (H this)]
                     else [])
                  @ (if mark = 0
                     then [R @ '' in repository '' @ name (H this)
                            @ '' is branching but no exported commits exist in repository.''
                            @ '' creating an empty branch.'']
                     else [])))"
proof (intro conjI impI)
  assume "lastChangeRev brFrom = neverChanged h \<or> commits brFrom = []"
  then show "createBranch h opts H this rule rn branchFrom n
              = Inl (RuntimeError (R @ '' in repository '' @ name (H this)
                       @ '' is branching from branch '' @ branchFrom
                       @ '' but the latter doesn't exist. Can't continue.''))"
    using createBranch_never [of rule branchFrom h H this opts rn n] assms(1-4) by simp
next
  let ?desc = "''from branch '' @ branchFrom"
  assume "lastChangeRev brFrom \<noteq> neverChanged h \<and> commits brFrom \<noteq> []"
  then have some: "lastChangeRev (branch_value h (branches (H this)) branchFrom) \<noteq> neverChanged h"
    "commits (branch_value h (branches (H this)) branchFrom) \<noteq> []"
    by (simp_all add: assms(2))
  have sw: "starts_with (git_ref_name rule) ''refs/''" using assms(1,3) by simp
  have can: "\<forall>s. submodule_in_repo (H this) = Some s \<longrightarrow> can_demand opts (H s) (git_ref_name rule)"
    using assms(1,6) by simp
  have srt: "sorted (commits (branch_value h (branches (H this)) branchFrom))"
    and len: "length (marks (branch_value h (branches (H this)) branchFrom))
           = length (commits (branch_value h (branches (H this)) branchFrom))"
    using assms(2,7,8) by simp_all
  have "\<exists>mark d r1. markFrom h (H this) branchFrom n ?desc = Inr (mark, ?desc @ d, r1)
      \<and> mark \<noteq> - 1
      \<and> resetBranches r1 = resetBranches (H this) \<and> deletedBranches r1 = deletedBranches (H this)
      \<and> submodule_in_repo r1 = submodule_in_repo (H this) \<and> name r1 = name (H this)
      \<and> warnings r1 = warnings (H this)
                  @ (if \<forall>c\<in>set (commits brFrom). n < c
                     then [''No mark found for r'' @ to_string n @ '' of branch '' @ branchFrom
                            @ '' in repository '' @ name (H this)]
                     else [])
      \<and> ((\<exists>i<length (commits brFrom). mark = marks brFrom ! i \<and> commits brFrom ! i \<le> n
                    \<and> (\<forall>j<length (commits brFrom). commits brFrom ! j \<le> n \<longrightarrow> j \<le> i))
                \<or> (mark = 0 \<and> (\<forall>c\<in>set (commits brFrom). n < c)))"
  proof (cases "\<exists>c\<in>set (commits (branch_value h (branches (H this)) branchFrom)). c \<le> n")
    case True
    from markFrom_closest [OF assms(4) some(1) srt len True, of ?desc] obtain i d where
      mf: "markFrom h (H this) branchFrom n ?desc
           = Inr (marks brFrom ! i, ?desc @ d,
                  (H this)\<lparr>branches := branch_access h branchFrom (branches (H this))\<rparr>)"
      and i: "i < length (commits brFrom)" "commits brFrom ! i \<le> n"
         "\<forall>j<length (commits brFrom). commits brFrom ! j \<le> n \<longrightarrow> j \<le> i"
      unfolding assms(2) by blast
    from i(1) assms(8) have "marks brFrom ! i \<in> set (marks brFrom)" by simp
    with assms(9) have "marks brFrom ! i \<noteq> - 1" by fastforce
    moreover from True have "\<not> (\<forall>c\<in>set (commits brFrom). n < c)"
      unfolding assms(2) by fastforce
    ultimately show ?thesis
      using mf i
      apply (intro exI [of _ "marks brFrom ! i"] exI [of _ d]
          exI [of _ "(H this)\<lparr>branches := branch_access h branchFrom (branches (H this))\<rparr>"])
      by auto
  next
    case False
    then have none: "\<forall>c\<in>set (commits (branch_value h (branches (H this)) branchFrom)). n < c"
      by fastforce
    from markFrom_none_before [OF assms(4) some srt none, of ?desc]
    show ?thesis
      apply (intro exI [of _ 0] exI [of _ "[]"]
          exI [of _ "log_warn (''No mark found for r'' @ to_string n @ '' of branch '' @ branchFrom
                                  @ '' in repository '' @ name (H this))
                    ((H this)\<lparr>branches := branch_access h branchFrom (branches (H this))\<rparr>)"])
      using none by (simp add: assms(2) log_warn_def)
  qed
  then obtain mark d r1 where mf: "markFrom h (H this) branchFrom n ?desc = Inr (mark, ?desc @ d, r1)"
    and m: "mark \<noteq> - 1"
    and r1: "resetBranches r1 = resetBranches (H this)" "deletedBranches r1 = deletedBranches (H this)"
      "submodule_in_repo r1 = submodule_in_repo (H this)" "name r1 = name (H this)"
    and w1: "warnings r1 = warnings (H this)
                  @ (if \<forall>c\<in>set (commits brFrom). n < c
                     then [''No mark found for r'' @ to_string n @ '' of branch '' @ branchFrom
                            @ '' in repository '' @ name (H this)]
                     else [])"
    and closest: "(\<exists>i<length (commits brFrom). mark = marks brFrom ! i \<and> commits brFrom ! i \<le> n
                    \<and> (\<forall>j<length (commits brFrom). commits brFrom ! j \<le> n \<longrightarrow> j \<le> i))
                \<or> (mark = 0 \<and> (\<forall>c\<in>set (commits brFrom). n < c))"
    by blast
  from createBranch_queues [where H = H and this = this, OF sw assms(4,5) can mf m r1, of rn]
  obtain H' backup where q: "createBranch h opts H this rule rn branchFrom n = Inr H'"
     "backup = [] \<or> backup = backup_cmd R rn (mark = 0)"
     "resetBranches (H' this) =
           (if mark = 0 then AList.delete R (resetBranches (H this))
            else AList.update R
                   (str_value (resetBranches (H this)) R @ backup
                    @ reset_cmd R ('':'' @ to_string mark) rn mark (?desc @ d))
                   (resetBranches (H this)))"
     "deletedBranches (H' this) =
           (if mark = 0 \<and> \<not> qh_contains (resetBranches (H this)) R
            then AList.update R
                   (str_value (deletedBranches (H this)) R @ backup
                    @ reset_cmd R branchFrom rn 0 ((?desc @ d) @ '', deleted/unknown''))
                   (deletedBranches (H this))
            else deletedBranches (H this))"
     "warnings (H' this) = warnings r1
          @ (if mark = 0
             then [R @ '' in repository '' @ name (H this)
                    @ '' is branching but no exported commits exist in repository.''
                    @ '' creating an empty branch.'']
             else [])"
    unfolding assms(1) by blast
  have del: "AList.delete R xs = xs" if "\<not> qh_contains xs R" for xs :: "(string \<times> string) list"
    using that by (simp add: qh_contains_def map_of_eq_None_iff delete_id)
  show "\<exists>H' mark d backup. createBranch h opts H this rule rn branchFrom n = Inr H'
             \<and> ((\<exists>i<length (commits brFrom). mark = marks brFrom ! i \<and> commits brFrom ! i \<le> n
                    \<and> (\<forall>j<length (commits brFrom). commits brFrom ! j \<le> n \<longrightarrow> j \<le> i))
                \<or> (mark = 0 \<and> (\<forall>c\<in>set (commits brFrom). n < c)))
             \<and> (backup = [] \<or> backup = backup_cmd R rn (mark = 0))
             \<and> (mark \<noteq> 0 \<longrightarrow>
                   resetBranches (H' this) = AList.update R
                      (str_value (resetBranches (H this)) R @ backup
                       @ reset_cmd R ('':'' @ to_string mark) rn mark (''from branch '' @ branchFrom @ d))
                      (resetBranches (H this))
                 \<and> deletedBranches (H' this) = deletedBranches (H this))
             \<and> (mark = 0 \<and> \<not> qh_contains (resetBranches (H this)) R \<longrightarrow>
                   deletedBranches (H' this) = AList.update R
                      (str_value (deletedBranches (H this)) R @ backup
                       @ reset_cmd R branchFrom rn 0
                           (''from branch '' @ branchFrom @ d @ '', deleted/unknown''))
                      (deletedBranches (H this))
                 \<and> resetBranches (H' this) = resetBranches (H this))
             \<and> (mark = 0 \<and> qh_contains (resetBranches (H this)) R \<longrightarrow>
                   resetBranches (H' this) = AList.delete R (resetBranches (H this))
                 \<and> deletedBranches (H' this) = deletedBranches (H this))
             \<and> warnings (H' this) = warnings (H this)
                  @ (if \<forall>c\<in>set (commits brFrom). n < c
                     then [''No mark found for r'' @ to_string n @ '' of branch '' @ branchFrom
                            @ '' in repository '' @ name (H this)]
                     else [])
                  @ (if mark = 0
                     then [R @ '' in repository '' @ name (H this)
                            @ '' is branching but no exported commits exist in repository.''
                            @ '' creating an empty branch.'']
                     else [])"
    apply (rule exI [of _ H'], rule exI [of _ mark], rule exI [of _ d], rule exI [of _ backup])
    using q closest by (simp add: del w1)
qed

lemma example_master_facts:
  "branch_value example_h (branches example_super) ''refs/heads/master'' = example_master_branch"
  "commits example_master_branch = [1, 2, 4, 5, 6]" "marks example_master_branch = [1, 2, 3, 4, 5]"
  "lastChangeRev example_master_branch = 6" "neverChanged example_h = 0"
  "submodule_in_repo example_super = None"
  by (simp_all add: example_super_def branch_value_def example_master_branch_def
      example_h_def)

theorem createBranch_resets_to_closest_mark_witness:
  "\<exists>H' d backup. createBranch example_h example_opts example_store 0 example_rule 9 ''refs/heads/master'' 6
         = Inr H'
     \<and> resetBranches (H' 0) = [(''refs/heads/b'',
           backup @ reset_cmd ''refs/heads/b'' '':5'' 9 5 (''from branch refs/heads/master'' @ d))]
     \<and> deletedBranches (H' 0) = []
     \<and> warnings (H' 0) = []"
proof -
  let ?m = example_master_branch
  have ts: "to_string 5 = ''5''"
    by (simp add: to_string_def nat_to_string.simps digit_char_def)
  have h1: "''refs/heads/b'' = git_ref_name example_rule" by (simp add: example_store_facts)
  have h2: "?m = branch_value example_h (branches (example_store 0)) ''refs/heads/master''"
    by (simp add: example_store_facts example_master_facts)
  have h3: "starts_with ''refs/heads/b'' ''refs/''" "starts_with ''refs/heads/master'' ''refs/''"
    by (simp_all add: starts_with_def)
  have h5: "submodule_in_repo (example_store 0) \<noteq> Some 0"
    by (simp add: example_store_facts example_super_facts)
  have h6: "\<forall>s. submodule_in_repo (example_store 0) = Some s
      \<longrightarrow> can_demand example_opts (example_store s) ''refs/heads/b''"
    by (simp add: example_store_facts example_super_facts)
  have h7: "sorted (commits ?m)" "length (marks ?m) = length (commits ?m)" "\<forall>m\<in>set (marks ?m). 0 \<le> m"
    by (simp_all add: example_master_facts)
  have some: "lastChangeRev ?m \<noteq> neverChanged example_h \<and> commits ?m \<noteq> []"
    by (simp add: example_master_facts)
  have st: "resetBranches (example_store 0) = []" "deletedBranches (example_store 0) = []"
    "warnings (example_store 0) = []"
    by (simp_all add: example_store_facts example_super_facts example_super_def)
  from createBranch_resets_to_closest_mark
         [where R = "''refs/heads/b''" and rule = example_rule and brFrom = ?m
            and h = example_h and H = example_store and this = 0 and branchFrom = "''refs/heads/master''"
            and opts = example_opts and rn = 9 and n = 6, OF h1 h2 h3 h5 h6 h7] some
  obtain H' mark d backup where res:
    "createBranch example_h example_opts example_store 0 example_rule 9 ''refs/heads/master'' 6 = Inr H'"
    and closest: "(\<exists>i<length (commits ?m). mark = marks ?m ! i \<and> commits ?m ! i \<le> 6
                    \<and> (\<forall>j<length (commits ?m). commits ?m ! j \<le> 6 \<longrightarrow> j \<le> i))
                \<or> (mark = 0 \<and> (\<forall>c\<in>set (commits ?m). 6 < c))"
    and queued: "mark \<noteq> 0 \<longrightarrow>
                   resetBranches (H' 0) = AList.update ''refs/heads/b''
                      (str_value (resetBranches (example_store 0)) ''refs/heads/b'' @ backup
                       @ reset_cmd ''refs/heads/b'' ('':'' @ to_string mark) 9 mark
                           (''from branch '' @ ''refs/heads/master'' @ d))
                      (resetBranches (example_store 0))
                 \<and> deletedBranches (H' 0) = deletedBranches (example_store 0)"
    and warned: "warnings (H' 0) = warnings (example_store 0)
                  @ (if \<forall>c\<in>set (commits ?m). 6 < c
                     then [''No mark found for r'' @ to_string 6 @ '' of branch '' @ ''refs/heads/master''
                            @ '' in repository '' @ name (example_store 0)]
                     else [])
                  @ (if mark = 0
                     then [''refs/heads/b'' @ '' in repository '' @ name (example_store 0)
                            @ '' is branching but no exported commits exist in repository.''
                            @ '' creating an empty branch.'']
                     else [])"
    by blast
  have last: "\<not> (\<forall>c\<in>set (commits ?m). 6 < c)" by (simp add: example_master_facts)
  with closest obtain i where i: "i < length (commits ?m)" "mark = marks ?m ! i"
    "\<forall>j<length (commits ?m). commits ?m ! j \<le> 6 \<longrightarrow> j \<le> i"
    by blast
  from i(3) [rule_format, of 4] have "4 \<le> i" by (simp add: example_master_facts)
  with i(1) have "i = 4" by (simp add: example_master_facts)
  with i(2) have m: "mark = 5" by (simp add: example_master_facts)
  from queued m have q: "resetBranches (H' 0) = [(''refs/heads/b'',
           backup @ reset_cmd ''refs/heads/b'' '':5'' 9 5 (''from branch refs/heads/master'' @ d))]"
    "deletedBranches (H' 0) = []"
    by (simp_all add: st ts str_value_def)
  from warned m last have w: "warnings (H' 0) = []" by (simp add: st)
  show ?thesis
    apply (rule exI [of _ H'], rule exI [of _ d], rule exI [of _ backup])
    using res q w by simp
qed

text \<open>
  Against C5 as stated: revision 9 creates \<open>refs/heads/b\<close> from \<open>refs/heads/master\<close>, which
  queues a reset, and then creates it again from \<open>refs/heads/old\<close> at revision 8, whose
  closest commit, of revision 4, has the mark zero. The queued reset is removed and
  nothing is queued: the branch is not reset to \<open>refs/heads/old\<close>, and \<open>prepare_commit\<close>
  writes nothing.
\<close>

theorem createBranch_zero_mark_drops_reset_counterexample:
  "createBranch example_h example_opts example_old_store 0 example_rule 9 ''refs/heads/master'' 6
       = Inr example_queued_store
     \<and> resetBranches (example_queued_store 0) = [(''refs/heads/b'',
         backup_cmd ''refs/heads/b'' 9 False
         @ reset_cmd ''refs/heads/b'' '':5'' 9 5 ''from branch refs/heads/master'')]
     \<and> commits example_old_branch = [3, 4] \<and> marks example_old_branch = [2, 0]
     \<and> createBranch example_h example_opts example_queued_store 0 example_rule 9 ''refs/heads/old'' 8
       = Inr example_dropped_store
     \<and> resetBranches (example_dropped_store 0) = []
     \<and> deletedBranches (example_dropped_store 0) = []
     \<and> fastImport (example_dropped_store 0) = []
     \<and> prepare_commit example_h example_opts (map snd) example_dropped_store 0 9 = Inr example_dropped_store"
proof -
  have ts: "to_string 9 = ''9''" "to_string 0 = ''0''" "to_string 5 = ''5''" "to_string 8 = ''8''"
    "to_string 4 = ''4''"
    by (simp_all add: to_string_def nat_to_string.simps digit_char_def)
  have sw: "starts_with ''refs/heads/b'' ''refs/''" "starts_with ''refs/heads/master'' ''refs/''"
    "starts_with ''refs/heads/old'' ''refs/''"
    by (simp_all add: starts_with_def)
  have mf1: "markFrom example_h (example_old_store 0) ''refs/heads/master'' 6 ''from branch refs/heads/master''
      = Inr (5, ''from branch refs/heads/master'', example_old_store 0)"
    by (simp add: markFrom_def Let_def sw example_old_store_def example_super_def branch_access_def
        branch_value_def example_master_branch_def example_h_def)
  have c1: "createBranch example_h example_opts example_old_store 0 example_rule 9 ''refs/heads/master'' 6
       = Inr example_queued_store"
    by (simp add: createBranch_def Let_def example_store_facts sw mf1 ts resetBranch_def)
       (simp add: example_old_store_def example_queued_store_def example_super_def example_store_def
          branch_access_def branch_value_def example_branch_b_def example_master_branch_def
          example_h_def qh_contains_def str_value_def)
  have mf2: "markFrom example_h (example_queued_store 0) ''refs/heads/old'' 8 ''from branch refs/heads/old''
      = Inr (0, ''from branch refs/heads/old at r8 => r4'', example_queued_store 0)"
    by (simp add: markFrom_def Let_def sw example_queued_store_def example_old_store_def
        example_super_def branch_access_def branch_value_def example_old_branch_def example_h_def
        qUpperBound_def qUpperBound_loop.simps ts)
  have c2: "createBranch example_h example_opts example_queued_store 0 example_rule 9 ''refs/heads/old'' 8
       = Inr example_dropped_store"
    by (simp add: createBranch_def Let_def example_store_facts sw mf2 ts resetBranch_def)
       (simp add: example_old_store_def example_queued_store_def example_dropped_store_def
          example_super_def example_store_def log_warn_def
          branch_access_def branch_value_def example_branch_b_def example_master_branch_def
          example_old_branch_def example_h_def qh_contains_def str_value_def)
  have q: "resetBranches (example_queued_store 0) = [(''refs/heads/b'',
         backup_cmd ''refs/heads/b'' 9 False
         @ reset_cmd ''refs/heads/b'' '':5'' 9 5 ''from branch refs/heads/master'')]"
    by (simp add: example_queued_store_def)
  have d: "resetBranches (example_dropped_store 0) = []" "deletedBranches (example_dropped_store 0) = []"
    "fastImport (example_dropped_store 0) = []"
    by (simp_all add: example_dropped_store_def example_queued_store_def example_old_store_def
        example_super_def)
  have p: "prepare_commit example_h example_opts (map snd) example_dropped_store 0 9 = Inr example_dropped_store"
    by (simp add: prepare_commit_def d)
  have o: "commits example_old_branch = [3, 4]" "marks example_old_branch = [2, 0]"
    by (simp_all add: example_old_branch_def)
  from c1 q o c2 d p show ?thesis by simp
qed

section \<open>Invariants of a run\<close>

subsection \<open>Appending in lockstep\<close>

lemma lockstep_iff:
  "lockstep h r \<longleftrightarrow> (\<forall>k. length (commits (branch_value h (branches r) k))
                              = length (marks (branch_value h (branches r) k)))"
proof
  assume l: "lockstep h r"
  show "\<forall>k. length (commits (branch_value h (branches r) k)) = length (marks (branch_value h (branches r) k))"
  proof
    fix k
    show "length (commits (branch_value h (branches r) k)) = length (marks (branch_value h (branches r) k))"
    proof (cases "k \<in> set (map fst (branches r))")
      case True
      with l show ?thesis unfolding lockstep_def by blast
    next
      case False
      then have "map_of (branches r) k = None" by (simp add: map_of_eq_None_iff)
      then show ?thesis by (simp add: branch_value_def new_Branch_def)
    qed
  qed
next
  assume "\<forall>k. length (commits (branch_value h (branches r) k)) = length (marks (branch_value h (branches r) k))"
  then show "lockstep h r" unfolding lockstep_def by blast
qed

lemma appends_refl [simp]: "appends h r r"
  by (simp add: appends_def)

lemma appends_trans: "appends h r r1 \<Longrightarrow> appends h r1 r2 \<Longrightarrow> appends h r r2"
  unfolding appends_def
proof
  fix k
  assume a: "\<forall>k. \<exists>cs ms. commits (branch_value h (branches r1) k) = commits (branch_value h (branches r) k) @ cs
     \<and> marks (branch_value h (branches r1) k) = marks (branch_value h (branches r) k) @ ms
     \<and> length cs = length ms"
    and b: "\<forall>k. \<exists>cs ms. commits (branch_value h (branches r2) k) = commits (branch_value h (branches r1) k) @ cs
     \<and> marks (branch_value h (branches r2) k) = marks (branch_value h (branches r1) k) @ ms
     \<and> length cs = length ms"
  from a obtain cs ms where 1: "commits (branch_value h (branches r1) k) = commits (branch_value h (branches r) k) @ cs"
    "marks (branch_value h (branches r1) k) = marks (branch_value h (branches r) k) @ ms" "length cs = length ms"
    by blast
  from b obtain cs' ms' where 2: "commits (branch_value h (branches r2) k) = commits (branch_value h (branches r1) k) @ cs'"
    "marks (branch_value h (branches r2) k) = marks (branch_value h (branches r1) k) @ ms'" "length cs' = length ms'"
    by blast
  show "\<exists>cs ms. commits (branch_value h (branches r2) k) = commits (branch_value h (branches r) k) @ cs
     \<and> marks (branch_value h (branches r2) k) = marks (branch_value h (branches r) k) @ ms
     \<and> length cs = length ms"
    apply (rule exI [of _ "cs @ cs'"], rule exI [of _ "ms @ ms'"])
    using 1 2 by simp
qed

lemma appends_lockstep: "appends h r r' \<Longrightarrow> lockstep h r \<Longrightarrow> lockstep h r'"
  unfolding lockstep_iff appends_def
proof
  fix k
  assume a: "\<forall>k. \<exists>cs ms. commits (branch_value h (branches r') k) = commits (branch_value h (branches r) k) @ cs
     \<and> marks (branch_value h (branches r') k) = marks (branch_value h (branches r) k) @ ms
     \<and> length cs = length ms"
    and l: "\<forall>k. length (commits (branch_value h (branches r) k)) = length (marks (branch_value h (branches r) k))"
  from a obtain cs ms where "commits (branch_value h (branches r') k) = commits (branch_value h (branches r) k) @ cs"
    "marks (branch_value h (branches r') k) = marks (branch_value h (branches r) k) @ ms" "length cs = length ms"
    by blast
  with l show "length (commits (branch_value h (branches r') k)) = length (marks (branch_value h (branches r') k))"
    by simp
qed

text \<open>Ways to see that nothing was appended.\<close>

lemma appends_same_values:
  "(\<And>k. commits (branch_value h (branches r') k) = commits (branch_value h (branches r) k)
        \<and> marks (branch_value h (branches r') k) = marks (branch_value h (branches r) k))
     \<Longrightarrow> appends h r r'"
  by (simp add: appends_def)

lemma appends_same_table: "branches r' = branches r \<Longrightarrow> appends h r r'"
  by (simp add: appends_def)

lemma appends_access: "appends h r (r\<lparr>branches := branch_access h k (branches r)\<rparr>)"
proof (rule appends_same_values)
  fix j
  show "commits (branch_value h (branches (r\<lparr>branches := branch_access h k (branches r)\<rparr>)) j)
          = commits (branch_value h (branches r) j)
        \<and> marks (branch_value h (branches (r\<lparr>branches := branch_access h k (branches r)\<rparr>)) j)
          = marks (branch_value h (branches r) j)"
    by (cases "j = k") (simp_all add: branch_access_def)
qed

lemma appends_one:
  assumes "branches r' = AList.update k
      ((branch_value h (branches r) k)\<lparr>lastChangeRev := lc,
          commits := commits (branch_value h (branches r) k) @ [c],
          marks := marks (branch_value h (branches r) k) @ [m]\<rparr>) bs"
    and "\<And>j. j \<noteq> k \<Longrightarrow> branch_value h bs j = branch_value h (branches r) j"
  shows "appends h r r'"
  unfolding appends_def
proof
  fix j
  show "\<exists>cs ms. commits (branch_value h (branches r') j) = commits (branch_value h (branches r) j) @ cs
     \<and> marks (branch_value h (branches r') j) = marks (branch_value h (branches r) j) @ ms
     \<and> length cs = length ms"
  proof (cases "j = k")
    case True
    show ?thesis
      apply (rule exI [of _ "[c]"], rule exI [of _ "[m]"])
      using True by (simp add: assms(1))
  next
    case False
    show ?thesis
      apply (rule exI [of _ "[]"], rule exI [of _ "[]"])
      using False assms(2) [OF False] by (simp add: assms(1))
  qed
qed

lemma same_counters_refl [simp]: "same_counters r r"
  by (simp add: same_counters_def)

lemma same_counters_trans: "same_counters r r1 \<Longrightarrow> same_counters r1 r2 \<Longrightarrow> same_counters r r2"
  by (simp add: same_counters_def)

subsection \<open>What the calls on one repository do to branches and counters\<close>

lemma startFastImport_quiet:
  assumes "startFastImport h opts r = Inr r1"
  shows "appends h r r1" and "same_counters r r1" and "transactions r1 = transactions r"
proof -
  from startFastImport_result [OF assms] obtain pre a b where
    r1: "r1 = r\<lparr>processHasStarted := a, fastImport_running := b, fastImport := fastImport r @ pre\<rparr>"
    by blast
  show "appends h r r1" by (rule appends_same_table) (simp add: r1)
  show "same_counters r r1" by (simp add: r1 same_counters_def)
  show "transactions r1 = transactions r" by (simp add: r1)
qed

lemma closeFastImport_quiet:
  "appends h r (closeFastImport r)" "same_counters r (closeFastImport r)"
  by (auto simp: closeFastImport_def fi_write_def same_counters_def intro: appends_same_table)

lemma demandTransaction_quiet:
  assumes "demandTransaction h opts r br svnpfx rn = Inr r'"
  shows "appends h r r'" and "same_counters r r'"
  using demandTransaction_frame(1-3) [OF assms]
  by (auto simp: same_counters_def intro: appends_same_table)

lemma Transaction_deleteFile_quiet:
  assumes "Transaction_deleteFile r key path = Inr r'"
  shows "appends h r r'" and "same_counters r r'"
  using assms
  by (auto simp: Transaction_deleteFile_def with_txn_def Let_def set_txn_def same_counters_def
      split: option.splits intro: appends_same_table)

lemma Transaction_updateSubmodule_quiet:
  assumes "Transaction_updateSubmodule r key sub_path m = Inr r'"
  shows "appends h r r'" and "same_counters r r'"
  using assms
  by (auto simp: Transaction_updateSubmodule_def with_txn_def Let_def set_txn_def same_counters_def
      split: option.splits intro: appends_same_table)

lemma Transaction_addFile_appends:
  assumes "Transaction_addFile h opts r key path mode len = Inr (m, r')"
  shows "appends h r r'"
  using Transaction_addFile_result(5) [OF assms] by (rule appends_same_table)

lemma markFrom_quiet:
  assumes "markFrom h r branchFrom n desc = Inr (m, desc', r1)"
  shows "appends h r r1" and "same_counters r r1" and "transactions r1 = transactions r"
    and "name r1 = name r"
proof -
  let ?r0 = "r\<lparr>branches := branch_access h branchFrom (branches r)\<rparr>"
  from assms have "r1 = ?r0 \<or> (\<exists>w. r1 = log_warn w ?r0)"
    by (auto simp: markFrom_def Let_def split: if_splits)
  then have r1: "branches r1 = branches ?r0" "last_commit_mark r1 = last_commit_mark r"
    "next_file_mark r1 = next_file_mark r" "transactions r1 = transactions r" "name r1 = name r"
    by (auto simp: log_warn_def)
  have "appends h ?r0 r1" using r1(1) by (rule appends_same_table)
  with appends_access [of h r branchFrom] show "appends h r r1" by (rule appends_trans)
  show "same_counters r r1" using r1 by (simp add: same_counters_def)
  show "transactions r1 = transactions r" "name r1 = name r" using r1 by simp_all
qed

lemma Transaction_noteCopyFromBranch_quiet:
  assumes "Transaction_noteCopyFromBranch h r key branchFrom n = Inr r'"
  shows "appends h r r'" and "same_counters r r'"
proof -
  from assms obtain t where t: "map_of (transactions r) key = Some t"
    by (auto simp: Transaction_noteCopyFromBranch_def with_txn_def split: option.splits)
  have "appends h r r' \<and> same_counters r r'"
  proof (cases "branch t = branchFrom")
    case True
    with assms t have "r' = log_warn (''Cannot merge inside a branch in repository '' @ name r) r"
      by (auto simp: Transaction_noteCopyFromBranch_def with_txn_def split: if_splits)
    then show ?thesis by (auto simp: log_warn_def same_counters_def intro: appends_same_table)
  next
    case False
    with assms t obtain m d r1 where mf: "markFrom h r branchFrom n [] = Inr (m, d, r1)"
      and r': "r' = r1 \<or> (\<exists>w. r' = log_warn w r1) \<or> (\<exists>t'. r' = set_txn key t' r1)"
      by (auto simp: Transaction_noteCopyFromBranch_def with_txn_def and_then_Inr_iff split: if_splits)
    from r' have "branches r' = branches r1" "last_commit_mark r' = last_commit_mark r1"
      "next_file_mark r' = next_file_mark r1"
      by (auto simp: log_warn_def set_txn_def)
    then have "appends h r1 r'" "same_counters r1 r'"
      by (auto simp: same_counters_def intro: appends_same_table)
    with markFrom_quiet(1,2) [OF mf] show ?thesis
      by (blast intro: appends_trans same_counters_trans)
  qed
  then show "appends h r r'" and "same_counters r r'" by simp_all
qed

lemma Transaction_commitNote_quiet:
  assumes "Transaction_commitNote h r key noteText appnd commit_arg = Inr r'"
  shows "appends h r r'" and "same_counters r r'" and "transactions r' = transactions r"
proof -
  from assms obtain t where t: "map_of (transactions r) key = Some t"
    and sw: "starts_with (branch t) ''refs/''"
    by (auto simp: Transaction_commitNote_def with_txn_def split: option.splits if_splits)
  from Transaction_commitNote_result [OF t sw, of h noteText appnd commit_arg] assms
  obtain s bs where r': "r' = r\<lparr>fastImport := fastImport r @ [s], branches := bs\<rparr>"
    and same: "\<forall>k. commits (branch_value h bs k) = commits (branch_value h (branches r) k)
                 \<and> marks (branch_value h bs k) = marks (branch_value h (branches r) k)"
    by auto
  show "appends h r r'" by (rule appends_same_values) (simp add: r' same)
  show "same_counters r r'" by (simp add: r' same_counters_def)
  show "transactions r' = transactions r" by (simp add: r')
qed

subsection \<open>Commits\<close>

text \<open>When \<open>Transaction::commit\<close> returns, the conditions of \<open>Transaction_commit_result\<close> hold.\<close>

lemma Transaction_commit_returns:
  assumes "Transaction_commit h opts r key = Inr (m, r')"
  shows "\<exists>t r1. map_of (transactions r) key = Some t \<and> startFastImport h opts r = Inr r1
     \<and> last_commit_mark r + 1 < next_file_mark r - 1
     \<and> \<not> (exists h (branch_value h (branches r) (branch t))
            \<and> marks (branch_value h (branches r) (branch t)) = [])
     \<and> starts_with (branch t) ''refs/''"
proof -
  from assms obtain t where t: "map_of (transactions r) key = Some t"
    by (auto simp: Transaction_commit_def with_txn_def split: option.splits)
  from assms t obtain r1 where sfi: "startFastImport h opts r = Inr r1"
    by (cases "startFastImport h opts r") (auto simp: Transaction_commit_def with_txn_def)
  from startFastImport_result [OF sfi] obtain pre a b where
    r1: "r1 = r\<lparr>processHasStarted := a, fastImport_running := b, fastImport := fastImport r @ pre\<rparr>"
    by blast
  have bv: "branch_value h (branch_access h (branch t) (branches r)) (branch t)
              = branch_value h (branches r) (branch t)" by simp
  from assms have room: "last_commit_mark r + 1 < next_file_mark r - 1"
    by (rule contrapos_pp) (simp add: Transaction_commit_def with_txn_def t sfi Let_def r1)
  from assms room have ne: "\<not> (exists h (branch_value h (branches r) (branch t))
            \<and> marks (branch_value h (branches r) (branch t)) = [])"
    by (rule_tac contrapos_pp [of "Transaction_commit h opts r key = Inr (m, r')"])
       (simp_all add: Transaction_commit_def with_txn_def t sfi Let_def r1 bv)
  from assms room ne have refs: "starts_with (branch t) ''refs/''"
    by (rule_tac contrapos_pp [of "Transaction_commit h opts r key = Inr (m, r')"])
       (auto simp: Transaction_commit_def with_txn_def t sfi Let_def r1 bv)
  from t sfi room ne refs show ?thesis by blast
qed

lemma Transaction_commit_marks:
  assumes "Transaction_commit h opts r key = Inr (m, r')"
  shows "m = last_commit_mark r + 1" and "last_commit_mark r' = last_commit_mark r + 1"
    and "next_file_mark r' = next_file_mark r"
    and "last_commit_mark r + 1 < next_file_mark r - 1"
    and "appends h r r'"
    and "\<exists>t. map_of (transactions r) key = Some t
           \<and> commits (branch_value h (branches r') (branch t))
               = commits (branch_value h (branches r) (branch t)) @ [revnum t]
           \<and> marks (branch_value h (branches r') (branch t))
               = marks (branch_value h (branches r) (branch t)) @ [m]"
proof -
  from Transaction_commit_returns [OF assms] obtain t r1 where
    c: "map_of (transactions r) key = Some t" "startFastImport h opts r = Inr r1"
     "last_commit_mark r + 1 < next_file_mark r - 1"
     "\<not> (exists h (branch_value h (branches r) (branch t))
            \<and> marks (branch_value h (branches r) (branch t)) = [])"
     "starts_with (branch t) ''refs/''"
    by blast
  obtain ml lines desc ws where wmp: "write_merge_parents (name r)
      (parent_mark h (branch_value h (branches r) (branch t))) t = (ml, lines, desc, ws)"
    by (cases "write_merge_parents (name r) (parent_mark h (branch_value h (branches r) (branch t))) t")
  from Transaction_commit_result [OF c wmp] assms
  have res: "m = last_commit_mark r + 1" "last_commit_mark r' = last_commit_mark r + 1"
    "next_file_mark r' = next_file_mark r"
    and br: "\<forall>k. commits (branch_value h (branches r') k)
               = (if k = branch t then commits (branch_value h (branches r) (branch t)) @ [revnum t]
                  else commits (branch_value h (branches r) k))
            \<and> marks (branch_value h (branches r') k)
               = (if k = branch t then marks (branch_value h (branches r) (branch t)) @ [last_commit_mark r + 1]
                  else marks (branch_value h (branches r) k))"
    by auto
  show "m = last_commit_mark r + 1" "last_commit_mark r' = last_commit_mark r + 1"
    "next_file_mark r' = next_file_mark r" by (rule res)+
  show "last_commit_mark r + 1 < next_file_mark r - 1" by (rule c(3))
  show "appends h r r'"
    unfolding appends_def
  proof
    fix k
    show "\<exists>cs ms. commits (branch_value h (branches r') k) = commits (branch_value h (branches r) k) @ cs
       \<and> marks (branch_value h (branches r') k) = marks (branch_value h (branches r) k) @ ms
       \<and> length cs = length ms"
    proof (cases "k = branch t")
      case True
      show ?thesis
        apply (rule exI [of _ "[revnum t]"], rule exI [of _ "[last_commit_mark r + 1]"])
        using True br by simp
    next
      case False
      show ?thesis
        apply (rule exI [of _ "[]"], rule exI [of _ "[]"])
        using False br by simp
    qed
  qed
  show "\<exists>t. map_of (transactions r) key = Some t
           \<and> commits (branch_value h (branches r') (branch t))
               = commits (branch_value h (branches r) (branch t)) @ [revnum t]
           \<and> marks (branch_value h (branches r') (branch t))
               = marks (branch_value h (branches r) (branch t)) @ [m]"
    using c(1) br res(1) by auto
qed

text \<open>The loop of \<open>Repository::commit\<close> allocates consecutive marks.\<close>

lemma commit_loop_marks:
  "commit_loop h opts a e l ks r = Inr (ms, r') \<Longrightarrow>
     ms = [last_commit_mark r + 1 .. last_commit_mark r'] \<and> last_commit_mark r \<le> last_commit_mark r'
     \<and> next_file_mark r' = next_file_mark r \<and> appends h r r'
     \<and> (ms \<noteq> [] \<longrightarrow> last_commit_mark r' < next_file_mark r - 1)"
proof (induction ks arbitrary: r ms)
  case Nil
  then show ?case by simp
next
  case (Cons key ks)
  from Cons.prems obtain r1 m r2 ms' where
    s: "with_txn r key (\<lambda>t. Inr (set_txn key (t\<lparr>author := a, datetime := e, log := l\<rparr>) r)) = Inr r1"
    and c: "Transaction_commit h opts r1 key = Inr (m, r2)"
    and rest: "commit_loop h opts a e l ks r2 = Inr (ms', r')"
    and ms: "ms = m # ms'"
    by (auto simp: and_then_Inr_iff)
  from s have r1: "last_commit_mark r1 = last_commit_mark r" "next_file_mark r1 = next_file_mark r"
    "branches r1 = branches r"
    by (auto simp: with_txn_def set_txn_def split: option.splits)
  note c' = Transaction_commit_marks [OF c]
  from Cons.IH [OF rest] have ih: "ms' = [last_commit_mark r2 + 1 .. last_commit_mark r']"
    "last_commit_mark r2 \<le> last_commit_mark r'" "next_file_mark r' = next_file_mark r2"
    "appends h r2 r'" "ms' \<noteq> [] \<longrightarrow> last_commit_mark r' < next_file_mark r2 - 1"
    by simp_all
  have "m # ms' = [last_commit_mark r + 1 .. last_commit_mark r']"
    using ih(1,2) c'(1,2) r1(1) by (simp add: upto_rec1 [of "last_commit_mark r + 1"])
  moreover have "appends h r r1" using r1(3) by (rule appends_same_table)
  then have "appends h r r'" using c'(5) ih(4) by (blast intro: appends_trans)
  moreover have "last_commit_mark r' < next_file_mark r - 1"
  proof (cases "ms' = []")
    case True
    with ih(1,2) have "last_commit_mark r' = last_commit_mark r2" by simp
    with c'(2,4) r1 show ?thesis by simp
  next
    case False
    with ih(5) c'(3) r1 show ?thesis by simp
  qed
  ultimately show ?case using ms ih c' r1 by simp
qed

lemma Repository_commit_marks:
  assumes "Repository_commit h opts r a e l = Inr (ms, r')"
  shows "ms = [last_commit_mark r + 1 .. last_commit_mark r']"
    and "last_commit_mark r \<le> last_commit_mark r'"
    and "next_file_mark r' = maxMark" and "appends h r r'"
    and "ms \<noteq> [] \<Longrightarrow> last_commit_mark r' < next_file_mark r - 1"
    and "transactions r' = []"
proof -
  from assms obtain r1 where l: "commit_loop h opts a e l (map fst (transactions r)) r = Inr (ms, r1)"
    and r': "r' = r1\<lparr>transactions := [], next_file_mark := maxMark\<rparr>"
    by (auto simp: Repository_commit_def and_then_Inr_iff)
  note c = commit_loop_marks [OF l]
  show "ms = [last_commit_mark r + 1 .. last_commit_mark r']" using c by (simp add: r')
  show "last_commit_mark r \<le> last_commit_mark r'" using c by (simp add: r')
  show "next_file_mark r' = maxMark" by (simp add: r')
  have "appends h r1 r'" by (rule appends_same_table) (simp add: r')
  with c show "appends h r r'" by (blast intro: appends_trans)
  show "ms \<noteq> [] \<Longrightarrow> last_commit_mark r' < next_file_mark r - 1" using c by (simp add: r')
  show "transactions r' = []" by (simp add: r')
qed

subsection \<open>Resuming\<close>

lemma setupIncremental_loop_appends:
  "setupIncremental_loop h cutoff lvm entries last_revnum r = (beyond, cutoff', last', r') \<Longrightarrow>
     appends h r r'"
proof (induction entries arbitrary: r last_revnum)
  case Nil
  then show ?case by simp
next
  case (Cons entry rest)
  obtain rn qbranch mark where entry: "entry = (rn, qbranch, mark)" by (cases entry)
  show ?case
  proof (cases "rn \<ge> cutoff")
    case True
    with Cons.prems entry show ?thesis by simp
  next
    case False
    define r1 where "r1 = (if rn < last_revnum
                   then log_warn (name r @ '' revision numbers are not monotonic: '' @ '' got ''
                          @ to_string last_revnum @ '' and then '' @ to_string rn) r
                   else r)"
    have a1: "appends h r r1" by (rule appends_same_table) (simp add: r1_def log_warn_def)
    show ?thesis
    proof (cases "mark > lvm")
      case True
      with Cons.prems entry False have "branches r' = branches r"
        by (auto simp: Let_def log_warn_def split: if_splits)
      then show ?thesis by (rule appends_same_table)
    next
      case nb: False
      define bs where "bs = branch_access h qbranch (branches r1)"
      define br where "br = branch_value h (branches r1) qbranch"
      define lc where "lc = (if \<not> exists h br \<or> mark = 0 then rn else lastChangeRev br)"
      define r2 where "r2 = r1\<lparr>last_commit_mark := (if last_commit_mark r1 < mark then mark else last_commit_mark r1),
                        branches := AList.update qbranch
                          (br\<lparr>lastChangeRev := lc, commits := commits br @ [rn], marks := marks br @ [mark]\<rparr>) bs\<rparr>"
      have step: "setupIncremental_loop h cutoff lvm rest rn r2 = (beyond, cutoff', last', r')"
      proof (cases "exists h (branch_value h (branches r1) qbranch) \<and> mark \<noteq> 0")
        case True
        with Cons.prems entry False nb show ?thesis
          by (cases "last_commit_mark r1 < mark")
             (simp_all add: Let_def r1_def [symmetric] r2_def bs_def br_def lc_def)
      next
        case keep: False
        with Cons.prems entry False nb show ?thesis
          by (cases "last_commit_mark r1 < mark")
             (auto simp: Let_def r1_def [symmetric] r2_def bs_def br_def lc_def)
      qed
      have "appends h r1 r2"
      proof (rule appends_one [where k = qbranch and bs = bs and lc = lc and c = rn and m = mark])
        show "branches r2 = AList.update qbranch
          ((branch_value h (branches r1) qbranch)\<lparr>lastChangeRev := lc,
             commits := commits (branch_value h (branches r1) qbranch) @ [rn],
             marks := marks (branch_value h (branches r1) qbranch) @ [mark]\<rparr>) bs"
          by (simp add: r2_def br_def)
        show "\<And>j. j \<noteq> qbranch \<Longrightarrow> branch_value h bs j = branch_value h (branches r1) j"
          by (simp add: bs_def branch_access_def)
      qed
      with a1 Cons.IH [OF step] show ?thesis by (blast intro: appends_trans)
    qed
  qed
qed

lemma setupIncremental_appends:
  "setupIncremental h r cutoff lvm logfile = (rv, cutoff', r') \<Longrightarrow> appends h r r'"
proof (cases logfile)
  case None
  assume "setupIncremental h r cutoff lvm logfile = (rv, cutoff', r')"
  with None show ?thesis by (simp add: setupIncremental_def)
next
  case (Some entries)
  assume a: "setupIncremental h r cutoff lvm logfile = (rv, cutoff', r')"
  obtain beyond c l r1 where loop: "setupIncremental_loop h cutoff lvm entries 0 r = (beyond, c, l, r1)"
    by (cases "setupIncremental_loop h cutoff lvm entries 0 r")
  with a Some have "r' = r1" by (simp add: setupIncremental_def split: if_splits)
  with setupIncremental_loop_appends [OF loop] show ?thesis by simp
qed

subsection \<open>What the calls on a store do to branches and counters\<close>

lemma submoduleChanged_quiet:
  assumes "submoduleChanged h opts H s sub rule mark rn = Inr H'"
  shows "appends h (H p) (H' p)" and "same_counters (H p) (H' p)"
proof -
  have "appends h (H p) (H' p) \<and> same_counters (H p) (H' p)"
  proof (cases "p = s")
    case False
    with submoduleChanged_frame [OF assms, of p] show ?thesis by simp
  next
    case True
    show ?thesis
    proof (cases "mark \<noteq> 0 \<or> map_of (submodules (branch_value h (branches (H s)) (git_ref_name rule)))
               (submodule_path (H sub)) \<noteq> None")
      case go: True
      from submoduleChanged_result [OF assms go] obtain r' where r': "H' = H(s := r')"
        and other: "\<forall>k. k \<noteq> git_ref_name rule \<longrightarrow>
            branch_value h (branches r') k = branch_value h (branches (H s)) k"
        and same: "commits (branch_value h (branches r') (git_ref_name rule))
          = commits (branch_value h (branches (H s)) (git_ref_name rule))"
          "marks (branch_value h (branches r') (git_ref_name rule))
          = marks (branch_value h (branches (H s)) (git_ref_name rule))"
        and cnt: "last_commit_mark r' = last_commit_mark (H s)" "next_file_mark r' = next_file_mark (H s)"
        by blast
      have "appends h (H s) r'"
      proof (rule appends_same_values)
        fix k
        show "commits (branch_value h (branches r') k) = commits (branch_value h (branches (H s)) k)
          \<and> marks (branch_value h (branches r') k) = marks (branch_value h (branches (H s)) k)"
          using other same by (cases "k = git_ref_name rule") simp_all
      qed
      with cnt True show ?thesis by (simp add: r' same_counters_def)
    next
      case False
      then have "submoduleChanged h opts H s sub rule mark rn
           = Inr (H(s := (H s)\<lparr>branches := branch_access h (git_ref_name rule) (branches (H s))\<rparr>))"
        using submoduleChanged_absent [of h H s rule sub opts rn] by simp
      with assms have "H' = H(s := (H s)\<lparr>branches := branch_access h (git_ref_name rule) (branches (H s))\<rparr>)"
        by simp
      with True show ?thesis by (simp add: appends_access same_counters_def)
    qed
  qed
  then show "appends h (H p) (H' p)" and "same_counters (H p) (H' p)" by simp_all
qed

lemma resetBranch_grows:
  assumes "resetBranch h opts H this rule R rn mark resetTo comment = Inr H'"
  shows "appends h (H p) (H' p)" and "same_counters (H p) (H' p)"
proof -
  define body where "body = (\<lambda>H1 :: store.
          if \<not> starts_with R ''refs/'' then Inl (AssertionFailed ''boost::starts_with(gitRefName, refs/)'')
          else
            (let r = H1 this;
                 deleting = (mark = 0);
                 bs = branch_access h R (branches r);
                 br = branch_value h bs R;
                 backupCmd = (if exists h br \<and> lastChangeRev br \<noteq> rn
                              then backup_cmd R rn deleting else []);
                 br' = br\<lparr>lastChangeRev := rn, commits := commits br @ [rn], marks := marks br @ [mark]\<rparr>;
                 cmd = reset_cmd R resetTo rn mark comment;
                 r1 = r\<lparr>branches := AList.update R br' bs\<rparr>
             in Inr (H1(this :=
                  (if deleting then
                     (if qh_contains (resetBranches r1) R
                      then r1\<lparr>resetBranches := AList.delete R (resetBranches r1)\<rparr>
                      else r1\<lparr>deletedBranches := AList.update R
                                 (str_value (deletedBranches r1) R @ backupCmd @ cmd)
                                 (deletedBranches r1)\<rparr>)
                   else r1\<lparr>resetBranches := AList.update R
                                 (str_value (resetBranches r1) R @ backupCmd @ cmd)
                                 (resetBranches r1)\<rparr>)))))"
  have "resetBranch h opts H this rule R rn mark resetTo comment
      = and_then (case submodule_in_repo (H this) of None \<Rightarrow> Inr H
           | Some super \<Rightarrow> submoduleChanged h opts H super this rule mark rn) body"
    by (simp add: resetBranch_def body_def)
  with assms obtain H1 where
    sub: "(case submodule_in_repo (H this) of None \<Rightarrow> Inr H
           | Some super \<Rightarrow> submoduleChanged h opts H super this rule mark rn) = Inr H1"
    and bd: "body H1 = Inr H'"
    by (auto simp: and_then_Inr_iff)
  from bd have others: "\<And>q. q \<noteq> this \<Longrightarrow> H' q = H1 q"
    and b: "branches (H' this) = AList.update R
            ((branch_value h (branches (H1 this)) R)\<lparr>lastChangeRev := rn,
                commits := commits (branch_value h (branches (H1 this)) R) @ [rn],
                marks := marks (branch_value h (branches (H1 this)) R) @ [mark]\<rparr>)
            (branch_access h R (branches (H1 this)))"
    and cnt: "last_commit_mark (H' this) = last_commit_mark (H1 this)"
      "next_file_mark (H' this) = next_file_mark (H1 this)"
    by (auto simp: body_def Let_def split: if_splits)
  have first: "appends h (H q) (H1 q) \<and> same_counters (H q) (H1 q)" for q
  proof (cases "submodule_in_repo (H this)")
    case None
    with sub show ?thesis by simp
  next
    case (Some super)
    with sub have "submoduleChanged h opts H super this rule mark rn = Inr H1" by simp
    from submoduleChanged_quiet [OF this] show ?thesis by simp
  qed
  have second: "appends h (H1 this) (H' this)"
    using b by (rule appends_one) (simp add: branch_access_def)
  have "appends h (H p) (H' p) \<and> same_counters (H p) (H' p)"
  proof (cases "p = this")
    case True
    from first [of this] second have "appends h (H this) (H' this)" by (blast intro: appends_trans)
    moreover from first [of this] cnt have "same_counters (H this) (H' this)"
      by (simp add: same_counters_def)
    ultimately show ?thesis using True by simp
  next
    case False
    with first [of p] others [of p] show ?thesis by simp
  qed
  then show "appends h (H p) (H' p)" and "same_counters (H p) (H' p)" by simp_all
qed

lemma deleteBranch_grows:
  assumes "deleteBranch h opts H this rule rn = Inr H'"
  shows "appends h (H p) (H' p)" and "same_counters (H p) (H' p)"
proof -
  from assms have "H' = H \<or> resetBranch h opts H this rule (git_ref_name rule) rn 0
      (replicate 40 CHR ''0'') ''delete'' = Inr H'"
    by (auto simp: deleteBranch_def Let_def split: if_splits)
  then have "appends h (H p) (H' p) \<and> same_counters (H p) (H' p)"
    using resetBranch_grows [of h opts H this rule "git_ref_name rule" rn 0 "replicate 40 CHR ''0''"
        "''delete''" H' p]
    by auto
  then show "appends h (H p) (H' p)" and "same_counters (H p) (H' p)" by simp_all
qed

lemma createBranch_grows:
  assumes "createBranch h opts H this rule rn branchFrom n = Inr H'"
  shows "appends h (H p) (H' p)" and "same_counters (H p) (H' p)"
proof -
  let ?R = "git_ref_name rule"
  from assms have sw: "starts_with ?R ''refs/''" "starts_with branchFrom ''refs/''"
    by (auto simp: createBranch_def Let_def split: if_splits)
  from assms sw obtain mark desc0 r1 where
    mf: "markFrom h (H this) branchFrom n (''from branch '' @ branchFrom) = Inr (mark, desc0, r1)"
    by (cases "markFrom h (H this) branchFrom n (''from branch '' @ branchFrom)")
       (auto simp: createBranch_def Let_def)
  from assms sw mf have m: "mark \<noteq> - 1"
    by (auto simp: createBranch_def Let_def)
  from createBranch_step [where H = H and this = this, OF sw mf m, of opts rn] assms obtain r3 where
    rb: "resetBranch h opts (H(this := r3)) this rule ?R rn mark
           (if mark = 0 then branchFrom else '':'' @ to_string mark)
           (if mark = 0 then desc0 @ '', deleted/unknown'' else desc0) = Inr H'"
    and b3: "branches r3 = AList.update ?R
          ((branch_value h (branches r1) ?R)
             \<lparr>branch_note := branch_note (branch_value h (branches r1) branchFrom)\<rparr>)
          (branch_access h ?R (branches r1))"
    and c3: "last_commit_mark r3 = last_commit_mark r1" "next_file_mark r3 = next_file_mark r1"
    by auto
  have a13: "appends h r1 r3"
  proof (rule appends_same_values)
    fix k
    show "commits (branch_value h (branches r3) k) = commits (branch_value h (branches r1) k)
      \<and> marks (branch_value h (branches r3) k) = marks (branch_value h (branches r1) k)"
      by (cases "k = ?R") (simp_all add: b3 branch_access_def)
  qed
  note q = markFrom_quiet(1,2) [OF mf]
  have a3: "appends h (H this) r3" using q(1) a13 by (rule appends_trans)
  have s3: "same_counters (H this) r3" using q(2) c3 by (simp add: same_counters_def)
  note g = resetBranch_grows [OF rb, of p]
  have "appends h (H p) (H' p) \<and> same_counters (H p) (H' p)"
  proof (cases "p = this")
    case True
    with g a3 s3 show ?thesis by (auto intro: appends_trans same_counters_trans)
  next
    case False
    with g show ?thesis by simp
  qed
  then show "appends h (H p) (H' p)" and "same_counters (H p) (H' p)" by simp_all
qed

subsection \<open>The counters\<close>

lemma int32_id: "0 \<le> x \<Longrightarrow> x < 2147483648 \<Longrightarrow> int32 x = x"
  by (simp add: int32_def)

lemma marks_apart_int32: "marks_apart r \<Longrightarrow> int32 (last_commit_mark r + 1) = last_commit_mark r + 1"
  by (rule int32_id) (simp_all add: marks_apart_def maxMark_def)

lemma same_counters_apart: "same_counters r r' \<Longrightarrow> marks_apart r \<Longrightarrow> marks_apart r'"
  by (simp add: same_counters_def marks_apart_def)

lemma Transaction_addFile_apart:
  assumes "Transaction_addFile h opts r key path mode len = Inr (m, r')" and "marks_apart r"
  shows "marks_apart r'" and "last_commit_mark r + 1 < next_file_mark r"
    and "last_commit_mark r' = last_commit_mark r"
proof -
  note f = Transaction_addFile_result [OF assms(1)]
  from f(3) marks_apart_int32 [OF assms(2)] show lt: "last_commit_mark r + 1 < next_file_mark r" by simp
  show "last_commit_mark r' = last_commit_mark r" by (rule f(4))
  from lt assms(2) show "marks_apart r'" by (simp add: marks_apart_def f(2,4))
qed

lemma update_dot_gitmodules_apart:
  assumes "update_dot_gitmodules h opts names r branch_name b rn = Inr r'" and "marks_apart r"
  shows "marks_apart r'"
proof -
  from assms(1) obtain r1 m r2 where dt: "demandTransaction h opts r branch_name [] rn = Inr r1"
    and af: "Transaction_addFile h opts r1 branch_name ''.gitmodules'' gitmodules_mode
               (int (length (gitmodules_content names (submodules b)))) = Inr (m, r2)"
    and r': "r' = (if \<not> dry_run opts
                   then r2\<lparr>fastImport := fastImport r2 @ [gitmodules_content names (submodules b), LF]\<rparr>
                   else r2)"
    by (auto simp: update_dot_gitmodules_def and_then_Inr_iff Let_def)
  from demandTransaction_quiet(2) [OF dt] assms(2) have "marks_apart r1" by (rule same_counters_apart)
  from Transaction_addFile_apart(1) [OF af this] show ?thesis by (simp add: r' marks_apart_def)
qed

lemma gitmodules_loop_apart:
  "gitmodules_loop h opts names rn ks r = Inr r' \<Longrightarrow> marks_apart r \<Longrightarrow> marks_apart r'"
proof (induction ks arbitrary: r)
  case Nil
  then show ?case by simp
next
  case (Cons k ks)
  show ?case
  proof (cases "lastSubmoduleListChangeRev (branch_value h (branches r) k) = rn")
    case True
    with Cons.prems obtain r1 where
      u: "update_dot_gitmodules h opts names r k (branch_value h (branches r) k) rn = Inr r1"
      and l: "gitmodules_loop h opts names rn ks r1 = Inr r'"
      by (auto simp: Let_def and_then_Inr_iff)
    from update_dot_gitmodules_apart [OF u Cons.prems(2)] Cons.IH [OF l] show ?thesis by simp
  next
    case False
    with Cons.prems have "gitmodules_loop h opts names rn ks r = Inr r'" by (simp add: Let_def)
    from Cons.IH [OF this Cons.prems(2)] show ?thesis .
  qed
qed

lemma prepare_commit_frame:
  assumes "prepare_commit h opts vals H this rn = Inr H'"
  shows "appends h (H p) (H' p)" and "last_commit_mark (H' p) = last_commit_mark (H p)"
    and "marks_apart (H p) \<Longrightarrow> marks_apart (H' p)"
proof -
  have all: "appends h (H p) (H' p) \<and> last_commit_mark (H' p) = last_commit_mark (H p)
      \<and> (marks_apart (H p) \<longrightarrow> marks_apart (H' p))"
  proof (cases "deletedBranches (H this) = [] \<and> resetBranches (H this) = []")
    case True
    with assms have "H' = H" by (simp add: prepare_commit_def)
    then show ?thesis by simp
  next
    case False
    with assms obtain r1 r2 where
      l: "gitmodules_loop h opts (\<lambda>p. name (H p)) rn (map fst (branches (H this))) (H this) = Inr r1"
      and s: "startFastImport h opts r1 = Inr r2"
      and H': "H' = H(this := r2\<lparr>fastImport := fastImport r2 @ vals (deletedBranches r2)
                                         @ vals (resetBranches r2),
                                       deletedBranches := [], resetBranches := []\<rparr>)"
      by (auto simp: prepare_commit_def Let_def and_then_Inr_iff)
    from gitmodules_loop_frame [OF l] have f: "branches r1 = branches (H this)"
      "last_commit_mark r1 = last_commit_mark (H this)" by simp_all
    note q = startFastImport_quiet [OF s]
    show ?thesis
    proof (cases "p = this")
      case True
      have "appends h (H this) r1" using f(1) by (rule appends_same_table)
      moreover have "appends h r1 r2" by (rule q(1))
      moreover have "appends h r2 (H' this)" by (rule appends_same_table) (simp add: H')
      ultimately have a: "appends h (H this) (H' this)" by (blast intro: appends_trans)
      have c: "last_commit_mark (H' this) = last_commit_mark (H this)"
        using q(2) f(2) by (simp add: H' same_counters_def)
      have m: "marks_apart (H' this)" if "marks_apart (H this)"
      proof -
        from gitmodules_loop_apart [OF l that] have "marks_apart r1" .
        with q(2) have "marks_apart r2" by (rule same_counters_apart)
        then show ?thesis by (simp add: H' marks_apart_def)
      qed
      from a c m True show ?thesis by simp
    next
      case False
      then show ?thesis by (simp add: H')
    qed
  qed
  from all show "appends h (H p) (H' p)" and "last_commit_mark (H' p) = last_commit_mark (H p)"
    and "marks_apart (H p) \<Longrightarrow> marks_apart (H' p)" by simp_all
qed

subsection \<open>One call, and a run\<close>

lemma appends_upd: "appends h (H q) r \<Longrightarrow> appends h (H p) ((H(q := r)) p)"
  by (cases "p = q") simp_all

lemma exec_appends:
  assumes "exec h opts vals c H = Inr (ms, H')"
  shows "appends h (H p) (H' p)"
proof (cases c)
  case (Call_startFastImport q)
  with assms obtain r where s: "startFastImport h opts (H q) = Inr r" and r: "H' = H(q := r)"
    by (auto simp: and_then_Inr_iff)
  from appends_upd [where H = H and q = q and p = p and r = r and h = h, OF startFastImport_quiet(1) [OF s]] r
  show ?thesis by simp
next
  case (Call_demandTransaction q br svnpfx rn)
  with assms obtain r where s: "demandTransaction h opts (H q) br svnpfx rn = Inr r" and r: "H' = H(q := r)"
    by (auto simp: and_then_Inr_iff)
  from appends_upd [where H = H and q = q and p = p and r = r and h = h, OF demandTransaction_quiet(1) [OF s]] r
  show ?thesis by simp
next
  case (Call_deleteFile q key path)
  with assms obtain r where s: "Transaction_deleteFile (H q) key path = Inr r" and r: "H' = H(q := r)"
    by (auto simp: and_then_Inr_iff)
  from appends_upd [where H = H and q = q and p = p and r = r and h = h, OF Transaction_deleteFile_quiet(1) [OF s]] r
  show ?thesis by simp
next
  case (Call_updateSubmodule q key sub_path m)
  with assms obtain r where s: "Transaction_updateSubmodule (H q) key sub_path m = Inr r" and r: "H' = H(q := r)"
    by (auto simp: and_then_Inr_iff)
  from appends_upd [where H = H and q = q and p = p and r = r and h = h, OF Transaction_updateSubmodule_quiet(1) [OF s]] r
  show ?thesis by simp
next
  case (Call_noteCopyFromBranch q key branchFrom n)
  with assms obtain r where s: "Transaction_noteCopyFromBranch h (H q) key branchFrom n = Inr r" and r: "H' = H(q := r)"
    by (auto simp: and_then_Inr_iff)
  from appends_upd [where H = H and q = q and p = p and r = r and h = h, OF Transaction_noteCopyFromBranch_quiet(1) [OF s]] r
  show ?thesis by simp
next
  case (Call_commitNote q key noteText appnd commit_arg)
  with assms obtain r where s: "Transaction_commitNote h (H q) key noteText appnd commit_arg = Inr r" and r: "H' = H(q := r)"
    by (auto simp: and_then_Inr_iff)
  from appends_upd [where H = H and q = q and p = p and r = r and h = h, OF Transaction_commitNote_quiet(1) [OF s]] r
  show ?thesis by simp
next
  case (Call_closeFastImport q)
  with assms have r: "H' = H(q := closeFastImport (H q))" by auto
  from appends_upd [where H = H and q = q and p = p and r = "closeFastImport (H q)" and h = h,
      OF closeFastImport_quiet(1)] r
  show ?thesis by simp
next
  case (Call_addFile q key path mode len)
  with assms obtain x r where s: "Transaction_addFile h opts (H q) key path mode len = Inr (x, r)" and r: "H' = H(q := r)"
    by (auto simp: and_then_Inr_iff)
  from appends_upd [where H = H and q = q and p = p and r = r and h = h, OF Transaction_addFile_appends [OF s]] r
  show ?thesis by simp
next
  case (Call_transaction_commit q key)
  with assms obtain x r where s: "Transaction_commit h opts (H q) key = Inr (x, r)" and r: "H' = H(q := r)"
    by (auto simp: and_then_Inr_iff)
  from appends_upd [where H = H and q = q and p = p and r = r and h = h, OF Transaction_commit_marks(5) [OF s]] r
  show ?thesis by simp
next
  case (Call_commit q a e l)
  with assms obtain x r where s: "Repository_commit h opts (H q) a e l = Inr (x, r)" and r: "H' = H(q := r)"
    by (auto simp: and_then_Inr_iff)
  from appends_upd [where H = H and q = q and p = p and r = r and h = h, OF Repository_commit_marks(4) [OF s]] r
  show ?thesis by simp
next
  case (Call_submoduleChanged q submodule branchRule m rn)
  with assms have s: "submoduleChanged h opts H q submodule branchRule m rn = Inr H'"
    by (auto simp: and_then_Inr_iff)
  show ?thesis by (rule submoduleChanged_quiet(1) [OF s])
next
  case (Call_resetBranch q branch_rule gitRefName rn m resetTo comment)
  with assms have s: "resetBranch h opts H q branch_rule gitRefName rn m resetTo comment = Inr H'"
    by (auto simp: and_then_Inr_iff)
  show ?thesis by (rule resetBranch_grows(1) [OF s])
next
  case (Call_createBranch q branch_rule rn branchFrom n)
  with assms have s: "createBranch h opts H q branch_rule rn branchFrom n = Inr H'"
    by (auto simp: and_then_Inr_iff)
  show ?thesis by (rule createBranch_grows(1) [OF s])
next
  case (Call_deleteBranch q branch_rule rn)
  with assms have s: "deleteBranch h opts H q branch_rule rn = Inr H'"
    by (auto simp: and_then_Inr_iff)
  show ?thesis by (rule deleteBranch_grows(1) [OF s])
next
  case (Call_prepare_commit q rn)
  with assms have s: "prepare_commit h opts vals H q rn = Inr H'"
    by (auto simp: and_then_Inr_iff)
  show ?thesis by (rule prepare_commit_frame(1) [OF s])
next
  case (Call_setupIncremental q cutoff last_valid_mark logfile)
  obtain rv c' r where s: "setupIncremental h (H q) cutoff last_valid_mark logfile = (rv, c', r)"
    by (cases "setupIncremental h (H q) cutoff last_valid_mark logfile")
  with assms Call_setupIncremental have r: "H' = H(q := r)" by simp
  from appends_upd [where H = H and q = q and p = p and r = r and h = h, OF setupIncremental_appends [OF s]] r
  show ?thesis by simp
qed

lemma run_appends:
  "run h opts vals cs H = Inr (ms, H') \<Longrightarrow> appends h (H p) (H' p)"
proof (induction cs arbitrary: H ms)
  case Nil
  then show ?case by simp
next
  case (Cons c cs)
  from Cons.prems obtain ms1 H1 ms2 where e: "exec h opts vals c H = Inr (ms1, H1)"
    and r: "run h opts vals cs H1 = Inr (ms2, H')"
    by (auto simp: and_then_Inr_iff)
  from exec_appends [OF e] Cons.IH [OF r] show ?case by (blast intro: appends_trans)
qed







subsection \<open>The constructor, and the lookup of \<open>markFrom\<close>\<close>

lemma empty_branches_fold:
  "\<forall>k. commits (branch_value h bs k) = [] \<and> marks (branch_value h bs k) = [] \<Longrightarrow>
     \<forall>k. commits (branch_value h
             (fold (\<lambda>b bs. AList.update b ((branch_value h bs b)\<lparr>lastChangeRev := v\<rparr>) bs) xs bs) k) = []
        \<and> marks (branch_value h
             (fold (\<lambda>b bs. AList.update b ((branch_value h bs b)\<lparr>lastChangeRev := v\<rparr>) bs) xs bs) k) = []"
proof (induction xs arbitrary: bs)
  case Nil
  then show ?case by simp
next
  case (Cons x xs)
  have "\<forall>k. commits (branch_value h (AList.update x ((branch_value h bs x)\<lparr>lastChangeRev := v\<rparr>) bs) k) = []
     \<and> marks (branch_value h (AList.update x ((branch_value h bs x)\<lparr>lastChangeRev := v\<rparr>) bs) k) = []"
  proof
    fix k
    show "commits (branch_value h (AList.update x ((branch_value h bs x)\<lparr>lastChangeRev := v\<rparr>) bs) k) = []
     \<and> marks (branch_value h (AList.update x ((branch_value h bs x)\<lparr>lastChangeRev := v\<rparr>) bs) k) = []"
      using Cons.prems by (cases "k = x") simp_all
  qed
  from Cons.IH [OF this] show ?case by simp
qed

lemma Repository_init_lockstep: "lockstep h (Repository_init h nm bs super path incr)"
proof -
  let ?bs = "fold (\<lambda>b bs. AList.update b ((branch_value h bs b)\<lparr>lastChangeRev := neverChanged h\<rparr>) bs) bs []"
  have "\<forall>k. commits (branch_value h [] k) = [] \<and> marks (branch_value h [] k) = []"
    by (simp add: branch_value_def new_Branch_def)
  from empty_branches_fold [OF this, of "neverChanged h" bs]
  have e: "\<forall>k. commits (branch_value h ?bs k) = [] \<and> marks (branch_value h ?bs k) = []" .
  have "\<forall>k. commits (branch_value h (AList.update ''refs/heads/master''
            ((branch_value h ?bs ''refs/heads/master'')\<lparr>lastChangeRev := 1\<rparr>) ?bs) k) = []
     \<and> marks (branch_value h (AList.update ''refs/heads/master''
            ((branch_value h ?bs ''refs/heads/master'')\<lparr>lastChangeRev := 1\<rparr>) ?bs) k) = []"
  proof
    fix k
    show "commits (branch_value h (AList.update ''refs/heads/master''
            ((branch_value h ?bs ''refs/heads/master'')\<lparr>lastChangeRev := 1\<rparr>) ?bs) k) = []
     \<and> marks (branch_value h (AList.update ''refs/heads/master''
            ((branch_value h ?bs ''refs/heads/master'')\<lparr>lastChangeRev := 1\<rparr>) ?bs) k) = []"
      using e by (cases "k = ''refs/heads/master''") simp_all
  qed
  then show ?thesis
    unfolding lockstep_iff by (simp add: Repository_init_def Let_def)
qed


text \<open>The binary search stays between its bounds, on any vector.\<close>

lemma qUpperBound_loop_le: "qUpperBound_loop xs v start n \<le> start + n"
proof (induction xs v start n rule: qUpperBound_loop.induct)
  case (1 xs v start n)
  show ?case
  proof (cases "n = 0")
    case True
    then show ?thesis by (simp add: qUpperBound_loop.simps [of xs v start 0])
  next
    case False
    show ?thesis
    proof (cases "v < xs ! (start + n div 2)")
      case True
      from "1.IH"(1) [OF False refl refl True] False True show ?thesis
        by (simp add: qUpperBound_loop.simps [of xs v start n] Let_def)
    next
      case nless: False
      from "1.IH"(2) [OF False refl refl nless] False nless show ?thesis
        by (simp add: qUpperBound_loop.simps [of xs v start n] Let_def)
    qed
  qed
qed

lemma qUpperBound_le: "qUpperBound xs v \<le> length xs"
  using qUpperBound_loop_le [of xs v 0 "length xs"] by (simp add: qUpperBound_def)

lemma markFrom_in_bounds:
  assumes "lockstep h r"
  shows "markFrom h r branchFrom n desc \<noteq> Inl (AssertionFailed ''index out of range'')"
    and "markFrom h r branchFrom n desc \<noteq> Inl (AssertionFailed ''!isEmpty()'')"
proof -
  let ?b = "branch_value h (branches r) branchFrom"
  from assms have len: "length (commits ?b) = length (marks ?b)" by (simp add: lockstep_iff)
  have e: "marks ?b \<noteq> []" if "commits ?b \<noteq> []" using that len by auto
  have i: "qUpperBound (commits ?b) n - 1 < length (marks ?b)" if "qUpperBound (commits ?b) n \<noteq> 0"
    using that qUpperBound_le [of "commits ?b" n] len by arith
  show "markFrom h r branchFrom n desc \<noteq> Inl (AssertionFailed ''index out of range'')"
    using e i by (simp add: markFrom_def Let_def)
  show "markFrom h r branchFrom n desc \<noteq> Inl (AssertionFailed ''!isEmpty()'')"
    using e i by (simp add: markFrom_def Let_def)
qed




text \<open>
  C9. The constructor leaves every branch with no commit and no mark. \<open>resetBranch\<close>
  (in a repository that is not its own super-module) appends the revision to the
  commits of the branch and the mark to its marks; \<open>Transaction::commit\<close> appends the
  revision of the transaction to the commits of its branch and the allocated mark to
  its marks; \<open>setupIncremental\<close> appends to every branch as many commits as marks. In a
  run of calls, if every branch of every repository has as many commits as marks at
  the start, it has at the end. And in a repository where that holds, neither the
  lookup \<open>marks[it - commits.begin()]\<close> of \<open>markFrom\<close> nor its \<open>marks.last()\<close> leaves
  the vector.
\<close>

theorem commits_and_marks_in_lockstep:
  "lockstep h (Repository_init h nm bs super path incr)
   \<and> (resetBranch h opts H this rule R rn mark resetTo comment = Inr H'
         \<and> submodule_in_repo (H this) \<noteq> Some this \<longrightarrow>
         commits (branch_value h (branches (H' this)) R)
           = commits (branch_value h (branches (H this)) R) @ [rn]
       \<and> marks (branch_value h (branches (H' this)) R)
           = marks (branch_value h (branches (H this)) R) @ [mark])
   \<and> (Transaction_commit h opts r key = Inr (m, r') \<longrightarrow>
         (\<exists>t. map_of (transactions r) key = Some t
            \<and> commits (branch_value h (branches r') (branch t))
                = commits (branch_value h (branches r) (branch t)) @ [revnum t]
            \<and> marks (branch_value h (branches r') (branch t))
                = marks (branch_value h (branches r) (branch t)) @ [m]))
   \<and> (setupIncremental h r cutoff last_valid_mark logfile = (rv, cutoff', r') \<longrightarrow> appends h r r')
   \<and> (run h opts vals cs H = Inr (ms, H') \<and> (\<forall>p. lockstep h (H p)) \<longrightarrow> (\<forall>p. lockstep h (H' p)))
   \<and> (lockstep h r \<longrightarrow>
         markFrom h r branchFrom n desc \<noteq> Inl (AssertionFailed ''index out of range'')
       \<and> markFrom h r branchFrom n desc \<noteq> Inl (AssertionFailed ''!isEmpty()''))"
proof -
  have rb: "commits (branch_value h (branches (H' this)) R)
           = commits (branch_value h (branches (H this)) R) @ [rn]
       \<and> marks (branch_value h (branches (H' this)) R)
           = marks (branch_value h (branches (H this)) R) @ [mark]"
    if "resetBranch h opts H this rule R rn mark resetTo comment = Inr H'
         \<and> submodule_in_repo (H this) \<noteq> Some this"
  proof -
    from that have 1: "resetBranch h opts H this rule R rn mark resetTo comment = Inr H'"
      and 2: "submodule_in_repo (H this) \<noteq> Some this" by simp_all
    from resetBranch_result(1) [OF 1 2] show ?thesis by simp
  qed
  have tc: "\<exists>t. map_of (transactions r) key = Some t
            \<and> commits (branch_value h (branches r') (branch t))
                = commits (branch_value h (branches r) (branch t)) @ [revnum t]
            \<and> marks (branch_value h (branches r') (branch t))
                = marks (branch_value h (branches r) (branch t)) @ [m]"
    if "Transaction_commit h opts r key = Inr (m, r')"
    using that by (rule Transaction_commit_marks(6))
  have si: "appends h r r'" if "setupIncremental h r cutoff last_valid_mark logfile = (rv, cutoff', r')"
    using that by (rule setupIncremental_appends)
  have rn: "\<forall>p. lockstep h (H' p)"
    if "run h opts vals cs H = Inr (ms, H') \<and> (\<forall>p. lockstep h (H p))"
  proof
    fix p
    from that have 1: "run h opts vals cs H = Inr (ms, H')" and 2: "lockstep h (H p)" by simp_all
    from run_appends [OF 1, of p] 2 show "lockstep h (H' p)" by (rule appends_lockstep)
  qed
  have mf: "markFrom h r branchFrom n desc \<noteq> Inl (AssertionFailed ''index out of range'')
       \<and> markFrom h r branchFrom n desc \<noteq> Inl (AssertionFailed ''!isEmpty()'')"
    if "lockstep h r"
    using markFrom_in_bounds [OF that] by simp
  from Repository_init_lockstep [of h nm bs super path incr] rb tc si rn mf
  show ?thesis by blast
qed



lemma example_deleteBranch:
  "deleteBranch example_h example_opts example_store 0 example_rule 9 = Inr example_deleted_store"
proof -
  have sw: "starts_with ''refs/heads/b'' ''refs/''" "starts_with ''refs/heads/b'' ''refs/heads/''"
    by (simp_all add: starts_with_def)
  show ?thesis
    by (simp add: deleteBranch_def resetBranch_def Let_def example_store_facts sw example_super_facts
        example_store_def example_super_def example_deleted_store_def branch_access_def branch_value_def
        qh_contains_def str_value_def)
       (simp add: example_branch_b_def)
qed

theorem commits_and_marks_in_lockstep_witness:
  "run example_h example_opts (map snd) [Call_deleteBranch 0 example_rule 9] example_store
       = Inr ([], example_deleted_store)
     \<and> (\<forall>p. lockstep example_h (example_store p))
     \<and> (\<forall>p. lockstep example_h (example_deleted_store p))
     \<and> commits (branch_value example_h (branches (example_deleted_store 0)) ''refs/heads/b'') = [7, 9]
     \<and> marks (branch_value example_h (branches (example_deleted_store 0)) ''refs/heads/b'') = [5, 0]"
proof -
  have r: "run example_h example_opts (map snd) [Call_deleteBranch 0 example_rule 9] example_store
       = Inr ([], example_deleted_store)"
    by (simp add: example_deleteBranch)
  have l: "\<forall>p. lockstep example_h (example_store p)"
    by (simp add: example_store_def lockstep_def example_super_def example_child_def branch_value_def
        example_master_branch_def example_branch_b_def)
  from r l have prem: "run example_h example_opts (map snd) [Call_deleteBranch 0 example_rule 9] example_store
       = Inr ([], example_deleted_store) \<and> (\<forall>p. lockstep example_h (example_store p))"
    by simp
  note inst = commits_and_marks_in_lockstep
         [where h = example_h and opts = example_opts and vals = "map snd"
            and cs = "[Call_deleteBranch 0 example_rule 9]" and H = example_store
            and ms = "[]" and H' = example_deleted_store]
  from inst [THEN conjunct2, THEN conjunct2, THEN conjunct2, THEN conjunct2, THEN conjunct1, THEN mp, OF prem]
  have "\<forall>p. lockstep example_h (example_deleted_store p)" .
  moreover have "commits (branch_value example_h (branches (example_deleted_store 0)) ''refs/heads/b'') = [7, 9]"
    "marks (branch_value example_h (branches (example_deleted_store 0)) ''refs/heads/b'') = [5, 0]"
    by (simp_all add: example_deleted_store_def branch_value_def)
  ultimately show ?thesis using r l by simp
qed

end
